(* ===== verification/Prelude.thy ===== *)
theory Prelude
  imports Main "HOL-Library.Word" "HOL-Library.Finite_Map" "HOL-Library.Multiset"
    "HOL-Library.List_Lexorder" "HOL-Library.Char_ord" "HOL-Library.Product_Lexorder"
begin

text \<open>
  Shared material of the development: the machine integers of Go (\<open>uint64\<close> as
  \<open>64 word\<close>, \<open>int64\<close> as \<open>int\<close> with the wrap-around written out), the
  sentinel errors the node packages pass between each other, Go maps as finite maps together
  with the unspecified order in which \<open>range\<close> visits them, and generic facts on lists,
  words and sorted lists that several components use.
\<close>

named_theorems go_defs \<open>definitions that only name a constant of the source\<close>

section \<open>Integers\<close>

type_synonym u64 = "64 word"

definition maxInt64 :: int where
  [go_defs]: "maxInt64 = 9223372036854775807"

definition maxInt64u :: u64 where
  [go_defs]: "maxInt64u = 9223372036854775807"

definition maxUint64 :: u64 where
  [go_defs]: "maxUint64 = - 1"

text \<open>Reduction of a mathematical integer to the value an \<open>int64\<close> operation leaves.\<close>

definition i64 :: "int \<Rightarrow> int" where
  "i64 x = (x + 2 ^ 63) mod 2 ^ 64 - 2 ^ 63"

text \<open>Go's \<open>/\<close> and \<open>%\<close> truncate towards zero.\<close>

definition go_quot :: "int \<Rightarrow> int \<Rightarrow> int" where
  "go_quot a b = sgn a * sgn b * (\<bar>a\<bar> div \<bar>b\<bar>)"

definition go_rem :: "int \<Rightarrow> int \<Rightarrow> int" where
  "go_rem a b = a - b * go_quot a b"

lemma i64_id [simp]: "- (2 ^ 63) \<le> x \<Longrightarrow> x < 2 ^ 63 \<Longrightarrow> i64 x = x"
  by (simp add: i64_def)

lemma i64_range: "- (2 ^ 63) \<le> i64 x \<and> i64 x < 2 ^ 63"
proof -
  have "0 \<le> (x + 2 ^ 63) mod 2 ^ 64" "(x + 2 ^ 63) mod 2 ^ 64 < (2 ^ 64 :: int)"
    by simp_all
  then show ?thesis by (simp add: i64_def)
qed

lemma go_quot_nonneg [simp]: "0 \<le> a \<Longrightarrow> 0 < b \<Longrightarrow> go_quot a b = a div b"
  by (cases "a = 0") (simp_all add: go_quot_def)

lemma go_rem_nonneg [simp]: "0 \<le> a \<Longrightarrow> 0 < b \<Longrightarrow> go_rem a b = a mod b"
  by (simp add: go_rem_def minus_mult_div_eq_mod)

subsection \<open>Sums of words that do not wrap\<close>

lemma unat_u64_less: "unat (x :: u64) < 2 ^ 64"
  using unsigned_less [of x] by simp

lemma maxUint64_minus: "unat (maxUint64 - x) = 2 ^ 64 - 1 - unat x"
proof -
  have "x \<le> maxUint64" by (simp add: maxUint64_def)
  then have "unat (maxUint64 - x) = unat maxUint64 - unat x"
    by (rule unat_sub)
  moreover have "unat maxUint64 = 2 ^ 64 - 1"
    by (simp add: maxUint64_def unsigned_minus_1_eq_mask mask_eq_exp_minus_1)
  ultimately show ?thesis by simp
qed

lemma word_fits_iff: "(y :: u64) \<le> maxUint64 - x \<longleftrightarrow> unat x + unat y < 2 ^ 64"
proof -
  have "unat x < 2 ^ 64" by (rule unat_u64_less)
  then show ?thesis
    by (simp add: word_le_nat_alt maxUint64_minus) arith
qed

lemma word_overflows_iff: "(y :: u64) > maxUint64 - x \<longleftrightarrow> 2 ^ 64 \<le> unat x + unat y"
  using word_fits_iff [of y x] by auto

lemma unat_add_fits:
  "unat (x :: u64) + unat y < 2 ^ 64 \<Longrightarrow> unat (x + y) = unat x + unat y"
  by (simp add: unat_word_ariths)

lemma uint_of_int_u64: "0 \<le> x \<Longrightarrow> x < 2 ^ 64 \<Longrightarrow> uint (word_of_int x :: u64) = x"
  by (simp add: uint_word_of_int)

lemma unat_of_int_u64: "0 \<le> x \<Longrightarrow> x < 2 ^ 64 \<Longrightarrow> unat (word_of_int x :: u64) = nat x"
  by (simp add: unat_eq_nat_uint uint_of_int_u64)

section \<open>Errors\<close>

text \<open>
  The sentinel errors of the node packages, one constructor each; \<open>StorageErr\<close> stands for
  an error of the database or of a file, \<open>CtxErr\<close> for the error of a cancelled context,
  \<open>ErrClock\<close> for \<open>errors.Join(ErrClock, err)\<close>.
\<close>

datatype error =
    ErrBlocked | ErrExpired | ErrQuota | ErrRevision | ErrTerm | ErrSize
  | ErrClock error | ErrUntrusted | InvalidPolicy | ErrPersistence
  | ErrGrant | ErrReport | ErrCounterCheckpoint | ErrUsage | ErrIdentity | ErrSpoolFull
  | ErrDigest | ErrStateFormat | ErrShortWrite | CtxErr string | StorageErr string
  | ErrInvalid | ErrBudget | ErrConflict | ErrSequence | ErrScope | ErrRecovery | ErrEnrollment | ErrRecordNotFound | ErrDecode | ErrDrain | ErrStopComposition

type_synonym 'a result = "error + 'a"

section \<open>Maps and the order of range\<close>

text \<open>
  A Go map is a finite map. \<open>range\<close> visits its entries in an unspecified order: the
  definitions that depend on it take the order as an argument, a function that lists the
  entries, and \<open>ranges_over\<close> says that the list holds each entry exactly once.
\<close>

definition ranges_over :: "(('k, 'v) fmap \<Rightarrow> ('k \<times> 'v) list) \<Rightarrow> ('k, 'v) fmap \<Rightarrow> bool" where
  "ranges_over it m \<longleftrightarrow> distinct (map fst (it m)) \<and> (\<forall>k v. (k, v) \<in> set (it m) \<longleftrightarrow> fmlookup m k = Some v)"

text \<open>One possible order: by key.\<close>

definition entries_by_key :: "('k::linorder, 'v) fmap \<Rightarrow> ('k \<times> 'v) list" where
  "entries_by_key m = map (\<lambda>k. (k, the (fmlookup m k))) (sorted_list_of_fset (fmdom m))"

lemma entries_by_key_ranges: "ranges_over entries_by_key m"
  by (auto simp: ranges_over_def entries_by_key_def comp_def fmlookup_dom_iff image_iff
      sorted_list_of_fset.rep_eq)

lemma ranges_over_distinct: "ranges_over it m \<Longrightarrow> distinct (it m)"
  by (auto simp: ranges_over_def distinct_map)

lemma ranges_over_map_of: "ranges_over it m \<Longrightarrow> map_of (it m) k = fmlookup m k"
  unfolding ranges_over_def
  by (cases "fmlookup m k") (auto simp: map_of_eq_None_iff map_of_eq_Some_iff)

lemma ranges_over_empty: "ranges_over it fmempty \<Longrightarrow> it fmempty = []"
  unfolding ranges_over_def by (cases "it fmempty") auto

lemma ranges_over_keys: "ranges_over it m \<Longrightarrow> set (map fst (it m)) = fset (fmdom m)"
  unfolding ranges_over_def by (force simp: fmlookup_dom_iff image_iff)

lemma ranges_over_set_unique:
  "ranges_over it m \<Longrightarrow> ranges_over it' m \<Longrightarrow> mset (it m) = mset (it' m)"
  by (subst set_eq_iff_mset_eq_distinct [symmetric])
    (auto simp: ranges_over_distinct, auto simp: ranges_over_def)

section \<open>Lists\<close>

text \<open>
  In a list sorted strictly by a key, an element is among the first \<open>n\<close> exactly when
  fewer than \<open>n\<close> elements have a smaller key.
\<close>

lemma sorted_wrt_take_rank:
  assumes "sorted_wrt (<) (map f xs)" and "x \<in> set xs"
  shows "x \<in> set (take n xs) \<longleftrightarrow> card {y \<in> set xs. f y < (f x :: 'b::linorder)} < n"
proof -
  from assms(2) obtain i where i: "i < length xs" "x = xs ! i"
    by (auto simp: in_set_conv_nth)
  have mono: "f (xs ! a) < f (xs ! b)" if "a < b" "b < length xs" for a b
    using sorted_wrt_nth_less [OF assms(1), of a b] that by simp
  have inj: "a = b" if "xs ! a = xs ! b" "a < length xs" "b < length xs" for a b
    using mono [of a b] mono [of b a] that by (metis less_irrefl linorder_neqE_nat)
  have "{y \<in> set xs. f y < f x} = (!) xs ` {..<i}"
  proof (intro equalityI subsetI)
    fix y assume "y \<in> {y \<in> set xs. f y < f x}"
    then obtain j where j: "j < length xs" "y = xs ! j" and less: "f (xs ! j) < f (xs ! i)"
      using i by (auto simp: in_set_conv_nth)
    have "j < i" using less mono [of i j] j i by (metis less_irrefl less_trans linorder_neqE_nat)
    then show "y \<in> (!) xs ` {..<i}" using j by blast
  next
    fix y assume "y \<in> (!) xs ` {..<i}"
    then show "y \<in> {y \<in> set xs. f y < f x}" using i mono by auto
  qed
  moreover have "inj_on ((!) xs) {..<i}"
    using inj i by (auto intro!: inj_onI)
  ultimately have rank: "card {y \<in> set xs. f y < f x} = i"
    by (simp add: card_image)
  have "x \<in> set (take n xs) \<longleftrightarrow> i < n"
  proof
    assume "x \<in> set (take n xs)"
    then obtain j where "j < n" "j < length xs" "xs ! j = xs ! i"
      using i by (auto simp: in_set_conv_nth)
    then show "i < n" using inj i by auto
  next
    assume "i < n"
    then show "x \<in> set (take n xs)" using i by (auto simp: in_set_conv_nth)
  qed
  then show ?thesis by (simp add: rank)
qed

text \<open>Sorting by a key that is injective on the list gives a strictly sorted list.\<close>

lemma sort_key_strict:
  assumes "distinct (map f xs)"
  shows "sorted_wrt (<) (map (f :: 'a \<Rightarrow> 'b::linorder) (sort_key f xs))"
proof -
  have "distinct (map f (sort_key f xs))"
    using assms by (metis mset_map mset_sort mset_eq_imp_distinct_iff)
  then show ?thesis by (simp add: strict_sorted_iff)
qed

lemma sort_key_mset_unique:
  assumes "mset xs = mset ys" and "distinct (map (f :: 'a \<Rightarrow> 'b::linorder) xs)"
  shows "sort_key f xs = sort_key f ys"
proof (rule properties_for_sort_key [symmetric])
  show "mset (sort_key f xs) = mset ys" by (simp add: assms(1))
  have inj: "inj_on f (set xs)" using assms(2) by (simp add: distinct_map)
  have sets: "set xs = set ys" using assms(1) by (metis set_mset_mset)
  have dx: "distinct xs" "distinct ys"
    using assms by (auto simp: distinct_map dest: mset_eq_imp_distinct_iff)
  fix k assume "k \<in> set (sort_key f xs)"
  then have k: "k \<in> set xs" by simp
  have one: "filter (\<lambda>x. f k = f x) zs = [k]" if "set zs = set xs" "distinct zs" for zs
  proof -
    have "set (filter (\<lambda>x. f k = f x) zs) = {k}"
      using inj k that by (auto simp: inj_on_def)
    then show ?thesis using that by (metis distinct_filter distinct_singleton empty_set
          list.simps(15) set_eq_iff_mset_eq_distinct mset_single_iff_right)
  qed
  show "filter (\<lambda>x. f k = f x) (sort_key f xs) = filter (\<lambda>x. f k = f x) ys"
    using one [of "sort_key f xs"] one [of ys] sets dx by simp
next
  show "sorted (map f (sort_key f xs))" by simp
qed

section \<open>Identifiers\<close>

text \<open>What the code uses of \<open>google/uuid\<close>: parsing, the nil value and the canonical text.\<close>

record 'u uuid_lib =
  uuid_Parse :: "string \<Rightarrow> 'u option"
  uuid_Nil :: 'u
  uuid_String :: "'u \<Rightarrow> string"

text \<open>A library for examples: every string is an identifier, the empty one the nil value.\<close>

definition plain_uuid :: "string uuid_lib" where
  "plain_uuid = \<lparr>uuid_Parse = Some, uuid_Nil = [], uuid_String = \<lambda>s. s\<rparr>"

section \<open>Guards\<close>

text \<open>A chain of early returns passes when none of its conditions holds.\<close>

lemma guard_None: "(if c then Some e else x) = None \<longleftrightarrow> \<not> c \<and> x = None"
  by simp

section \<open>Runs\<close>

lemma three_steps: "r a b \<Longrightarrow> r b c \<Longrightarrow> r c d \<Longrightarrow> r\<^sup>*\<^sup>* a d"
  by (blast intro: rtranclp.rtrancl_into_rtrancl)

end
