(* ===== verification/Policy.thy ===== *)
theory Policy
  imports Prelude
begin

text \<open>
  Package \<open>internal/policy\<close>: the product rules decided from values alone. Rate ladders
  (\<open>plan.go\<close>), the depletion ladder and the reset calendar (\<open>cycle.go\<close>), and the
  cap on the number of addresses a client may be live from (\<open>ipcap.go\<close>). All the
  \<open>int64\<close> values of this package are only compared and copied, so they are \<open>int\<close>.
\<close>

section \<open>Rate ladders\<close>

record Tier =
  FromBytes :: int
  UpBps :: int
  DownBps :: int

record Plan =
  Tiers :: "Tier list"

record Limits =
  LUpBps :: int
  LDownBps :: int

definition no_limits :: Limits where
  [go_defs]: "no_limits = \<lparr>LUpBps = 0, LDownBps = 0\<rparr>"

definition zero_tier :: Tier where
  [go_defs]: "zero_tier = \<lparr>FromBytes = 0, UpBps = 0, DownBps = 0\<rparr>"

text \<open>The loop of \<open>Evaluate\<close>, over the variables \<open>best\<close> and \<open>found\<close>.\<close>

fun evaluate_loop :: "int \<Rightarrow> Tier list \<Rightarrow> Tier \<Rightarrow> bool \<Rightarrow> Tier \<times> bool" where
  "evaluate_loop usedBytes [] best found = (best, found)"
| "evaluate_loop usedBytes (tier # tiers) best found =
     (if FromBytes tier > usedBytes then evaluate_loop usedBytes tiers best found
      else if \<not> found \<or> FromBytes tier \<ge> FromBytes best then evaluate_loop usedBytes tiers tier True
      else evaluate_loop usedBytes tiers best found)"

definition Evaluate :: "Plan \<Rightarrow> int \<Rightarrow> Limits" where
  "Evaluate p usedBytes =
     (case evaluate_loop usedBytes (Tiers p) zero_tier False of (best, found) \<Rightarrow>
        if \<not> found then no_limits
        else \<lparr>LUpBps = UpBps best, LDownBps = DownBps best\<rparr>)"

definition capRate :: "int \<Rightarrow> int" where
  "capRate rate = (if rate = 0 then 8 * 1024 * 1024 else min rate (8 * 1024 * 1024))"

definition DepletionLadder :: "Plan \<Rightarrow> int \<Rightarrow> Plan" where
  "DepletionLadder p quota =
     (if quota \<le> 0 then p
      else let kept = filter (\<lambda>tier. FromBytes tier < quota) (Tiers p);
               limits = Evaluate p quota
           in \<lparr>Tiers = kept @ [\<lparr>FromBytes = quota, UpBps = capRate (LUpBps limits),
                                DownBps = capRate (LDownBps limits)\<rparr>]\<rparr>)"

section \<open>The reset calendar\<close>

text \<open>
  A UTC time as \<open>time.Time.Date\<close> and the clock fields read it: \<open>nod\<close> is the
  nanosecond of the day (hour, minute, second and nanosecond together, which \<open>NextReset\<close>
  only copies). \<open>time.Date\<close> normalises a month outside 1..12 into the year and a day
  outside the month into the neighbouring months; \<open>AddDate\<close> is \<open>time.Date\<close> on the
  shifted fields. The zero time is \<open>None\<close>.
\<close>

record Civil =
  year :: int
  month :: int
  day :: int
  nod :: int

definition leap :: "int \<Rightarrow> bool" where
  "leap y \<longleftrightarrow> y mod 4 = 0 \<and> (y mod 100 \<noteq> 0 \<or> y mod 400 = 0)"

definition daysIn :: "int \<Rightarrow> int \<Rightarrow> int" where
  "daysIn y m = (if m = 2 then if leap y then 29 else 28
                 else if m \<in> {4, 6, 9, 11} then 30 else 31)"

definition norm_month :: "int \<Rightarrow> int \<Rightarrow> int \<times> int" where
  "norm_month y m = (y + (m - 1) div 12, (m - 1) mod 12 + 1)"

lemma daysIn_bounds: "28 \<le> daysIn y m" "daysIn y m \<le> 31"
  by (auto simp: daysIn_def)

function norm_day :: "int \<Rightarrow> int \<Rightarrow> int \<Rightarrow> int \<times> int \<times> int" where
  "norm_day y m d =
     (if d < 1 then (case norm_month y (m - 1) of (y', m') \<Rightarrow> norm_day y' m' (d + daysIn y' m'))
      else if d > daysIn y m
        then (case norm_month y (m + 1) of (y', m') \<Rightarrow> norm_day y' m' (d - daysIn y m))
      else (y, m, d))"
  by pat_completeness auto
termination
proof (relation "measure (\<lambda>(y, m, d). if d < 1 then nat (1 - d) + 40 else nat d)", goal_cases)
  case 1
  show ?case by simp
next
  case (2 y m d y' m')
  then show ?case using daysIn_bounds [of y' m'] by simp arith
next
  case (3 y m d y' m')
  then show ?case using daysIn_bounds [of y m] by simp
qed

declare norm_day.simps [simp del]

definition go_Date :: "int \<Rightarrow> int \<Rightarrow> int \<Rightarrow> int \<Rightarrow> Civil" where
  "go_Date y m d n =
     (case norm_month y m of (y1, m1) \<Rightarrow> case norm_day y1 m1 d of (y2, m2, d2) \<Rightarrow>
        \<lparr>year = y2, month = m2, day = d2, nod = n\<rparr>)"

definition AddDate :: "Civil \<Rightarrow> int \<Rightarrow> int \<Rightarrow> int \<Rightarrow> Civil" where
  "AddDate t years months days = go_Date (year t + years) (month t + months) (day t + days) (nod t)"

definition NextReset :: "Civil \<Rightarrow> string \<Rightarrow> Civil option" where
  "NextReset t cycle =
     (if cycle = ''weekly'' then Some (AddDate t 0 0 7)
      else if cycle \<noteq> ''monthly'' then None
      else let first = go_Date (year t) (month t + 1) 1 (nod t);
               end = day (AddDate first 0 1 (- 1))
           in Some (AddDate first 0 0 (min (day t) end - 1)))"

definition civil_ok :: "Civil \<Rightarrow> bool" where
  "civil_ok t \<longleftrightarrow> 1 \<le> month t \<and> month t \<le> 12 \<and> 1 \<le> day t \<and> day t \<le> daysIn (year t) (month t)"

text \<open>
  Day numbers: the number of days before the first of a month, counted so that the
  difference of two dates is the number of days between them.
\<close>

definition year_start :: "int \<Rightarrow> int" where
  "year_start y = 365 * y + ((y - 1) div 4 - (y - 1) div 100 + (y - 1) div 400)"

definition month_start :: "int \<Rightarrow> int \<Rightarrow> int" where
  "month_start y m = year_start y
     + (if m \<le> 1 then 0 else if m = 2 then 31 else
         (if leap y then 1 else 0) +
         (if m = 3 then 59 else if m = 4 then 90 else if m = 5 then 120 else if m = 6 then 151
          else if m = 7 then 181 else if m = 8 then 212 else if m = 9 then 243
          else if m = 10 then 273 else if m = 11 then 304 else 334))"

definition day_number :: "Civil \<Rightarrow> int" where
  "day_number t = month_start (year t) (month t) + day t"

section \<open>The address cap\<close>

record Observation =
  IP :: string
  LastSeenUnixMilli :: int
  FirstSeenUnixMilli :: int

record Verdict =
  Keep :: "Observation list"
  Over :: "Observation list"
  Retain :: "Observation list"

definition earliest :: "int \<Rightarrow> int \<Rightarrow> int" where
  "earliest a b = (if a = 0 then b else if b = 0 then a else min a b)"

text \<open>The first loop of \<open>merge\<close>: the persisted addresses that are not stale.\<close>

fun merge_persisted :: "int \<Rightarrow> Observation list \<Rightarrow> (string, Observation) fmap \<Rightarrow>
    (string, Observation) fmap" where
  "merge_persisted staleCutoff [] byIP = byIP"
| "merge_persisted staleCutoff (ob # obs) byIP =
     (if LastSeenUnixMilli ob < staleCutoff then merge_persisted staleCutoff obs byIP
      else merge_persisted staleCutoff obs (fmupd (IP ob) ob byIP))"

text \<open>The second loop: this pass's observations, and the set \<open>seenThisPass\<close>.\<close>

fun merge_observed :: "Observation list \<Rightarrow> (string, Observation) fmap \<Rightarrow> string fset \<Rightarrow>
    (string, Observation) fmap \<times> string fset" where
  "merge_observed [] byIP seen = (byIP, seen)"
| "merge_observed (ob # obs) byIP seen =
     (case fmlookup byIP (IP ob) of
        None \<Rightarrow> merge_observed obs (fmupd (IP ob) ob byIP) (finsert (IP ob) seen)
      | Some prev \<Rightarrow>
          merge_observed obs
            (fmupd (IP ob)
               (prev\<lparr>LastSeenUnixMilli := max (LastSeenUnixMilli prev) (LastSeenUnixMilli ob),
                     FirstSeenUnixMilli := earliest (FirstSeenUnixMilli prev) (FirstSeenUnixMilli ob)\<rparr>)
               byIP)
            (finsert (IP ob) seen))"

text \<open>The third loop: the entries of \<open>byIP\<close> in the order \<open>range\<close> visits them.\<close>

fun merge_split :: "int \<Rightarrow> string fset \<Rightarrow> string fset \<Rightarrow> (string \<times> Observation) list \<Rightarrow>
    Observation list \<Rightarrow> Observation list \<Rightarrow> Observation list \<times> Observation list" where
  "merge_split now seenThisPass heldElsewhere [] live retain = (live, retain)"
| "merge_split now seenThisPass heldElsewhere ((ip, ob) # rest) live retain =
     (if ip |\<in>| seenThisPass then
        merge_split now seenThisPass heldElsewhere rest
          (live @ [if FirstSeenUnixMilli ob = 0 then ob\<lparr>FirstSeenUnixMilli := now\<rparr> else ob]) retain
      else if ip |\<in>| heldElsewhere then
        merge_split now seenThisPass heldElsewhere rest
          (live @ [if FirstSeenUnixMilli ob = 0
                   then ob\<lparr>FirstSeenUnixMilli := LastSeenUnixMilli ob\<rparr> else ob]) retain
      else merge_split now seenThisPass heldElsewhere rest live
             (retain @ [ob\<lparr>FirstSeenUnixMilli := 0\<rparr>]))"

definition arrival :: "Observation \<Rightarrow> int \<times> string" where
  "arrival ob = (FirstSeenUnixMilli ob, IP ob)"

definition sortByArrival :: "Observation list \<Rightarrow> Observation list" where
  "sortByArrival obs = sort_key arrival obs"

definition sortOldestFirst :: "Observation list \<Rightarrow> Observation list" where
  "sortOldestFirst obs = sort_key (\<lambda>ob. (LastSeenUnixMilli ob, IP ob)) obs"

text \<open>\<open>it\<close> is the order of the range over \<open>byIP\<close>.\<close>

definition merge :: "((string, Observation) fmap \<Rightarrow> (string \<times> Observation) list) \<Rightarrow>
    Observation list \<Rightarrow> Observation list \<Rightarrow> int \<Rightarrow> int \<Rightarrow> string fset \<Rightarrow>
    Observation list \<times> Observation list" where
  "merge it persisted observed now staleCutoff heldElsewhere =
     (let byIP0 = merge_persisted staleCutoff persisted fmempty;
          (byIP, seen) = merge_observed observed byIP0 {||};
          (live, retain) = merge_split now seen heldElsewhere (it byIP) [] []
      in (sortByArrival live, sortOldestFirst retain))"

definition overCap :: "Observation list \<Rightarrow> int \<Rightarrow> Observation list \<times> Observation list" where
  "overCap live limit =
     (if limit \<le> 0 \<or> int (length live) \<le> limit then (live, [])
      else (take (nat limit) live, drop (nat limit) live))"

definition Decide :: "((string, Observation) fmap \<Rightarrow> (string \<times> Observation) list) \<Rightarrow>
    Observation list \<Rightarrow> Observation list \<Rightarrow> int \<Rightarrow> int \<Rightarrow> int \<Rightarrow> string fset \<Rightarrow> Verdict" where
  "Decide it persisted observed limit nowUnixMilli staleCutoffUnixMilli heldElsewhere =
     (case merge it persisted observed nowUnixMilli staleCutoffUnixMilli heldElsewhere of
        (live, retain) \<Rightarrow> case overCap live limit of (keep, over) \<Rightarrow>
          \<lparr>Keep = keep, Over = over, Retain = retain\<rparr>)"

text \<open>The loop of \<open>Admit\<close>: \<open>None\<close> is the early return for a device already held.\<close>

fun admit_loop :: "string list \<Rightarrow> string \<Rightarrow> string fset \<Rightarrow> string fset option" where
  "admit_loop [] source seen = Some seen"
| "admit_loop (h # held) source seen =
     (if h = source then None else admit_loop held source (finsert h seen))"

definition Admit :: "string list \<Rightarrow> string \<Rightarrow> int \<Rightarrow> bool" where
  "Admit held source limit =
     (if limit \<le> 0 then True
      else case admit_loop held source {||} of
          None \<Rightarrow> True
        | Some seen \<Rightarrow> int (fcard seen) < limit)"

text \<open>
  What a pass computes, for the statements: whether an entry is live, the start it is given,
  the address table, the set \<open>seenThisPass\<close> and the live addresses in order.
\<close>

definition live_in :: "string fset \<Rightarrow> string fset \<Rightarrow> string \<times> Observation \<Rightarrow> bool" where
  "live_in seen held e \<longleftrightarrow> fst e |\<in>| seen \<or> fst e |\<in>| held"

definition stamp :: "int \<Rightarrow> string fset \<Rightarrow> string \<times> Observation \<Rightarrow> Observation" where
  "stamp now seen e =
     (if FirstSeenUnixMilli (snd e) = 0
      then (snd e)\<lparr>FirstSeenUnixMilli := (if fst e |\<in>| seen then now else LastSeenUnixMilli (snd e))\<rparr>
      else snd e)"

definition pass_table :: "Observation list \<Rightarrow> Observation list \<Rightarrow> int \<Rightarrow> (string, Observation) fmap" where
  "pass_table persisted observed cutoff =
     fst (merge_observed observed (merge_persisted cutoff persisted fmempty) {||})"

definition seen_set :: "Observation list \<Rightarrow> string fset" where
  "seen_set obs = snd (merge_observed obs (fmempty :: (string, Observation) fmap) {||})"

definition live_list :: "((string, Observation) fmap \<Rightarrow> (string \<times> Observation) list) \<Rightarrow>
    Observation list \<Rightarrow> Observation list \<Rightarrow> int \<Rightarrow> int \<Rightarrow> string fset \<Rightarrow> Observation list" where
  "live_list it p obs now c held = fst (merge it p obs now c held)"

section \<open>Ladders: lemmas\<close>

lemma evaluate_loop_found:
  "snd (evaluate_loop u ts b f) \<longleftrightarrow> f \<or> (\<exists>t \<in> set ts. FromBytes t \<le> u)"
  by (induction u ts b f rule: evaluate_loop.induct) auto

lemma evaluate_loop_best:
  assumes "snd (evaluate_loop u ts b f)"
  shows "(fst (evaluate_loop u ts b f) \<in> set ts \<and> FromBytes (fst (evaluate_loop u ts b f)) \<le> u
           \<or> f \<and> fst (evaluate_loop u ts b f) = b)
       \<and> (\<forall>t \<in> set ts. FromBytes t \<le> u \<longrightarrow> FromBytes t \<le> FromBytes (fst (evaluate_loop u ts b f)))
       \<and> (f \<longrightarrow> FromBytes b \<le> FromBytes (fst (evaluate_loop u ts b f)))"
  using assms
proof (induction u ts b f rule: evaluate_loop.induct)
  case (1 u b f)
  then show ?case by simp
next
  case (2 u t ts b f)
  then show ?case by (cases "FromBytes t > u"; cases "\<not> f \<or> FromBytes t \<ge> FromBytes b") auto
qed

lemma Evaluate_no_tier:
  "\<forall>t \<in> set (Tiers p). used < FromBytes t \<Longrightarrow> Evaluate p used = no_limits"
  using evaluate_loop_found [of used "Tiers p" zero_tier False]
  by (auto simp: Evaluate_def split: prod.split)

lemma Evaluate_tier:
  assumes "t \<in> set (Tiers p)" and "FromBytes t \<le> used"
    and "\<And>s. s \<in> set (Tiers p) \<Longrightarrow> FromBytes s \<le> used \<Longrightarrow> s \<noteq> t \<Longrightarrow> FromBytes s < FromBytes t"
  shows "Evaluate p used = \<lparr>LUpBps = UpBps t, LDownBps = DownBps t\<rparr>"
proof -
  let ?r = "evaluate_loop used (Tiers p) zero_tier False"
  have found: "snd ?r" using assms(1,2) by (auto simp: evaluate_loop_found)
  from evaluate_loop_best [OF found]
  have "fst ?r \<in> set (Tiers p)" "FromBytes (fst ?r) \<le> used" "FromBytes t \<le> FromBytes (fst ?r)"
    using assms(1,2) by auto
  with assms(3) [of "fst ?r"] have "fst ?r = t" by force
  with found show ?thesis by (auto simp: Evaluate_def split: prod.split)
qed

lemma evaluate_loop_append:
  "evaluate_loop u (xs @ ys) b f =
     (case evaluate_loop u xs b f of (b', f') \<Rightarrow> evaluate_loop u ys b' f')"
  by (induction u xs b f rule: evaluate_loop.induct) auto

lemma evaluate_loop_filter:
  "u < q \<Longrightarrow> evaluate_loop u (filter (\<lambda>t. FromBytes t < q) ts) b f = evaluate_loop u ts b f"
  by (induction u ts b f rule: evaluate_loop.induct) auto

lemma capRate_bounds: "capRate r \<le> 8388608" "0 \<le> r \<Longrightarrow> 0 < capRate r"
  by (auto simp: capRate_def)

section \<open>The calendar: lemmas\<close>

lemma norm_month_in_range: "1 \<le> m \<Longrightarrow> m \<le> 12 \<Longrightarrow> norm_month y m = (y, m)"
  by (simp add: norm_month_def)

lemma norm_month_range: "norm_month y m = (y', m') \<Longrightarrow> 1 \<le> m' \<and> m' \<le> 12"
  using pos_mod_bound [of 12 "m - 1"] pos_mod_sign [of 12 "m - 1"]
  by (auto simp: norm_month_def)

lemma norm_day_id: "1 \<le> d \<Longrightarrow> d \<le> daysIn y m \<Longrightarrow> norm_day y m d = (y, m, d)"
  by (subst norm_day.simps) simp

lemma norm_day_zero:
  "norm_month y (m - 1) = (y', m') \<Longrightarrow> norm_day y m 0 = (y', m', daysIn y' m')"
  using daysIn_bounds [of y' m'] by (subst norm_day.simps) (simp add: norm_day_id)

lemma div_step:
  assumes "0 < (k :: int)"
  shows "y div k = (y - 1) div k + (if y mod k = 0 then 1 else 0)"
proof (cases "y mod k = 0")
  case True
  have "(y - 1) div k = y div k - 1"
  proof (rule int_div_pos_eq)
    show "y - 1 = k * (y div k - 1) + (k - 1)"
      using True mult_div_mod_eq [of k y] by (simp add: algebra_simps)
  qed (use assms in auto)
  with True show ?thesis by simp
next
  case False
  have "(y - 1) div k = y div k"
  proof (rule int_div_pos_eq)
    show "y - 1 = k * (y div k) + (y mod k - 1)"
      using mult_div_mod_eq [of k y] by simp
    show "0 \<le> y mod k - 1" using False pos_mod_sign [OF assms, of y] by simp
    show "y mod k - 1 < k" using pos_mod_bound [OF assms, of y] by simp
  qed
  with False show ?thesis by simp
qed

lemma leap_alt: "leap y \<longleftrightarrow> y mod 4 = 0 \<and> (y mod 100 = 0 \<longrightarrow> y mod 400 = 0)"
  by (auto simp: leap_def)

lemma leap_arith:
  "a' = a + (if p4 then 1 else 0) \<Longrightarrow> b' = b + (if p100 then 1 else 0) \<Longrightarrow>
   c' = c + (if p400 then 1 else 0) \<Longrightarrow> (p400 \<Longrightarrow> p100) \<Longrightarrow> (p100 \<Longrightarrow> p4) \<Longrightarrow>
   a' - b' + c' = a - b + c + (if p4 \<and> (p100 \<longrightarrow> p400) then 1 else (0 :: int))"
  by (cases p4; cases p100; cases p400) simp_all

lemma year_start_next: "year_start (y + 1) = year_start y + (if leap y then 366 else 365)"
proof -
  have "y mod 100 = y mod 400 mod 100" by (simp add: mod_mod_cancel)
  moreover have "y mod 4 = y mod 100 mod 4" by (simp add: mod_mod_cancel)
  ultimately have imp: "y mod 400 = 0 \<Longrightarrow> y mod 100 = 0" "y mod 100 = 0 \<Longrightarrow> y mod 4 = 0" by auto
  define A where "A = y div 4 - y div 100 + y div 400"
  define B where "B = (y - 1) div 4 - (y - 1) div 100 + (y - 1) div 400"
  have "A = B + (if leap y then 1 else 0)"
    unfolding leap_alt A_def B_def by (intro leap_arith div_step) (use imp in simp_all)
  moreover have "year_start (y + 1) = 365 * (y + 1) + A" and "year_start y = 365 * y + B"
    by (simp_all add: year_start_def A_def B_def)
  ultimately show ?thesis by simp
qed

lemma month_start_next:
  assumes "1 \<le> m" "m \<le> 12" and "norm_month y (m + 1) = (y', m')"
  shows "month_start y' m' = month_start y m + daysIn y m"
proof -
  have "m \<in> {1,2,3,4,5,6,7,8,9,10,11,12}" using assms(1,2) by simp arith
  then show ?thesis
  proof (elim insertE emptyE)
    assume m: "m = 12"
    with assms(3) have y': "y' = y + 1" "m' = 1" by (auto simp: norm_month_def)
    show ?thesis
      unfolding y' m by (simp add: month_start_def daysIn_def year_start_next)
  qed (use assms(3) in \<open>auto simp: norm_month_def month_start_def daysIn_def\<close>)
qed

lemma norm_month_inverse:
  "1 \<le> m \<Longrightarrow> m \<le> 12 \<Longrightarrow> norm_month y (m - 1) = (y', m') \<Longrightarrow> norm_month y' (m' + 1) = (y, m)"
  by (cases "m = 1") (auto simp: norm_month_def)

lemma norm_day_number:
  "1 \<le> m \<Longrightarrow> m \<le> 12 \<Longrightarrow> norm_day y m d = (y', m', d') \<Longrightarrow>
     month_start y' m' + d' = month_start y m + d \<and> 1 \<le> m' \<and> m' \<le> 12 \<and> 1 \<le> d' \<and> d' \<le> daysIn y' m'"
proof (induction y m d rule: norm_day.induct)
  case (1 y m d)
  consider "d < 1" | "1 \<le> d" "d > daysIn y m" | "1 \<le> d" "d \<le> daysIn y m" by linarith
  then show ?case
  proof cases
    case 1
    obtain y1 m1 where nm: "norm_month y (m - 1) = (y1, m1)" by (cases "norm_month y (m - 1)")
    have r: "1 \<le> m1" "m1 \<le> 12" using norm_month_range [OF nm] by auto
    have "norm_day y1 m1 (d + daysIn y1 m1) = (y', m', d')"
      using "1.prems"(3) 1 nm by (subst (asm) norm_day.simps) simp
    with "1.IH"(1) [OF 1 nm [symmetric]] r
    have "month_start y' m' + d' = month_start y1 m1 + (d + daysIn y1 m1) \<and> 1 \<le> m' \<and> m' \<le> 12
        \<and> 1 \<le> d' \<and> d' \<le> daysIn y' m'" by blast
    with month_start_next [OF r norm_month_inverse [OF "1.prems"(1,2) nm]] show ?thesis by simp
  next
    case 2
    obtain y1 m1 where nm: "norm_month y (m + 1) = (y1, m1)" by (cases "norm_month y (m + 1)")
    have r: "1 \<le> m1" "m1 \<le> 12" using norm_month_range [OF nm] by auto
    have "norm_day y1 m1 (d - daysIn y m) = (y', m', d')"
      using "1.prems"(3) 2 nm by (subst (asm) norm_day.simps) simp
    with "1.IH"(2) [OF _ 2(2) nm [symmetric]] r 2
    have "month_start y' m' + d' = month_start y1 m1 + (d - daysIn y m) \<and> 1 \<le> m' \<and> m' \<le> 12
        \<and> 1 \<le> d' \<and> d' \<le> daysIn y' m'" by simp
    with month_start_next [OF "1.prems"(1,2) nm] show ?thesis by simp
  next
    case 3
    with "1.prems" show ?thesis by (simp add: norm_day_id)
  qed
qed

lemma go_Date_ok: "civil_ok (go_Date y m d n)"
proof -
  obtain y1 m1 where nm: "norm_month y m = (y1, m1)" by (cases "norm_month y m")
  obtain y2 m2 d2 where nd: "norm_day y1 m1 d = (y2, m2, d2)" by (cases "norm_day y1 m1 d")
  have "1 \<le> m1" "m1 \<le> 12" using norm_month_range [OF nm] by auto
  from norm_day_number [OF this nd] show ?thesis
    by (simp add: go_Date_def nm nd civil_ok_def)
qed

lemma go_Date_number:
  assumes "1 \<le> m" "m \<le> 12"
  shows "day_number (go_Date y m d n) = month_start y m + d"
proof -
  obtain y2 m2 d2 where nd: "norm_day y m d = (y2, m2, d2)" by (cases "norm_day y m d")
  from norm_day_number [OF assms nd] show ?thesis
    by (simp add: go_Date_def norm_month_in_range assms nd day_number_def)
qed

lemma monthly_eq:
  assumes nm: "norm_month (year t) (month t + 1) = (y1, m1)" and d: "1 \<le> day t"
  shows "NextReset t ''monthly'' =
    Some \<lparr>year = y1, month = m1, day = min (day t) (daysIn y1 m1), nod = nod t\<rparr>"
proof -
  have r: "1 \<le> m1" "m1 \<le> 12" using norm_month_range [OF nm] by auto
  have b: "28 \<le> daysIn y1 m1" by (rule daysIn_bounds)
  have first: "go_Date (year t) (month t + 1) 1 (nod t) = \<lparr>year = y1, month = m1, day = 1, nod = nod t\<rparr>"
    using b by (simp add: go_Date_def nm norm_day_id)
  obtain y2 m2 where nm2: "norm_month y1 (m1 + 1) = (y2, m2)" by (cases "norm_month y1 (m1 + 1)")
  have "norm_month y2 (m2 - 1) = (y1, m1)"
    using nm2 r by (cases "m1 = 12") (auto simp: norm_month_def)
  then have last: "go_Date y1 (m1 + 1) 0 n = \<lparr>year = y1, month = m1, day = daysIn y1 m1, nod = n\<rparr>" for n
    by (simp add: go_Date_def nm2 norm_day_zero)
  have "go_Date y1 m1 (min (day t) (daysIn y1 m1)) n =
      \<lparr>year = y1, month = m1, day = min (day t) (daysIn y1 m1), nod = n\<rparr>" for n
    using b d r by (simp add: go_Date_def norm_month_in_range norm_day_id)
  then show ?thesis
    by (simp add: NextReset_def Let_def first AddDate_def last)
qed

section \<open>The address cap: lemmas\<close>

lemma merge_split_eq:
  "merge_split now seen held es live retain =
     (live @ map (stamp now seen) (filter (live_in seen held) es),
      retain @ map (\<lambda>e. (snd e)\<lparr>FirstSeenUnixMilli := 0\<rparr>) (filter (\<lambda>e. \<not> live_in seen held e) es))"
  by (induction now seen held es live retain rule: merge_split.induct)
    (auto simp: live_in_def stamp_def)

lemma merge_persisted_IP:
  "fmpred (\<lambda>ip ob. IP ob = ip) m \<Longrightarrow> fmpred (\<lambda>ip ob. IP ob = ip) (merge_persisted c obs m)"
  by (induction c obs m rule: merge_persisted.induct) (simp_all add: fmpred_upd)

lemma merge_observed_IP:
  "fmpred (\<lambda>ip ob. IP ob = ip) m \<Longrightarrow> fmpred (\<lambda>ip ob. IP ob = ip) (fst (merge_observed obs m s))"
proof (induction obs m s rule: merge_observed.induct)
  case (2 ob obs m s)
  show ?case
  proof (cases "fmlookup m (IP ob)")
    case None
    with 2 show ?thesis by (simp add: fmpred_upd)
  next
    case (Some prev)
    with 2(3) have "IP prev = IP ob" by (auto dest: fmpredD)
    with 2 Some show ?thesis by (simp add: fmpred_upd)
  qed
qed simp

lemma merge_observed_seen: "fset (snd (merge_observed obs m s)) = fset s \<union> IP ` set obs"
  by (induction obs m s rule: merge_observed.induct) (auto split: option.splits)

lemma IP_stamp [simp]: "IP (stamp now seen e) = IP (snd e)"
  by (simp add: stamp_def)

lemma pass_table_IP: "fmlookup (pass_table p obs c) ip = Some ob \<Longrightarrow> IP ob = ip"
  unfolding pass_table_def by (rule fmpredD [OF merge_observed_IP [OF merge_persisted_IP]]) simp_all

lemma seen_set_eq: "snd (merge_observed obs m {||}) = seen_set obs"
proof -
  have "fset (snd (merge_observed obs m {||})) = fset (seen_set obs)"
    by (simp add: seen_set_def merge_observed_seen)
  then show ?thesis by (simp add: fset_inject)
qed

lemma in_seen_set [simp]: "ip |\<in>| seen_set obs \<longleftrightarrow> ip \<in> IP ` set obs"
  using merge_observed_seen [of obs fmempty "{||}"] by (simp add: seen_set_def)

lemma merge_eq:
  "merge it p obs now c held =
     (sortByArrival (map (stamp now (seen_set obs)) (filter (live_in (seen_set obs) held) (it (pass_table p obs c)))),
      sortOldestFirst (map (\<lambda>e. (snd e)\<lparr>FirstSeenUnixMilli := 0\<rparr>)
        (filter (\<lambda>e. \<not> live_in (seen_set obs) held e) (it (pass_table p obs c)))))"
  by (simp add: merge_def Let_def merge_split_eq pass_table_def case_prod_beta seen_set_eq)

lemma range_entry_IP:
  assumes "ranges_over it (pass_table p obs c)" and "e \<in> set (it (pass_table p obs c))"
  shows "IP (snd e) = fst e"
proof -
  have "(fst e, snd e) \<in> set (it (pass_table p obs c))" using assms(2) by simp
  then have "fmlookup (pass_table p obs c) (fst e) = Some (snd e)"
    using assms(1) unfolding ranges_over_def by blast
  then show ?thesis by (rule pass_table_IP)
qed

lemma live_arrivals_distinct:
  assumes "ranges_over it (pass_table p obs c)"
  shows "distinct (map arrival (map (stamp now seen) (filter P (it (pass_table p obs c)))))"
proof -
  let ?es = "filter P (it (pass_table p obs c))"
  have ip: "IP (snd e) = fst e" if "e \<in> set ?es" for e
    using that by (intro range_entry_IP [OF assms]) simp
  have "distinct (map fst ?es)"
    using assms by (simp add: ranges_over_def distinct_map_filter)
  moreover have "map IP (map (stamp now seen) ?es) = map fst ?es"
    by (simp add: ip)
  ultimately have "distinct (map IP (map (stamp now seen) ?es))" by (simp only:)
  then show ?thesis
    by (auto simp: distinct_map inj_on_def arrival_def)
qed

lemma retain_distinct:
  assumes "ranges_over it (pass_table p obs c)"
  shows "distinct (map (\<lambda>ob. (LastSeenUnixMilli ob, IP ob))
    (map (\<lambda>e. (snd e)\<lparr>FirstSeenUnixMilli := 0\<rparr>) (filter P (it (pass_table p obs c)))))"
proof -
  let ?es = "filter P (it (pass_table p obs c))"
  have ip: "IP (snd e) = fst e" if "e \<in> set ?es" for e
    using that by (intro range_entry_IP [OF assms]) simp
  have "distinct (map fst ?es)"
    using assms by (simp add: ranges_over_def distinct_map_filter)
  then have "inj_on fst (set ?es)" "distinct ?es" by (simp_all add: distinct_map)
  then show ?thesis
    by (auto simp: distinct_map inj_on_def ip)
qed

text \<open>What is live in a pass, in arrival order, and what is history.\<close>

lemma live_list_sorted:
  assumes "ranges_over it (pass_table p obs c)"
  shows "sorted_wrt (<) (map arrival (live_list it p obs now c held))"
  unfolding live_list_def merge_eq sortByArrival_def fst_conv
  by (rule sort_key_strict) (rule live_arrivals_distinct [OF assms])

lemma live_list_iff:
  assumes "ranges_over it (pass_table p obs c)"
  shows "ob \<in> set (live_list it p obs now c held) \<longleftrightarrow>
    (\<exists>ip ob0. fmlookup (pass_table p obs c) ip = Some ob0 \<and> (ip \<in> IP ` set obs \<or> ip |\<in>| held)
       \<and> ob = stamp now (seen_set obs) (ip, ob0))"
proof -
  have "ob \<in> set (live_list it p obs now c held) \<longleftrightarrow>
      (\<exists>e \<in> set (it (pass_table p obs c)). live_in (seen_set obs) held e \<and> ob = stamp now (seen_set obs) e)"
    by (auto simp: live_list_def merge_eq sortByArrival_def)
  also have "\<dots> \<longleftrightarrow> (\<exists>ip ob0. (ip, ob0) \<in> set (it (pass_table p obs c))
      \<and> live_in (seen_set obs) held (ip, ob0) \<and> ob = stamp now (seen_set obs) (ip, ob0))"
    by (metis surj_pair)
  finally show ?thesis using assms by (simp add: ranges_over_def live_in_def)
qed

lemma retain_iff:
  assumes "ranges_over it (pass_table p obs c)"
  shows "ob \<in> set (snd (merge it p obs now c held)) \<longleftrightarrow>
    (\<exists>ip ob0. fmlookup (pass_table p obs c) ip = Some ob0 \<and> ip \<notin> IP ` set obs \<and> ip |\<notin>| held
       \<and> ob = ob0\<lparr>FirstSeenUnixMilli := 0\<rparr>)"
proof -
  have "ob \<in> set (snd (merge it p obs now c held)) \<longleftrightarrow>
      (\<exists>e \<in> set (it (pass_table p obs c)). \<not> live_in (seen_set obs) held e
         \<and> ob = (snd e)\<lparr>FirstSeenUnixMilli := 0\<rparr>)"
    by (auto simp: merge_eq sortOldestFirst_def)
  also have "\<dots> \<longleftrightarrow> (\<exists>ip ob0. (ip, ob0) \<in> set (it (pass_table p obs c))
      \<and> \<not> live_in (seen_set obs) held (ip, ob0) \<and> ob = ob0\<lparr>FirstSeenUnixMilli := 0\<rparr>)"
    by (metis surj_pair snd_conv)
  finally show ?thesis using assms by (simp add: ranges_over_def live_in_def)
qed

lemma Decide_split:
  "Keep (Decide it p obs limit now c held) @ Over (Decide it p obs limit now c held)
     = live_list it p obs now c held"
  "Retain (Decide it p obs limit now c held) = snd (merge it p obs now c held)"
  by (auto simp: Decide_def overCap_def live_list_def split: prod.split)

lemma Decide_Keep:
  "Keep (Decide it p obs limit now c held) =
     (if limit \<le> 0 then live_list it p obs now c held
      else take (nat limit) (live_list it p obs now c held))"
  by (auto simp: Decide_def overCap_def live_list_def split: prod.split)

lemma merge_persisted_lookup:
  assumes "distinct (map IP obs)"
  shows "fmlookup (merge_persisted c obs m) ip = Some ob \<longleftrightarrow>
    (ob \<in> set obs \<and> IP ob = ip \<and> c \<le> LastSeenUnixMilli ob) \<or>
    (fmlookup m ip = Some ob \<and> (\<forall>o' \<in> set obs. IP o' = ip \<longrightarrow> LastSeenUnixMilli o' < c))"
  using assms
proof (induction c obs m rule: merge_persisted.induct)
  case (2 c ob1 obs m)
  then have other: "\<And>o'. o' \<in> set obs \<Longrightarrow> IP o' \<noteq> IP ob1" by (auto simp: image_iff)
  show ?case
    using 2 other by (cases "LastSeenUnixMilli ob1 < c") auto
qed auto

lemma merge_observed_first_zero:
  assumes "\<forall>ob \<in> set obs. FirstSeenUnixMilli ob = 0"
    and "fmlookup (fst (merge_observed obs m s)) ip = Some ob'"
  shows "(\<exists>ob. fmlookup m ip = Some ob \<and> FirstSeenUnixMilli ob' = FirstSeenUnixMilli ob)
       \<or> (fmlookup m ip = None \<and> ip \<in> IP ` set obs \<and> FirstSeenUnixMilli ob' = 0)"
  using assms
proof (induction obs m s rule: merge_observed.induct)
  case (2 ob obs m s)
  show ?case
  proof (cases "fmlookup m (IP ob)")
    case None
    with 2(1) [OF None] 2(3,4) show ?thesis by (auto split: if_splits)
  next
    case (Some prev)
    with 2(2) [OF Some] 2(3,4) show ?thesis by (auto simp: earliest_def split: if_splits)
  qed
qed simp

lemma merge_observed_keeps:
  "fmlookup m ip = Some ob \<Longrightarrow> \<exists>ob'. fmlookup (fst (merge_observed obs m s)) ip = Some ob'"
proof (induction obs m s arbitrary: ob rule: merge_observed.induct)
  case (2 ob1 obs m s)
  show ?case
  proof (cases "fmlookup m (IP ob1)")
    case None
    with 2(1) [OF None, of ob] 2(3) show ?thesis by (cases "IP ob1 = ip") auto
  next
    case (Some prev)
    with 2(2) [OF Some] 2(3) show ?thesis by (cases "IP ob1 = ip") auto
  qed
qed simp

lemma live_IP_distinct:
  assumes "ranges_over it (pass_table p obs c)"
  shows "distinct (map IP (live_list it p obs now c held @ snd (merge it p obs now c held)))"
proof -
  let ?es = "it (pass_table p obs c)"
  have ip: "IP (snd e) = fst e" if "e \<in> set ?es" for e
    using that by (rule range_entry_IP [OF assms])
  have d: "distinct (map fst ?es)" using assms by (simp add: ranges_over_def)
  let ?L = "map (stamp now (seen_set obs)) (filter (live_in (seen_set obs) held) ?es)"
  let ?R = "map (\<lambda>e. (snd e)\<lparr>FirstSeenUnixMilli := 0\<rparr>)
      (filter (\<lambda>e. \<not> live_in (seen_set obs) held e) ?es)"
  have L: "map IP ?L = map fst (filter (live_in (seen_set obs) held) ?es)"
    and R: "map IP ?R = map fst (filter (\<lambda>e. \<not> live_in (seen_set obs) held e) ?es)"
    by (simp_all add: ip)
  have "distinct (map IP ?L @ map IP ?R)"
    unfolding L R using d by (auto simp: distinct_map_filter distinct_map inj_on_def)
  moreover have "mset (map IP (live_list it p obs now c held @ snd (merge it p obs now c held)))
      = mset (map IP ?L @ map IP ?R)"
    by (simp add: live_list_def merge_eq sortByArrival_def sortOldestFirst_def multiset.map_comp)
  ultimately show ?thesis by (metis mset_eq_imp_distinct_iff)
qed

lemma live_list_mem:
  assumes "ranges_over it (pass_table p obs c)"
    and "fmlookup (pass_table p obs c) ip = Some ob0" and "ip \<in> IP ` set obs \<or> ip |\<in>| held"
  shows "stamp now (seen_set obs) (ip, ob0) \<in> set (live_list it p obs now c held)"
  using assms(2,3) by (auto simp: live_list_iff [OF assms(1)])

lemma rank_below:
  assumes "ranges_over it (pass_table p obs c)" and "x \<in> set (live_list it p obs now c held)"
  shows "x \<in> set (Keep (Decide it p obs limit now c held)) \<longleftrightarrow>
    limit \<le> 0 \<or> int (card {y \<in> set (live_list it p obs now c held). arrival y < arrival x}) < limit"
  using assms(2) sorted_wrt_take_rank [OF live_list_sorted [OF assms(1)] assms(2), of "nat limit"]
  by (auto simp: Decide_Keep)

lemma admit_loop_eq:
  "admit_loop held source seen =
     (if source \<in> set held then None else Some (seen |\<union>| fset_of_list held))"
  by (induction held source seen rule: admit_loop.induct) auto

lemma Admit_eq:
  "Admit held source limit \<longleftrightarrow> limit \<le> 0 \<or> source \<in> set held \<or> int (card (set held)) < limit"
  by (simp add: Admit_def admit_loop_eq fcard.rep_eq fset_of_list.rep_eq)

lemma arrival_less:
  "arrival u < arrival w \<longleftrightarrow> FirstSeenUnixMilli u < FirstSeenUnixMilli w
     \<or> FirstSeenUnixMilli u = FirstSeenUnixMilli w \<and> IP u < IP w"
  by (auto simp: arrival_def less_prod_simp)

text \<open>Between two passes: a start on record is kept, and what has none starts now.\<close>

lemma recorded_start_kept:
  assumes "\<forall>ob \<in> set obs. FirstSeenUnixMilli ob = 0"
    and "fmlookup (merge_persisted c p fmempty) (IP z) = Some z" and "FirstSeenUnixMilli z \<noteq> 0"
    and "fmlookup (pass_table p obs c) (IP z) = Some ob0"
  shows "arrival (stamp now (seen_set obs) (IP z, ob0)) = arrival z"
  using merge_observed_first_zero [OF assms(1) assms(4) [unfolded pass_table_def]] assms(2,3)
    pass_table_IP [OF assms(4)] by (auto simp: stamp_def arrival_def)

lemma early_start_recorded:
  assumes "\<And>m. ranges_over it m" and "\<forall>ob \<in> set obs. FirstSeenUnixMilli ob = 0"
    and "u \<in> set (live_list it p obs now c held)" and "FirstSeenUnixMilli u < now"
  obtains z ob0 where "fmlookup (merge_persisted c p fmempty) (IP z) = Some z"
    "fmlookup (pass_table p obs c) (IP z) = Some ob0"
    "u = stamp now (seen_set obs) (IP z, ob0)" "FirstSeenUnixMilli z = 0 \<longrightarrow> IP z |\<in>| held"
proof -
  from assms(3) obtain ip u0 where u0: "fmlookup (pass_table p obs c) ip = Some u0"
      "ip \<in> IP ` set obs \<or> ip |\<in>| held" "u = stamp now (seen_set obs) (ip, u0)"
    by (auto simp: live_list_iff [OF assms(1)])
  from merge_observed_first_zero [OF assms(2) u0(1) [unfolded pass_table_def]]
  obtain z where z: "fmlookup (merge_persisted c p fmempty) ip = Some z"
      "FirstSeenUnixMilli u0 = FirstSeenUnixMilli z"
    using assms(4) u0(3) by (auto simp: stamp_def split: if_splits)
  have "IP z = ip"
    using fmpredD [OF merge_persisted_IP z(1)] by simp
  moreover have "FirstSeenUnixMilli z = 0 \<Longrightarrow> ip |\<in>| held"
    using u0(2,3) z(2) assms(4) by (auto simp: stamp_def)
  ultimately show ?thesis using that [of z u0] z(1) u0 by auto
qed

lemma Decide_pass_distinct:
  assumes "\<And>m. ranges_over it m" and "v = Decide it p obs limit now c held"
  shows "distinct (map IP (Keep v @ Over v @ Retain v))"
  unfolding append_assoc [symmetric] assms(2) Decide_split
  by (rule live_IP_distinct [OF assms(1)])

lemma Retain_disjoint:
  assumes "\<And>m. ranges_over it m" and "v = Decide it p obs limit now c held"
  shows "IP ` set (Keep v @ Over v) \<inter> IP ` set (Retain v) = {}"
proof -
  have "distinct (map IP (Keep v @ Over v) @ map IP (Retain v))"
    using Decide_pass_distinct [OF assms] by simp
  then show ?thesis unfolding distinct_append by (simp add: image_Un)
qed

lemma Retain_no_start:
  assumes "\<And>m. ranges_over it m" and "v = Decide it p obs limit now c held" and "z \<in> set (Retain v)"
  shows "FirstSeenUnixMilli z = 0"
  using assms(3) by (auto simp: assms(2) Decide_split retain_iff [OF assms(1)])

lemma merge_persisted_dom:
  "fset (fmdom (merge_persisted c p m)) =
     fset (fmdom m) \<union> IP ` {ob \<in> set p. c \<le> LastSeenUnixMilli ob}"
  by (induction c p m rule: merge_persisted.induct) auto

lemma merge_observed_dom:
  "fset (fmdom (fst (merge_observed obs m s))) = fset (fmdom m) \<union> IP ` set obs"
  by (induction obs m s rule: merge_observed.induct)
    (auto split: option.splits simp: fmlookup_dom_iff)

lemma pass_table_dom:
  "fset (fmdom (pass_table p obs c)) = IP ` {ob \<in> set p. c \<le> LastSeenUnixMilli ob} \<union> IP ` set obs"
  by (simp add: pass_table_def merge_observed_dom merge_persisted_dom)

lemma live_list_IPs:
  assumes "ranges_over it (pass_table p obs c)"
  shows "IP ` set (live_list it p obs now c held) =
    {ip \<in> fset (fmdom (pass_table p obs c)). ip \<in> IP ` set obs \<or> ip |\<in>| held}"
  (is "?L = ?R")
proof
  show "?L \<subseteq> ?R"
    using pass_table_IP by (auto simp: live_list_iff [OF assms] fmlookup_dom_iff)
  show "?R \<subseteq> ?L"
  proof
    fix ip assume r: "ip \<in> ?R"
    then obtain ob0 where ob0: "fmlookup (pass_table p obs c) ip = Some ob0"
      by (auto simp: fmlookup_dom_iff)
    from live_list_mem [OF assms ob0] r have "stamp now (seen_set obs) (ip, ob0)
        \<in> set (live_list it p obs now c held)" by auto
    moreover have "IP (stamp now (seen_set obs) (ip, ob0)) = ip" using pass_table_IP [OF ob0] by simp
    ultimately show "ip \<in> ?L" by (metis imageI)
  qed
qed

lemma Retain_IPs:
  assumes "ranges_over it (pass_table p obs c)"
  shows "IP ` set (snd (merge it p obs now c held)) =
    {ip \<in> fset (fmdom (pass_table p obs c)). \<not> (ip \<in> IP ` set obs \<or> ip |\<in>| held)}"
  (is "?L = ?R")
proof
  show "?L \<subseteq> ?R"
    using pass_table_IP by (auto simp: retain_iff [OF assms] fmlookup_dom_iff)
  show "?R \<subseteq> ?L"
  proof
    fix ip assume r: "ip \<in> ?R"
    then obtain ob0 where ob0: "fmlookup (pass_table p obs c) ip = Some ob0"
      by (auto simp: fmlookup_dom_iff)
    with r have "ob0\<lparr>FirstSeenUnixMilli := 0\<rparr> \<in> set (snd (merge it p obs now c held))"
      unfolding retain_iff [OF assms] by blast
    moreover have "IP (ob0\<lparr>FirstSeenUnixMilli := 0\<rparr>) = ip" using pass_table_IP [OF ob0] by simp
    ultimately show "ip \<in> ?L" by (metis imageI)
  qed
qed

lemma merge_order_irrelevant:
  assumes "\<And>m. ranges_over it m" and "\<And>m. ranges_over it' m"
  shows "merge it p obs now c held = merge it' p obs now c held"
proof -
  have m: "mset (it (pass_table p obs c)) = mset (it' (pass_table p obs c))"
    by (rule ranges_over_set_unique [OF assms])
  show ?thesis
    unfolding merge_eq sortByArrival_def sortOldestFirst_def
    by (intro arg_cong2 [where f = Pair] sort_key_mset_unique
        live_arrivals_distinct [OF assms(1)] retain_distinct [OF assms(1)])
      (simp_all add: m)
qed

text \<open>A new address seen at the end of a pass: the table gains it and keeps the others.\<close>

lemma merge_observed_append:
  "merge_observed (xs @ ys) m s = (case merge_observed xs m s of (m', s') \<Rightarrow> merge_observed ys m' s')"
  by (induction xs m s rule: merge_observed.induct) (auto split: option.splits)

lemma pass_table_new:
  assumes "IP ob |\<notin>| fmdom (pass_table p obs c)"
  shows "pass_table p (obs @ [ob]) c = fmupd (IP ob) ob (pass_table p obs c)"
  using assms fmdom_notD [OF assms]
  by (auto simp: pass_table_def merge_observed_append split: prod.splits)

lemma live_list_new:
  assumes "\<And>m. ranges_over it m" and new: "IP ob |\<notin>| fmdom (pass_table p obs c)"
    and "FirstSeenUnixMilli ob = 0"
  shows "set (live_list it p (obs @ [ob]) now c held) =
    insert (ob\<lparr>FirstSeenUnixMilli := now\<rparr>) (set (live_list it p obs now c held))"
proof -
  let ?t = "pass_table p obs c" and ?s = "stamp now (seen_set obs)" and ?s' = "stamp now (seen_set (obs @ [ob]))"
  have old: "?s' (ip, ob0) = ?s (ip, ob0) \<and> IP ob \<noteq> ip" if "fmlookup ?t ip = Some ob0" for ip ob0
    using that new by (auto simp: stamp_def dest: fmdomI)
  have fresh: "?s' (IP ob, ob) = ob\<lparr>FirstSeenUnixMilli := now\<rparr>"
    using assms(3) by (simp add: stamp_def)
  have look: "fmlookup (fmupd (IP ob) ob ?t) ip = Some ob0 \<longleftrightarrow>
      ip = IP ob \<and> ob0 = ob \<or> fmlookup ?t ip = Some ob0" for ip ob0
    using old [of ip ob0] by (cases "ip = IP ob") auto
  have seen: "ip \<in> IP ` set (obs @ [ob]) \<longleftrightarrow> ip = IP ob \<or> ip \<in> IP ` set obs" for ip by auto
  show ?thesis
  proof (rule set_eqI)
    fix x
    have "x \<in> set (live_list it p (obs @ [ob]) now c held) \<longleftrightarrow> (\<exists>ip ob0.
        (ip = IP ob \<and> ob0 = ob \<or> fmlookup ?t ip = Some ob0 \<and> (ip \<in> IP ` set obs \<or> ip |\<in>| held))
        \<and> x = ?s' (ip, ob0))"
      unfolding live_list_iff [OF assms(1)] pass_table_new [OF new] look seen using old by blast
    also have "\<dots> \<longleftrightarrow> x = ?s' (IP ob, ob) \<or> x \<in> set (live_list it p obs now c held)"
      unfolding live_list_iff [OF assms(1)] using old by (metis (no_types, lifting))
    finally show "x \<in> set (live_list it p (obs @ [ob]) now c held) \<longleftrightarrow>
        x \<in> insert (ob\<lparr>FirstSeenUnixMilli := now\<rparr>) (set (live_list it p obs now c held))"
      by (simp add: fresh)
  qed
qed

lemma Decide_IPs:
  assumes "\<And>m. ranges_over it m" and "v = Decide it p obs limit now c held"
  shows "IP ` set (Keep v @ Over v @ Retain v) = fset (fmdom (pass_table p obs c))"
  using live_list_IPs [OF assms(1), of p obs now c held] Retain_IPs [OF assms(1), of p obs now c held]
  unfolding append_assoc [symmetric] assms(2) Decide_split set_append image_Un by auto

text \<open>Evaluation of the cap on concrete passes.\<close>

lemmas pass_eval = Decide_def merge_def Let_def overCap_def sortByArrival_def sortOldestFirst_def
  arrival_def entries_by_key_def sorted_list_of_fset.rep_eq

section \<open>Properties\<close>



text \<open>C2 A verdict is a partition of the addresses a pass knows, those not stale and those just
  observed: none is named twice, the live ones (observed, or held on another node) are exactly
  those in \<open>Keep\<close> or \<open>Over\<close>, in order of arrival, and \<open>Over\<close> is empty when there is no
  limit and starts only once \<open>Keep\<close> has as many as the limit allows.\<close>

theorem Decide_partition:
  assumes "\<And>m. ranges_over it m" and "v = Decide it persisted observed limit now cutoff held"
  shows "distinct (map IP (Keep v @ Over v @ Retain v))
    \<and> IP ` set (Keep v @ Over v @ Retain v) =
        IP ` {ob \<in> set persisted. cutoff \<le> LastSeenUnixMilli ob} \<union> IP ` set observed
    \<and> IP ` set (Keep v @ Over v) =
        {ip \<in> IP ` set (Keep v @ Over v @ Retain v). ip \<in> IP ` set observed \<or> ip |\<in>| held}
    \<and> sorted_wrt (\<lambda>a b. arrival a < arrival b) (Keep v @ Over v)
    \<and> (if limit \<le> 0 then Over v = []
       else length (Keep v) = min (nat limit) (length (Keep v @ Over v)))"
proof (intro conjI)
  have live: "Keep v @ Over v = live_list it persisted observed now cutoff held"
    by (simp add: assms(2) Decide_split)
  note all = Decide_IPs [OF assms]
  show "distinct (map IP (Keep v @ Over v @ Retain v))" by (rule Decide_pass_distinct [OF assms])
  show "IP ` set (Keep v @ Over v @ Retain v) =
      IP ` {ob \<in> set persisted. cutoff \<le> LastSeenUnixMilli ob} \<union> IP ` set observed"
    by (simp only: all pass_table_dom)
  show "IP ` set (Keep v @ Over v) =
      {ip \<in> IP ` set (Keep v @ Over v @ Retain v). ip \<in> IP ` set observed \<or> ip |\<in>| held}"
    unfolding all unfolding live by (rule live_list_IPs [OF assms(1)])
  show "sorted_wrt (\<lambda>a b. arrival a < arrival b) (Keep v @ Over v)"
    unfolding live using live_list_sorted [OF assms(1)] by (simp add: sorted_wrt_map)
  show "if limit \<le> 0 then Over v = [] else length (Keep v) = min (nat limit) (length (Keep v @ Over v))"
    using Decide_Keep [of it persisted observed limit now cutoff held]
      arg_cong [where f = length, OF live]
    unfolding assms(2) [symmetric] by auto
qed

theorem Decide_partition_witness:
  "length (Keep (Decide entries_by_key [\<lparr>IP = ''a'', LastSeenUnixMilli = 20, FirstSeenUnixMilli = 10\<rparr>]
     [\<lparr>IP = ''b'', LastSeenUnixMilli = 40, FirstSeenUnixMilli = 0\<rparr>,
      \<lparr>IP = ''c'', LastSeenUnixMilli = 41, FirstSeenUnixMilli = 0\<rparr>] 2 50 5 {|''a''|})) = 2"
  using Decide_partition [OF entries_by_key_ranges refl, where limit = 2 and now = 50 and cutoff = 5
     and held = "{|''a''|}" and persisted = "[\<lparr>IP = ''a'', LastSeenUnixMilli = 20, FirstSeenUnixMilli = 10\<rparr>]"
     and observed = "[\<lparr>IP = ''b'', LastSeenUnixMilli = 40, FirstSeenUnixMilli = 0\<rparr>,
      \<lparr>IP = ''c'', LastSeenUnixMilli = 41, FirstSeenUnixMilli = 0\<rparr>]"]
  by (simp add: pass_eval)

text \<open>C3 The order in which Go happens to range over the address map does not reach the verdict:
  two iteration orders give the same one.\<close>

theorem Decide_order_irrelevant:
  assumes "\<And>m. ranges_over it m" and "\<And>m. ranges_over it' m"
  shows "Decide it persisted observed limit now cutoff held = Decide it' persisted observed limit now cutoff held"
  by (simp add: Decide_def merge_order_irrelevant [OF assms])

theorem Decide_order_irrelevant_witness:
  "Decide entries_by_key [] [\<lparr>IP = ''a'', LastSeenUnixMilli = 5, FirstSeenUnixMilli = 0\<rparr>,
      \<lparr>IP = ''b'', LastSeenUnixMilli = 6, FirstSeenUnixMilli = 0\<rparr>] 1 10 0 {||} =
   Decide (rev \<circ> entries_by_key) [] [\<lparr>IP = ''a'', LastSeenUnixMilli = 5, FirstSeenUnixMilli = 0\<rparr>,
      \<lparr>IP = ''b'', LastSeenUnixMilli = 6, FirstSeenUnixMilli = 0\<rparr>] 1 10 0 {||}"
  by (rule Decide_order_irrelevant)
    (use entries_by_key_ranges in \<open>auto simp: ranges_over_def rev_map [symmetric]\<close>)

text \<open>C4 A login answers as a pass would: a device that no pass knows yet is admitted exactly
  when the pass that observes it after the others gives it a slot.\<close>

theorem Admit_agrees_with_Decide:
  assumes it: "\<And>m. ranges_over it m"
    and v: "v = Decide it persisted observed limit now cutoff held"
    and new: "IP ob \<notin> IP ` set (Keep v @ Over v @ Retain v)" "FirstSeenUnixMilli ob = 0"
    and last: "\<forall>o' \<in> set (Keep v @ Over v). arrival o' < (now, IP ob)"
  shows "Admit (map IP (Keep v @ Over v)) (IP ob) limit \<longleftrightarrow>
    IP ob \<in> IP ` set (Keep (Decide it persisted (observed @ [ob]) limit now cutoff held))"
proof -
  let ?live = "live_list it persisted observed now cutoff held"
  let ?live' = "live_list it persisted (observed @ [ob]) now cutoff held"
  let ?n = "ob\<lparr>FirstSeenUnixMilli := now\<rparr>"
  let ?K = "Keep (Decide it persisted (observed @ [ob]) limit now cutoff held)"
  have live: "Keep v @ Over v = ?live" by (simp add: v Decide_split)
  have notin: "IP ob |\<notin>| fmdom (pass_table persisted observed cutoff)"
    using new(1) unfolding Decide_IPs [OF it v] by simp
  have ins: "set ?live' = insert ?n (set ?live)" by (rule live_list_new [OF it notin new(2)])
  have n: "?n \<in> set ?live'" by (simp add: ins)
  have below: "{y \<in> set ?live'. arrival y < arrival ?n} = set ?live"
    using last unfolding ins live by (auto simp: arrival_def)
  have d: "distinct (map IP ?live)" using live_IP_distinct [OF it] by simp
  have "?n \<in> set ?K \<longleftrightarrow> limit \<le> 0 \<or> int (card (set ?live)) < limit"
    unfolding rank_below [OF it n] below ..
  moreover have "IP ob \<in> IP ` set ?K \<longleftrightarrow> ?n \<in> set ?K"
  proof
    assume "IP ob \<in> IP ` set ?K"
    then obtain x where x: "x \<in> set ?K" "IP x = IP ob" by auto
    then have "x \<in> set ?live'" unfolding Decide_split(1) [symmetric, where limit = limit] by simp
    moreover have "x \<notin> set ?live" using x(2) new(1) unfolding live [symmetric]
      by (metis Un_iff append_assoc image_eqI set_append)
    ultimately show "?n \<in> set ?K" using x(1) unfolding ins by auto
  next
    assume "?n \<in> set ?K"
    then have "IP ?n \<in> IP ` set ?K" by (rule imageI)
    then show "IP ob \<in> IP ` set ?K" by simp
  qed
  moreover have "card (set (map IP ?live)) = card (set ?live)"
    using d by (metis distinct_card distinct_map length_map)
  ultimately show ?thesis using new(1) unfolding Admit_eq live [symmetric] by auto
qed

theorem Admit_agrees_with_Decide_witness:
  "Admit [''a''] ''0'' 1 \<longleftrightarrow> ''0'' \<in> IP ` set (Keep (Decide entries_by_key []
     [\<lparr>IP = ''a'', LastSeenUnixMilli = 20, FirstSeenUnixMilli = 10\<rparr>,
      \<lparr>IP = ''0'', LastSeenUnixMilli = 41, FirstSeenUnixMilli = 0\<rparr>] 1 50 5 {||}))"
  using Admit_agrees_with_Decide [OF entries_by_key_ranges refl, where persisted = "[]" and limit = 1
      and now = 50 and cutoff = 5 and held = "{||}"
      and observed = "[\<lparr>IP = ''a'', LastSeenUnixMilli = 20, FirstSeenUnixMilli = 10\<rparr>]"
      and ob = "\<lparr>IP = ''0'', LastSeenUnixMilli = 41, FirstSeenUnixMilli = 0\<rparr>"]
  by (simp add: pass_eval)

text \<open>C5 The rate ladder is order-insensitive when no two tiers share a threshold: any
  permutation of the tiers answers alike at every usage.\<close>

theorem Evaluate_order_insensitive:
  assumes "mset (Tiers p) = mset (Tiers q)" and "distinct (map FromBytes (Tiers p))"
  shows "Evaluate p used = Evaluate q used"
proof (cases "\<exists>t \<in> set (Tiers p). FromBytes t \<le> used")
  case False
  have "set (Tiers p) = set (Tiers q)" using assms(1) by (metis set_mset_mset)
  then show ?thesis using False Evaluate_no_tier [of p used] Evaluate_no_tier [of q used]
    by (auto simp: not_le)
next
  case True
  let ?S = "{t \<in> set (Tiers p). FromBytes t \<le> used}"
  have S: "set (Tiers q) = set (Tiers p)" using assms(1) by (metis set_mset_mset)
  have fin: "finite (FromBytes ` ?S)" and ne: "FromBytes ` ?S \<noteq> {}" using True by auto
  from Max_in [OF this] obtain t where t: "t \<in> ?S" and mx: "FromBytes t = Max (FromBytes ` ?S)" by auto
  have "FromBytes s < FromBytes t" if s: "s \<in> set (Tiers p)" "FromBytes s \<le> used" "s \<noteq> t" for s
  proof -
    have "FromBytes s \<le> FromBytes t" unfolding mx using fin s by (intro Max_ge) auto
    moreover have "FromBytes s \<noteq> FromBytes t" using assms(2) s t by (auto simp: distinct_map dest: inj_onD)
    ultimately show ?thesis by simp
  qed
  then show ?thesis using t Evaluate_tier [of t p used] Evaluate_tier [of t q used] S by auto
qed

theorem Evaluate_order_insensitive_witness:
  "Evaluate \<lparr>Tiers = [\<lparr>FromBytes = 0, UpBps = 9, DownBps = 9\<rparr>, \<lparr>FromBytes = 5, UpBps = 3, DownBps = 4\<rparr>]\<rparr> 7 =
   Evaluate \<lparr>Tiers = [\<lparr>FromBytes = 5, UpBps = 3, DownBps = 4\<rparr>, \<lparr>FromBytes = 0, UpBps = 9, DownBps = 9\<rparr>]\<rparr> 7"
  by (rule Evaluate_order_insensitive) (simp_all add: add_mset_commute)



text \<open>C7 A weekly reset is seven days later. A monthly one is in the next calendar month, on
  the same day clamped to the last day of that month. The time of day is kept.\<close>

theorem NextReset_calendar:
  assumes "civil_ok t"
  shows "(case NextReset t ''weekly'' of None \<Rightarrow> False | Some r \<Rightarrow>
      civil_ok r \<and> day_number r = day_number t + 7 \<and> nod r = nod t)
    \<and> (case NextReset t ''monthly'' of None \<Rightarrow> False | Some r \<Rightarrow>
      civil_ok r \<and> year r * 12 + month r = year t * 12 + month t + 1 \<and> nod r = nod t
      \<and> day r = min (day t) (daysIn (year r) (month r)))"
proof -
  obtain y1 m1 where nm: "norm_month (year t) (month t + 1) = (y1, m1)"
    by (cases "norm_month (year t) (month t + 1)")
  have t: "1 \<le> month t" "month t \<le> 12" "1 \<le> day t" using assms by (auto simp: civil_ok_def)
  have r: "1 \<le> m1" "m1 \<le> 12" using norm_month_range [OF nm] by auto
  have idx: "y1 * 12 + m1 = year t * 12 + month t + 1"
    using nm t(1,2) by (cases "month t = 12") (auto simp: norm_month_def)
  have nodw: "nod (go_Date y m d n) = n" for y m d n by (simp add: go_Date_def split: prod.split)
  have w: "NextReset t ''weekly'' = Some (go_Date (year t) (month t) (day t + 7) (nod t))"
    by (simp add: NextReset_def AddDate_def)
  show ?thesis
    unfolding w monthly_eq [OF nm t(3)]
    using go_Date_ok go_Date_number [OF t(1,2)] r idx nodw t(3) daysIn_bounds(1) [of y1 m1]
    by (auto simp: civil_ok_def day_number_def)
qed

theorem NextReset_calendar_witness:
  "NextReset \<lparr>year = 2024, month = 1, day = 31, nod = 5\<rparr> ''monthly'' \<noteq> None
   \<and> civil_ok \<lparr>year = 2024, month = 1, day = 31, nod = 5\<rparr>"
  using NextReset_calendar [of "\<lparr>year = 2024, month = 1, day = 31, nod = 5\<rparr>"]
  by (auto simp: civil_ok_def daysIn_def split: option.splits)

end
