(* ===== verification/Counter.thy ===== *)
theory Counter
  imports Prelude
begin

text \<open>
  \<open>internal/core/counter.go\<close> and \<open>counter_checkpoint.go\<close>: cumulative readings of a
  traffic source turned into the deltas that are billed, and the durable form of that state.
  Readings are non-negative when they are used and a baseline never exceeds the reading it is
  subtracted from, so the \<open>int64\<close> values are \<open>int\<close>. \<open>it\<close> is the order in which Go ranges
  over a map. The mutex makes each operation one step.
\<close>

section \<open>The counter\<close>

type_synonym readings = "(string, int) fmap"
type_synonym map_order = "readings \<Rightarrow> (string \<times> int) list"

definition baselineGrace :: int where
  [go_defs]: "baselineGrace = 10"

record Counter =
  ctr_last :: readings
  ctr_absent :: readings
  ctr_epoch :: string
  ctr_primed :: bool

definition NewCounter :: Counter where
  "NewCounter = \<lparr>ctr_last = fmempty, ctr_absent = fmempty, ctr_epoch = '''', ctr_primed = False\<rparr>"

text \<open>The loop of \<open>observe\<close> over the readings, over \<open>c.last\<close> and \<open>deltas\<close>.\<close>

fun observe_loop :: "bool \<Rightarrow> (string \<times> int) list \<Rightarrow> readings \<Rightarrow> readings \<Rightarrow> readings \<times> readings" where
  "observe_loop primed [] lasts deltas = (lasts, deltas)"
| "observe_loop primed ((key, value) # rest) lasts deltas =
     (if value < 0 then observe_loop primed rest lasts deltas
      else if \<not> primed then observe_loop primed rest (fmupd key value lasts) deltas
      else let baseline = (case fmlookup lasts key of
                             None \<Rightarrow> 0
                           | Some b \<Rightarrow> if value < b then 0 else b);
               d = value - baseline
           in observe_loop primed rest (fmupd key value lasts)
                (if d > 0 then fmupd key d deltas else deltas))"

text \<open>The loop of \<open>expire\<close> over the keys of \<open>c.last\<close>, over \<open>c.last\<close> and \<open>c.absent\<close>.\<close>

fun expire_loop :: "readings \<Rightarrow> string list \<Rightarrow> readings \<Rightarrow> readings \<Rightarrow> readings \<times> readings" where
  "expire_loop readings [] lasts absent = (lasts, absent)"
| "expire_loop readings (key # keys) lasts absent =
     (if fmlookup readings key \<noteq> None then expire_loop readings keys lasts (fmdrop key absent)
      else let missing = (case fmlookup absent key of None \<Rightarrow> 0 | Some n \<Rightarrow> n) + 1
           in if missing \<ge> baselineGrace
              then expire_loop readings keys (fmdrop key lasts) (fmdrop key absent)
              else expire_loop readings keys lasts (fmupd key missing absent))"

definition expire :: "map_order \<Rightarrow> readings \<Rightarrow> Counter \<Rightarrow> Counter" where
  "expire it readings c =
     (if readings = fmempty then c
      else case expire_loop readings (map fst (it (ctr_last c))) (ctr_last c) (ctr_absent c) of
          (lasts, absent) \<Rightarrow> c\<lparr>ctr_last := lasts, ctr_absent := absent\<rparr>)"

definition restarted :: "string \<Rightarrow> Counter \<Rightarrow> bool" where
  "restarted epoch c \<longleftrightarrow> ctr_primed c \<and> epoch \<noteq> '''' \<and> ctr_epoch c \<noteq> '''' \<and> epoch \<noteq> ctr_epoch c"

definition observe :: "map_order \<Rightarrow> string \<Rightarrow> readings \<Rightarrow> Counter \<Rightarrow> Counter \<times> readings" where
  "observe it epoch readings c =
     (let c1 = (if restarted epoch c then c\<lparr>ctr_last := fmempty, ctr_absent := fmempty\<rparr> else c);
          c2 = (if epoch \<noteq> '''' then c1\<lparr>ctr_epoch := epoch\<rparr> else c1);
          (lasts, deltas) = observe_loop (ctr_primed c2) (it readings) (ctr_last c2) fmempty;
          c3 = c2\<lparr>ctr_last := lasts\<rparr>
      in if \<not> ctr_primed c3 then (c3\<lparr>ctr_primed := True\<rparr>, fmempty)
         else (expire it readings c3, deltas))"

definition Tracked :: "Counter \<Rightarrow> nat" where
  "Tracked c = fcard (fmdom (ctr_last c))"

definition NoteSourceRestart :: "Counter \<Rightarrow> Counter" where
  "NoteSourceRestart c = c\<lparr>ctr_last := fmempty, ctr_absent := fmempty\<rparr>"

definition Forget :: "string \<Rightarrow> Counter \<Rightarrow> Counter" where
  "Forget key c = c\<lparr>ctr_last := fmdrop key (ctr_last c), ctr_absent := fmdrop key (ctr_absent c)\<rparr>"

section \<open>Checkpoints\<close>

record CounterCheckpoint =
  cp_Epoch :: string
  cp_Primed :: bool
  cp_Last :: readings
  cp_Absent :: readings

definition valid_baseline :: "string \<Rightarrow> int \<Rightarrow> bool" where
  "valid_baseline key value \<longleftrightarrow> key \<noteq> '''' \<and> length key \<le> 1024 \<and> 0 \<le> value"

definition valid_absence :: "readings \<Rightarrow> string \<Rightarrow> int \<Rightarrow> bool" where
  "valid_absence lasts key missing \<longleftrightarrow>
     fmlookup lasts key \<noteq> None \<and> 1 \<le> missing \<and> missing < baselineGrace"

definition CounterFromCheckpoint :: "CounterCheckpoint \<Rightarrow> Counter result" where
  "CounterFromCheckpoint cp =
     (if length (cp_Epoch cp) > 1024
         \<or> \<not> cp_Primed cp \<and> (cp_Last cp \<noteq> fmempty \<or> cp_Absent cp \<noteq> fmempty)
      then Inl ErrCounterCheckpoint
      else if \<not> fmpred valid_baseline (cp_Last cp) then Inl ErrCounterCheckpoint
      else if \<not> fmpred (valid_absence (cp_Last cp)) (cp_Absent cp) then Inl ErrCounterCheckpoint
      else Inr (NewCounter\<lparr>ctr_epoch := cp_Epoch cp, ctr_primed := cp_Primed cp,
             ctr_last := fmempty ++\<^sub>f cp_Last cp, ctr_absent := fmempty ++\<^sub>f cp_Absent cp\<rparr>))"

definition checkpoint :: "Counter \<Rightarrow> CounterCheckpoint" where
  "checkpoint c = \<lparr>cp_Epoch = ctr_epoch c, cp_Primed = ctr_primed c,
     cp_Last = ctr_last c, cp_Absent = ctr_absent c\<rparr>"

text \<open>
  \<open>commit\<close> is the caller's function (\<open>None\<close> for nil); \<open>'s\<close> is the state it changes. It
  returns the error, if any, and the state it leaves.
\<close>

type_synonym 's commit = "CounterCheckpoint \<Rightarrow> CounterCheckpoint \<Rightarrow> readings \<Rightarrow> 's \<Rightarrow> error option \<times> 's"

definition ObserveDurably :: "map_order \<Rightarrow> 's commit option \<Rightarrow> string \<Rightarrow> readings \<Rightarrow> Counter \<Rightarrow> 's \<Rightarrow>
    readings result \<times> Counter \<times> 's" where
  "ObserveDurably it commit epoch readings c s =
     (case commit of
        None \<Rightarrow> (Inl ErrCounterCheckpoint, c, s)
      | Some f \<Rightarrow>
          let previous = checkpoint c
          in case CounterFromCheckpoint previous of
               Inl err \<Rightarrow> (Inl err, c, s)
             | Inr next0 \<Rightarrow>
                 (case observe it epoch readings next0 of (next, deltas) \<Rightarrow>
                    (case f previous (checkpoint next) deltas s of
                       (Some err, s') \<Rightarrow> (Inl err, c, s')
                     | (None, s') \<Rightarrow>
                         (Inr deltas,
                          c\<lparr>ctr_last := ctr_last next, ctr_absent := ctr_absent next,
                            ctr_epoch := ctr_epoch next, ctr_primed := ctr_primed next\<rparr>, s'))))"

section \<open>Statements\<close>

definition counter_ok :: "Counter \<Rightarrow> bool" where
  "counter_ok c \<longleftrightarrow> length (ctr_epoch c) \<le> 1024
     \<and> (ctr_primed c \<or> ctr_last c = fmempty \<and> ctr_absent c = fmempty)
     \<and> fmpred valid_baseline (ctr_last c) \<and> fmpred (valid_absence (ctr_last c)) (ctr_absent c)"

text \<open>What one key is billed for by a reading: a reference for the loop.\<close>

definition owed :: "int option \<Rightarrow> int \<Rightarrow> int" where
  "owed baseline value =
     (case baseline of None \<Rightarrow> value | Some b \<Rightarrow> if value < b then value else value - b)"

definition billed :: "readings \<Rightarrow> string \<Rightarrow> int" where
  "billed deltas key = (case fmlookup deltas key of None \<Rightarrow> 0 | Some d \<Rightarrow> d)"

text \<open>The baselines an observation starts from.\<close>

definition before :: "string \<Rightarrow> Counter \<Rightarrow> Counter" where
  "before epoch c = (if restarted epoch c then NoteSourceRestart c else c)"

text \<open>How long a key left out of one more reading has been missing.\<close>

definition missing_after :: "readings \<Rightarrow> string \<Rightarrow> int" where
  "missing_after absent k = (case fmlookup absent k of None \<Rightarrow> 0 | Some n \<Rightarrow> n) + 1"

text \<open>
  One subject of a source, seen next to the counter: the source's own epoch and cumulative
  count of the subject, all the traffic the subject ever had and all that was billed for it.
\<close>

record Meter =
  m_ctr :: Counter
  m_epoch :: string
  m_cur :: int
  m_total :: int
  m_billed :: int

definition meter_start :: "string \<Rightarrow> Meter" where
  "meter_start e = \<lparr>m_ctr = NewCounter, m_epoch = e, m_cur = 0, m_total = 0, m_billed = 0\<rparr>"

text \<open>
  The subject moves bytes; the source restarts from zero, noticed by its epoch or told by
  the panel; the subject is removed and forgotten; the counter reads the source, which
  reports the subject's count or leaves it out for fewer than \<open>baselineGrace\<close> readings
  running; the counter is rebuilt from its checkpoint.
\<close>

inductive meter_step :: "map_order \<Rightarrow> string \<Rightarrow> Meter \<Rightarrow> Meter \<Rightarrow> bool" for it k where
  traffic: "0 \<le> n \<Longrightarrow> meter_step it k m (m\<lparr>m_cur := m_cur m + n, m_total := m_total m + n\<rparr>)"
| restart: "(e = '''') = (m_epoch m = '''') \<Longrightarrow> meter_step it k m (m\<lparr>m_epoch := e, m_cur := 0\<rparr>)"
| noted_restart: "(e = '''') = (m_epoch m = '''') \<Longrightarrow>
    meter_step it k m (m\<lparr>m_ctr := NoteSourceRestart (m_ctr m), m_epoch := e, m_cur := 0\<rparr>)"
| removed: "meter_step it k m (m\<lparr>m_ctr := Forget k (m_ctr m), m_cur := 0\<rparr>)"
| other_removed: "key \<noteq> k \<Longrightarrow> meter_step it k m (m\<lparr>m_ctr := Forget key (m_ctr m)\<rparr>)"
| read: "observe it (m_epoch m) r (m_ctr m) = (c, deltas) \<Longrightarrow>
    fmlookup r k = Some (m_cur m) \<or>
    fmlookup r k = None \<and> missing_after (ctr_absent (m_ctr m)) k < baselineGrace \<Longrightarrow>
    meter_step it k m (m\<lparr>m_ctr := c, m_billed := m_billed m + billed deltas k\<rparr>)"
| reload: "CounterFromCheckpoint (checkpoint (m_ctr m)) = Inr c \<Longrightarrow> meter_step it k m (m\<lparr>m_ctr := c\<rparr>)"

definition meter_inv :: "string \<Rightarrow> Meter \<Rightarrow> bool" where
  "meter_inv k m \<longleftrightarrow> 0 \<le> m_cur m \<and> 0 \<le> m_billed m
     \<and> (ctr_epoch (m_ctr m) = '''' \<or> m_epoch m \<noteq> '''')
     \<and> pred_option (\<lambda>b. 0 \<le> b) (fmlookup (ctr_last (m_ctr m)) k)
     \<and> m_billed m + (if ctr_epoch (m_ctr m) = m_epoch m
          then owed (fmlookup (ctr_last (m_ctr m)) k) (m_cur m) else m_cur m) \<le> m_total m"

text \<open>Consecutive readings under one epoch, and what they bill one key in all.\<close>

fun observe_all :: "map_order \<Rightarrow> string \<Rightarrow> readings list \<Rightarrow> string \<Rightarrow> Counter \<Rightarrow> Counter \<times> int" where
  "observe_all it epoch [] k c = (c, 0)"
| "observe_all it epoch (r # rs) k c =
     (case observe it epoch r c of (c', deltas) \<Rightarrow>
      case observe_all it epoch rs k c' of (c'', rest) \<Rightarrow> (c'', billed deltas k + rest))"

section \<open>The loops, key by key\<close>

lemma observe_loop_last:
  "distinct (map fst es) \<Longrightarrow> fmlookup (fst (observe_loop primed es lasts deltas)) k =
     (case map_of es k of None \<Rightarrow> fmlookup lasts k
      | Some v \<Rightarrow> if v < 0 then fmlookup lasts k else Some v)"
proof (induction es arbitrary: lasts deltas)
  case (Cons e es)
  obtain key v where e: "e = (key, v)" by (cases e)
  have none: "map_of es key = None" using Cons.prems e by (simp add: map_of_eq_None_iff)
  show ?case
    using Cons none
    by (cases "k = key"; cases primed; cases "map_of es k") (simp_all add: e Let_def)
qed simp

lemma observe_loop_unprimed: "snd (observe_loop False es lasts deltas) = deltas"
  by (induction es arbitrary: lasts) auto

lemma observe_loop_deltas:
  "distinct (map fst es) \<Longrightarrow> fmlookup (snd (observe_loop True es lasts deltas)) k =
     (case map_of es k of None \<Rightarrow> fmlookup deltas k
      | Some v \<Rightarrow> if v < 0 \<or> owed (fmlookup lasts k) v \<le> 0 then fmlookup deltas k
                  else Some (owed (fmlookup lasts k) v))"
proof (induction es arbitrary: lasts deltas)
  case (Cons e es)
  obtain key v where e: "e = (key, v)" by (cases e)
  have none: "map_of es key = None" using Cons.prems e by (simp add: map_of_eq_None_iff)
  show ?case
  proof (cases "k = key")
    case True
    with Cons none show ?thesis
      by (cases "fmlookup lasts key") (simp_all add: e Let_def owed_def)
  next
    case False
    with Cons show ?thesis by (cases "map_of es k") (simp_all add: e Let_def)
  qed
qed simp

lemma expire_loop_lookup:
  "distinct keys \<Longrightarrow>
   fmlookup (fst (expire_loop r keys lasts absent)) k =
     (if k \<in> set keys \<and> fmlookup r k = None \<and> baselineGrace \<le> missing_after absent k
      then None else fmlookup lasts k) \<and>
   fmlookup (snd (expire_loop r keys lasts absent)) k =
     (if k \<in> set keys
      then if fmlookup r k \<noteq> None \<or> baselineGrace \<le> missing_after absent k then None
           else Some (missing_after absent k)
      else fmlookup absent k)"
proof (induction keys arbitrary: lasts absent)
  case (Cons key keys)
  show ?case
  proof (cases "k = key")
    case True
    with Cons show ?thesis by (simp add: Let_def missing_after_def del: not_None_eq)
  next
    case False
    with Cons show ?thesis by (simp add: Let_def missing_after_def del: not_None_eq)
  qed
qed simp

section \<open>One observation\<close>

lemma owed_nonneg: "0 \<le> v \<Longrightarrow> 0 \<le> owed b v"
  by (auto simp: owed_def split: option.splits)

lemma owed_le: "pred_option (\<lambda>b. 0 \<le> b) b \<Longrightarrow> owed b v \<le> v"
  by (cases b) (auto simp: owed_def)

lemma owed_add: "pred_option (\<lambda>b. 0 \<le> b) b \<Longrightarrow> 0 \<le> n \<Longrightarrow> owed b (v + n) \<le> owed b v + n"
  by (cases b) (auto simp: owed_def)

lemma owed_zero: "pred_option (\<lambda>b. 0 \<le> b) b \<Longrightarrow> owed b 0 = 0"
  by (cases b) (auto simp: owed_def)

lemma before_primed [simp]: "ctr_primed (before epoch c) = ctr_primed c"
  by (simp add: before_def NoteSourceRestart_def)

lemma observe_eq:
  "observe it epoch r c =
     (case observe_loop (ctr_primed c) (it r) (ctr_last (before epoch c)) fmempty of (lasts, deltas) \<Rightarrow>
        let c' = (before epoch c)\<lparr>ctr_epoch := if epoch = '''' then ctr_epoch c else epoch, ctr_last := lasts\<rparr>
        in if \<not> ctr_primed c then (c'\<lparr>ctr_primed := True\<rparr>, fmempty) else (expire it r c', deltas))"
  by (auto simp: observe_def before_def NoteSourceRestart_def Let_def split: prod.split)

lemma expire_fields:
  "ctr_epoch (expire it r c) = ctr_epoch c" "ctr_primed (expire it r c) = ctr_primed c"
  by (auto simp: expire_def split: prod.split)

lemma expire_lookup:
  assumes "\<And>m. ranges_over it m"
  shows "fmlookup (ctr_last (expire it r c)) k =
      (if r \<noteq> fmempty \<and> fmlookup r k = None \<and> baselineGrace \<le> missing_after (ctr_absent c) k
       then None else fmlookup (ctr_last c) k)"
    and "fmlookup (ctr_absent (expire it r c)) k =
      (if r \<noteq> fmempty \<and> fmlookup (ctr_last c) k \<noteq> None
       then if fmlookup r k \<noteq> None \<or> baselineGrace \<le> missing_after (ctr_absent c) k then None
            else Some (missing_after (ctr_absent c) k)
       else fmlookup (ctr_absent c) k)"
proof -
  let ?keys = "map fst (it (ctr_last c))"
  have d: "distinct ?keys" using assms by (simp add: ranges_over_def)
  have mem: "k \<in> set ?keys \<longleftrightarrow> fmlookup (ctr_last c) k \<noteq> None"
    unfolding ranges_over_keys [OF assms] by (simp add: fmlookup_dom_iff)
  note look = expire_loop_lookup [OF d, of r "ctr_last c" "ctr_absent c" k, unfolded mem]
  show "fmlookup (ctr_last (expire it r c)) k =
      (if r \<noteq> fmempty \<and> fmlookup r k = None \<and> baselineGrace \<le> missing_after (ctr_absent c) k
       then None else fmlookup (ctr_last c) k)"
    using look by (auto simp: expire_def case_prod_beta)
  show "fmlookup (ctr_absent (expire it r c)) k =
      (if r \<noteq> fmempty \<and> fmlookup (ctr_last c) k \<noteq> None
       then if fmlookup r k \<noteq> None \<or> baselineGrace \<le> missing_after (ctr_absent c) k then None
            else Some (missing_after (ctr_absent c) k)
       else fmlookup (ctr_absent c) k)"
    using look by (simp add: expire_def case_prod_beta del: not_None_eq)
qed

lemma observe_fields:
  "ctr_primed (fst (observe it epoch r c))"
  "ctr_epoch (fst (observe it epoch r c)) = (if epoch = '''' then ctr_epoch c else epoch)"
  by (auto simp: observe_eq expire_fields Let_def split: prod.split)

lemma observe_billed:
  assumes "\<And>m. ranges_over it m"
  shows "billed (snd (observe it epoch r c)) k =
    (if \<not> ctr_primed c then 0 else case fmlookup r k of
        None \<Rightarrow> 0 | Some v \<Rightarrow> if v < 0 then 0 else owed (fmlookup (ctr_last (before epoch c)) k) v)"
proof (cases "ctr_primed c")
  case True
  have d: "distinct (map fst (it r))" using assms by (simp add: ranges_over_def)
  let ?l = "ctr_last (before epoch c)"
  have "snd (observe it epoch r c) = snd (observe_loop True (it r) ?l fmempty)"
    using True by (simp add: observe_eq Let_def split: prod.split)
  then show ?thesis
    using True owed_nonneg [of _ "fmlookup ?l k"]
    by (cases "fmlookup r k") (auto simp: billed_def observe_loop_deltas [OF d] ranges_over_map_of [OF assms] antisym)
qed (simp add: observe_eq Let_def billed_def split: prod.split)

lemma observe_last:
  assumes "\<And>m. ranges_over it m"
  shows "fmlookup (ctr_last (fst (observe it epoch r c))) k =
    (case fmlookup r k of
       None \<Rightarrow> if ctr_primed c \<and> r \<noteq> fmempty \<and> baselineGrace \<le> missing_after (ctr_absent (before epoch c)) k
              then None else fmlookup (ctr_last (before epoch c)) k
     | Some v \<Rightarrow> if v < 0 then fmlookup (ctr_last (before epoch c)) k else Some v)"
proof -
  have d: "distinct (map fst (it r))" using assms by (simp add: ranges_over_def)
  show ?thesis
    by (cases "ctr_primed c"; cases "fmlookup r k")
      (simp_all add: observe_eq Let_def case_prod_beta expire_lookup(1) [OF assms]
        ranges_over_empty [OF assms] observe_loop_last [OF d] ranges_over_map_of [OF assms])
qed

lemma observe_absent:
  assumes "\<And>m. ranges_over it m"
  shows "fmlookup (ctr_absent (fst (observe it epoch r c))) k =
    (if ctr_primed c \<and> r \<noteq> fmempty \<and>
        (fmlookup (ctr_last (before epoch c)) k \<noteq> None \<or> (\<exists>v \<ge> 0. fmlookup r k = Some v))
     then if fmlookup r k \<noteq> None \<or> baselineGrace \<le> missing_after (ctr_absent (before epoch c)) k then None
          else Some (missing_after (ctr_absent (before epoch c)) k)
     else fmlookup (ctr_absent (before epoch c)) k)"
proof -
  have d: "distinct (map fst (it r))" using assms by (simp add: ranges_over_def)
  show ?thesis
    by (cases "ctr_primed c"; cases "fmlookup r k")
      (auto simp: observe_eq Let_def case_prod_beta expire_lookup(2) [OF assms]
        observe_loop_last [OF d] ranges_over_map_of [OF assms])
qed

section \<open>Invariants\<close>

lemma counter_ok_round_trip: "CounterFromCheckpoint (checkpoint c) = (if counter_ok c then Inr c else Inl ErrCounterCheckpoint)"
  by (cases c) (auto simp: CounterFromCheckpoint_def checkpoint_def counter_ok_def NewCounter_def)

lemma counter_ok_before: "counter_ok c \<Longrightarrow> counter_ok (before epoch c)"
  by (auto simp: counter_ok_def before_def NoteSourceRestart_def restarted_def)

lemma counter_ok_simple:
  "counter_ok NewCounter"
  "counter_ok c \<Longrightarrow> counter_ok (NoteSourceRestart c)"
  "counter_ok c \<Longrightarrow> counter_ok (Forget key c)"
  by (auto simp: counter_ok_def NewCounter_def NoteSourceRestart_def Forget_def valid_absence_def
      intro!: fmpredI dest: fmpredD split: if_splits)

lemma counter_ok_observe:
  assumes it: "\<And>m. ranges_over it m" and ok: "counter_ok c"
    and e: "length epoch \<le> 1024" and keys: "\<forall>k v. fmlookup r k = Some v \<longrightarrow> k \<noteq> '''' \<and> length k \<le> 1024"
  shows "counter_ok (fst (observe it epoch r c))"
proof -
  have b: "counter_ok (before epoch c)" by (rule counter_ok_before [OF ok])
  have last: "valid_baseline k v" if "fmlookup (ctr_last (fst (observe it epoch r c))) k = Some v" for k v
    using that b keys
    by (auto simp: observe_last [OF it] counter_ok_def valid_baseline_def split: option.splits if_splits dest: fmpredD)
  have absent: "valid_absence (ctr_last (fst (observe it epoch r c))) k n"
    if "fmlookup (ctr_absent (fst (observe it epoch r c))) k = Some n" for k n
  proof -
    have old: "valid_absence (ctr_last (before epoch c)) k n'"
      if "fmlookup (ctr_absent (before epoch c)) k = Some n'" for n'
      using that b by (auto simp: counter_ok_def dest: fmpredD)
    show ?thesis
      using that old
      by (cases "fmlookup r k"; cases "ctr_primed c"; cases "r = fmempty"; cases "fmlookup (ctr_absent (before epoch c)) k")
        (force simp: observe_absent [OF it] observe_last [OF it] valid_absence_def missing_after_def
          baselineGrace_def split: if_splits)+
  qed
  show ?thesis
    using b e last absent observe_fields [of it epoch r c]
    by (auto simp: counter_ok_def before_def NoteSourceRestart_def intro!: fmpredI split: if_splits)
qed

lemma meter_inv_start: "meter_inv k (meter_start e)"
  by (auto simp: meter_inv_def meter_start_def NewCounter_def owed_def)

lemma meter_inv_read:
  assumes it: "\<And>m. ranges_over it m" and inv: "meter_inv k m"
    and r: "fmlookup r k = Some (m_cur m) \<or>
      fmlookup r k = None \<and> missing_after (ctr_absent (m_ctr m)) k < baselineGrace"
  shows "meter_inv k (m\<lparr>m_ctr := fst (observe it (m_epoch m) r (m_ctr m)),
    m_billed := m_billed m + billed (snd (observe it (m_epoch m) r (m_ctr m))) k\<rparr>)"
proof -
  let ?c = "m_ctr m" and ?b = "before (m_epoch m) (m_ctr m)"
  let ?o = "observe it (m_epoch m) r ?c"
  have cur: "0 \<le> m_cur m" using inv by (simp add: meter_inv_def)
  have base: "pred_option (\<lambda>b. 0 \<le> b) (fmlookup (ctr_last ?b) k)"
    using inv by (auto simp: meter_inv_def before_def NoteSourceRestart_def)
  have epoch: "ctr_epoch (fst ?o) = m_epoch m"
    using inv observe_fields(2) [of it "m_epoch m" r ?c] by (auto simp: meter_inv_def)
  have pend: "m_billed m + owed (fmlookup (ctr_last ?b) k) (m_cur m) \<le> m_total m"
    using inv owed_le [of "fmlookup (ctr_last ?c) k" "m_cur m"]
    by (auto simp: meter_inv_def before_def NoteSourceRestart_def restarted_def owed_def [of None] split: if_splits)
  have le: "m_billed m \<le> m_total m" using pend owed_nonneg [OF cur] by (smt (verit))
  have keep: "missing_after (ctr_absent ?b) k < baselineGrace" if "fmlookup r k = None"
    using r that by (auto simp: before_def NoteSourceRestart_def missing_after_def baselineGrace_def)
  consider (present) "fmlookup r k = Some (m_cur m)" | (absent) "fmlookup r k = None" using r by auto
  then show ?thesis
  proof cases
    case present
    then show ?thesis
      using cur pend le inv owed_nonneg [OF cur, of "fmlookup (ctr_last ?b) k"]
      by (simp add: meter_inv_def epoch observe_last [OF it] observe_billed [OF it] owed_def [of "Some _"])
  next
    case absent
    then show ?thesis
      using cur pend base inv keep
      by (simp add: meter_inv_def epoch observe_last [OF it] observe_billed [OF it])
  qed
qed

lemma meter_inv_billed: "meter_inv k m \<Longrightarrow> m_billed m \<le> m_total m"
  using owed_nonneg [of "m_cur m" "fmlookup (ctr_last (m_ctr m)) k"]
  by (auto simp: meter_inv_def split: if_splits)

lemma meter_inv_step:
  assumes it: "\<And>m. ranges_over it m" and "meter_step it k m m'" and inv: "meter_inv k m"
  shows "meter_inv k m'"
  using assms(2)
proof cases
  case (traffic n)
  then show ?thesis
    using inv owed_add [of "fmlookup (ctr_last (m_ctr m)) k" n "m_cur m"]
    by (auto simp: meter_inv_def split: if_splits)
next
  case (restart e)
  with inv meter_inv_billed [OF inv] show ?thesis by (auto simp: meter_inv_def owed_zero)
next
  case (noted_restart e)
  with inv meter_inv_billed [OF inv] show ?thesis
    by (auto simp: meter_inv_def owed_zero NoteSourceRestart_def)
next
  case removed
  with inv meter_inv_billed [OF inv] show ?thesis by (auto simp: meter_inv_def owed_zero Forget_def)
next
  case (other_removed key)
  with inv show ?thesis by (auto simp: meter_inv_def Forget_def)
next
  case (read r c deltas)
  with meter_inv_read [OF it inv, of r] show ?thesis by simp
next
  case (reload c)
  with inv show ?thesis by (auto simp: counter_ok_round_trip split: if_splits)
qed

lemma observe_all_telescopes:
  assumes it: "\<And>m. ranges_over it m"
  shows "ctr_primed c \<Longrightarrow> ctr_epoch c = epoch \<Longrightarrow> fmlookup (ctr_last c) k = Some b \<Longrightarrow> 0 \<le> b \<Longrightarrow>
    \<forall>r \<in> set rs. fmlookup r k \<noteq> None \<Longrightarrow> sorted (b # map (\<lambda>r. the (fmlookup r k)) rs) \<Longrightarrow>
    snd (observe_all it epoch rs k c) = List.last (b # map (\<lambda>r. the (fmlookup r k)) rs) - b"
proof (induction rs arbitrary: c b)
  case (Cons r rs)
  let ?o = "observe it epoch r c"
  obtain v where v: "fmlookup r k = Some v" "b \<le> v" using Cons.prems(5,6) by force
  have b: "before epoch c = c" using Cons.prems(2) by (simp add: before_def restarted_def)
  have "fmlookup (ctr_last (fst ?o)) k = Some v" "billed (snd ?o) k = v - b"
    using v Cons.prems(1,3,4)
    by (simp_all add: observe_last [OF it] observe_billed [OF it] b owed_def)
  moreover have "snd (observe_all it epoch rs k (fst ?o)) = List.last (v # map (\<lambda>r. the (fmlookup r k)) rs) - v"
    using Cons.prems(2,4,5,6) v observe_fields [of it epoch r c] calculation(1)
    by (intro Cons.IH) auto
  ultimately show ?case by (simp add: case_prod_beta v)
qed simp

section \<open>Properties\<close>



text \<open>C9 Billing loses nothing in steady operation: over consecutive readings of one epoch in
  which a subject's count never falls, the deltas add up to exactly the last reading less the
  baseline it started from.\<close>

theorem observe_telescopes:
  assumes "\<And>m. ranges_over it m" and "ctr_primed c" and "ctr_epoch c = epoch"
    and "fmlookup (ctr_last c) k = Some b" and "0 \<le> b" and "\<forall>r \<in> set rs. fmlookup r k \<noteq> None"
    and "sorted (b # map (\<lambda>r. the (fmlookup r k)) rs)"
  shows "snd (observe_all it epoch rs k c) = List.last (b # map (\<lambda>r. the (fmlookup r k)) rs) - b"
  using assms by (intro observe_all_telescopes)

theorem observe_telescopes_witness:
  "snd (observe_all entries_by_key ''e'' [fmupd ''a'' 7 fmempty, fmupd ''a'' 9 fmempty] ''a''
     \<lparr>ctr_last = fmupd ''a'' 4 fmempty, ctr_absent = fmempty, ctr_epoch = ''e'', ctr_primed = True\<rparr>) = 5"
  using observe_telescopes [OF entries_by_key_ranges, where epoch = "''e''" and k = "''a''" and b = 4
      and rs = "[fmupd ''a'' 7 fmempty, fmupd ''a'' 9 fmempty]"
      and c = "\<lparr>ctr_last = fmupd ''a'' 4 fmempty, ctr_absent = fmempty, ctr_epoch = ''e'', ctr_primed = True\<rparr>"]
  by simp



text \<open>C11 A durable observation is all or nothing: it is the plain observation when the commit
  succeeds, and when the commit fails the error is returned and the counter is as it was.\<close>

theorem ObserveDurably_atomic:
  assumes "counter_ok c" and "observe it epoch r c = (c', deltas)"
  shows "ObserveDurably it (Some f) epoch r c s =
    (case f (checkpoint c) (checkpoint c') deltas s of
       (None, s') \<Rightarrow> (Inr deltas, c', s')
     | (Some err, s') \<Rightarrow> (Inl err, c, s'))"
  using assms by (cases c') (simp add: ObserveDurably_def Let_def counter_ok_round_trip split: option.split prod.split)

theorem ObserveDurably_atomic_witness:
  "ObserveDurably entries_by_key (Some (\<lambda>_ _ _ n. (None, n + 1))) ''e'' fmempty NewCounter (0 :: nat)
     = (Inr fmempty, NewCounter\<lparr>ctr_epoch := ''e'', ctr_primed := True\<rparr>, 1)"
  using ObserveDurably_atomic [OF counter_ok_simple(1), of entries_by_key "''e''" fmempty
      "NewCounter\<lparr>ctr_epoch := ''e'', ctr_primed := True\<rparr>" fmempty "\<lambda>_ _ _ n. (None, n + 1)" "0 :: nat"]
  by (simp add: observe_eq NewCounter_def before_def restarted_def Let_def
      ranges_over_empty [OF entries_by_key_ranges])

text \<open>
  An observation without an epoch, between a restart of the source and the first reading of
  its new epoch, bills the bytes since the restart twice: the source moved 60 bytes after its
  restart and is billed 110.
\<close>

lemma empty_epoch_after_restart_double_bills:
  assumes "c = \<lparr>ctr_last = fmupd ''a'' 100 fmempty, ctr_absent = fmempty, ctr_epoch = ''e1'', ctr_primed = True\<rparr>"
    and "c1 = fst (observe entries_by_key '''' (fmupd ''a'' 50 fmempty) c)"
  shows "billed (snd (observe entries_by_key '''' (fmupd ''a'' 50 fmempty) c)) ''a'' = 50
    \<and> billed (snd (observe entries_by_key ''e2'' (fmupd ''a'' 60 fmempty) c1)) ''a'' = 60"
  by (simp add: assms observe_billed [OF entries_by_key_ranges] observe_fields before_def restarted_def
      NoteSourceRestart_def owed_def)

end
