(* ===== verification/TrustedTime.thy ===== *)
theory TrustedTime
  imports Prelude
begin

text \<open>
  \<open>internal/node/trustedtime/clock.go\<close>: wall-clock time a node may rely on, taken from stamps
  of the authenticated master and carried forward by the boot's monotonic clock. The monotonic
  source is read once by each operation; the reading is its argument \<open>src\<close>. The storage is a
  pair of operations on a state \<open>'s\<close>. \<open>google/uuid\<close> is the argument \<open>u\<close>. \<open>encoding/json\<close>
  is the pair of a constructor and its inverse: stored bytes are empty, or the encoding of an
  anchor, or do not decode. A time is the number of its milliseconds.
\<close>

section \<open>The clock\<close>

record Instant =
  Boot :: string
  Nano :: int

record anchor =
  a_Version :: "32 word"
  a_Boot :: string
  a_Nano :: int
  a_UnixMilli :: int

datatype clock_data = NoData | Undecodable | Encoded anchor

record Clock =
  clk_saved :: "anchor option"
  clk_request :: "anchor option"
  clk_nonce :: string
  clk_started :: Instant

definition Millisecond :: int where
  [go_defs]: "Millisecond = 1000000"

definition MaxRoundTrip :: int where
  [go_defs]: "MaxRoundTrip = 5000000000"

definition validBoot :: "'u uuid_lib \<Rightarrow> string \<Rightarrow> bool" where
  "validBoot u val = (case uuid_Parse u val of
      None \<Rightarrow> False
    | Some i \<Rightarrow> i \<noteq> uuid_Nil u \<and> uuid_String u i = val)"

definition New_clock :: "'u uuid_lib \<Rightarrow> ('s \<Rightarrow> clock_data result) \<Rightarrow> 's \<Rightarrow> Clock result" where
  "New_clock u ReadClock s =
     (let c = \<lparr>clk_saved = None, clk_request = None, clk_nonce = '''', clk_started = \<lparr>Boot = '''', Nano = 0\<rparr>\<rparr>
      in case ReadClock s of
           Inl err \<Rightarrow> Inl err
         | Inr NoData \<Rightarrow> Inr c
         | Inr Undecodable \<Rightarrow> Inl ErrUntrusted
         | Inr (Encoded saved) \<Rightarrow>
             if a_Version saved \<noteq> 1 \<or> \<not> validBoot u (a_Boot saved) \<or> a_Nano saved < 0 \<or> a_UnixMilli saved \<le> 0
             then Inl ErrUntrusted else Inr (c\<lparr>clk_saved := Some saved\<rparr>))"

definition now :: "Instant \<Rightarrow> anchor option \<Rightarrow> int result" where
  "now at opt = (case opt of
      None \<Rightarrow> Inl ErrUntrusted
    | Some saved \<Rightarrow>
        if Boot at \<noteq> a_Boot saved \<or> Nano at < a_Nano saved \<or> a_UnixMilli saved \<le> 0 then Inl ErrUntrusted
        else let diff = i64 (Nano at - a_Nano saved);
                 elapsed = (if go_rem diff Millisecond \<noteq> 0 then i64 (go_quot diff Millisecond + 1)
                            else go_quot diff Millisecond)
             in if a_UnixMilli saved > i64 (maxInt64 - elapsed) then Inl ErrUntrusted
                else Inr (i64 (a_UnixMilli saved + elapsed)))"

definition Now :: "Instant result \<Rightarrow> Clock \<Rightarrow> int result" where
  "Now src c = (case src of Inl err \<Rightarrow> Inl err | Inr at \<Rightarrow> now at (clk_saved c))"

definition RequestTime :: "Instant result \<Rightarrow> Clock \<Rightarrow> int result" where
  "RequestTime src c = (case (src, clk_request c) of
      (Inr at, Some saved) \<Rightarrow>
        if Boot at \<noteq> a_Boot saved \<or> Nano at < a_Nano saved then Inl ErrUntrusted
        else let elapsed = go_quot (i64 (Nano at - a_Nano saved)) Millisecond
             in if a_UnixMilli saved > i64 (maxInt64 - elapsed) then Inl ErrUntrusted
                else Inr (i64 (a_UnixMilli saved + elapsed))
    | _ \<Rightarrow> Inl ErrUntrusted)"

text \<open>\<open>fresh\<close> is the string \<open>uuid.NewString\<close> returns.\<close>

definition Begin :: "'u uuid_lib \<Rightarrow> string \<Rightarrow> Instant result \<Rightarrow> Clock \<Rightarrow> string result \<times> Clock" where
  "Begin u fresh src c = (case src of
      Inl err \<Rightarrow> (Inl err, c)
    | Inr at \<Rightarrow>
        if \<not> validBoot u (Boot at) \<or> Nano at < 0 then (Inl ErrUntrusted, c)
        else (Inr fresh, c\<lparr>clk_nonce := fresh, clk_started := at\<rparr>))"

definition stamp_floor :: "Instant \<Rightarrow> anchor option \<Rightarrow> int \<Rightarrow> int" where
  "stamp_floor at saved stamp0 =
     (let stamp1 = (case saved of None \<Rightarrow> stamp0 | Some a \<Rightarrow> max stamp0 (a_UnixMilli a))
      in case now at saved of Inl _ \<Rightarrow> stamp1 | Inr previous \<Rightarrow> max stamp1 previous)"

definition Accept :: "(clock_data \<Rightarrow> 's \<Rightarrow> error option \<times> 's) \<Rightarrow> string \<Rightarrow> int \<Rightarrow> Instant result \<Rightarrow>
    Clock \<Rightarrow> 's \<Rightarrow> error option \<times> Clock \<times> 's" where
  "Accept WriteClock nonce serverUnixMilli src c s =
     (if nonce = '''' \<or> nonce \<noteq> clk_nonce c then (Some ErrUntrusted, c, s)
      else let c1 = c\<lparr>clk_nonce := ''''\<rparr>
      in case src of
           Inl err \<Rightarrow> (Some err, c1, s)
         | Inr at \<Rightarrow>
             if Boot at \<noteq> Boot (clk_started c) \<or> Nano at < Nano (clk_started c)
                \<or> i64 (Nano at - Nano (clk_started c)) > MaxRoundTrip \<or> serverUnixMilli \<le> 0
             then (Some ErrUntrusted, c1, s)
             else let roundTrip = go_quot (i64 (Nano at - Nano (clk_started c) + Millisecond - 1)) Millisecond
             in if serverUnixMilli > i64 (maxInt64 - roundTrip) then (Some ErrUntrusted, c1, s)
                else let stamp = stamp_floor at (clk_saved c) (i64 (serverUnixMilli + roundTrip));
                         saved = \<lparr>a_Version = 1, a_Boot = Boot at, a_Nano = Nano at, a_UnixMilli = stamp\<rparr>
                in (case WriteClock (Encoded saved) s of
                      (Some err, s') \<Rightarrow> (Some err, c1, s')
                    | (None, s') \<Rightarrow>
                        (None, c1\<lparr>clk_saved := Some saved,
                           clk_request := Some (saved\<lparr>a_UnixMilli := serverUnixMilli\<rparr>)\<rparr>, s')))"

section \<open>Statements\<close>

text \<open>
  \<open>base b + n\<close> is the master's true time, in nanoseconds, when the monotonic clock of boot
  \<open>b\<close> reads \<open>n\<close>: both run at the same rate.
\<close>

definition true_milli :: "(string \<Rightarrow> int) \<Rightarrow> Instant \<Rightarrow> int" where
  "true_milli base at = (base (Boot at) + Nano at) div Millisecond"

definition instant_ok :: "Instant result \<Rightarrow> bool" where
  "instant_ok src = (case src of Inl _ \<Rightarrow> True | Inr at \<Rightarrow> Nano at \<le> maxInt64)"

definition anchor_ok :: "anchor \<Rightarrow> bool" where
  "anchor_ok a \<longleftrightarrow> 0 \<le> a_Nano a \<and> a_Nano a \<le> maxInt64 \<and> 0 < a_UnixMilli a \<and> a_UnixMilli a \<le> maxInt64"

definition clock_sound :: "(string \<Rightarrow> int) \<Rightarrow> Clock \<Rightarrow> bool" where
  "clock_sound base c \<longleftrightarrow> 0 \<le> Nano (clk_started c)
     \<and> pred_option (\<lambda>a. anchor_ok a \<and> base (a_Boot a) + a_Nano a < (a_UnixMilli a + 1) * Millisecond) (clk_saved c)
     \<and> pred_option (\<lambda>a. anchor_ok a \<and> a_UnixMilli a * Millisecond \<le> base (a_Boot a) + a_Nano a) (clk_request c)"

text \<open>
  The life of a clock over its storage: a request begins, the master's reply to it is
  accepted (the stamp is the master's time at some moment between the request and the reply),
  the process restarts.
\<close>

inductive clock_step :: "'u uuid_lib \<Rightarrow> ('s \<Rightarrow> clock_data result) \<Rightarrow> (clock_data \<Rightarrow> 's \<Rightarrow> error option \<times> 's) \<Rightarrow>
    (string \<Rightarrow> int) \<Rightarrow> Clock \<times> 's \<Rightarrow> Clock \<times> 's \<Rightarrow> bool" for u ReadClock WriteClock base where
  begins: "instant_ok src \<Longrightarrow> Begin u fresh src c = (r, c') \<Longrightarrow>
    clock_step u ReadClock WriteClock base (c, s) (c', s)"
| accepts: "instant_ok src \<Longrightarrow>
    (\<And>at. src = Inr at \<Longrightarrow> nonce = clk_nonce c \<Longrightarrow> Boot at = Boot (clk_started c) \<Longrightarrow>
       Nano (clk_started c) \<le> Nano at \<Longrightarrow>
       \<exists>m. Nano (clk_started c) \<le> m \<and> m \<le> Nano at \<and> server = (base (Boot at) + m) div Millisecond) \<Longrightarrow>
    Accept WriteClock nonce server src c s = (r, c', s') \<Longrightarrow>
    clock_step u ReadClock WriteClock base (c, s) (c', s')"
| restarts: "New_clock u ReadClock s = Inr c' \<Longrightarrow> clock_step u ReadClock WriteClock base (c, s) (c', s)"

section \<open>Arithmetic of the stamps\<close>

lemma quot_bounds:
  assumes "0 \<le> d"
  shows "go_quot d Millisecond * Millisecond \<le> d" "d < (go_quot d Millisecond + 1) * Millisecond"
    "0 \<le> go_quot d Millisecond" "go_quot d Millisecond \<le> d"
proof -
  define q r where "q = d div Millisecond" and "r = d mod Millisecond"
  have "d = q * Millisecond + r" "0 \<le> r" "r < Millisecond"
    unfolding q_def r_def by (simp_all add: Millisecond_def)
  moreover have "go_quot d Millisecond = q" using assms by (simp add: q_def Millisecond_def)
  moreover have "0 \<le> q" using assms by (simp add: q_def Millisecond_def pos_imp_zdiv_nonneg_iff)
  ultimately show "go_quot d Millisecond * Millisecond \<le> d" "d < (go_quot d Millisecond + 1) * Millisecond"
    "0 \<le> go_quot d Millisecond" "go_quot d Millisecond \<le> d"
    by (auto simp: Millisecond_def)
qed

lemma round_up:
  assumes "0 \<le> d" "d \<le> maxInt64"
  defines "e \<equiv> (if go_rem d Millisecond \<noteq> 0 then i64 (go_quot d Millisecond + 1) else go_quot d Millisecond)"
  shows "d \<le> e * Millisecond" "e * Millisecond < d + Millisecond" "0 \<le> e" "e \<le> maxInt64"
proof -
  note q = quot_bounds [OF assms(1)]
  have r: "go_rem d Millisecond = d - Millisecond * go_quot d Millisecond" by (simp add: go_rem_def)
  have "go_quot d Millisecond * 1000000 \<le> maxInt64" using q(1) assms(2) by (simp add: Millisecond_def)
  then have "go_quot d Millisecond + 1 < 2 ^ 63" by (simp add: maxInt64_def)
  then have "i64 (go_quot d Millisecond + 1) = go_quot d Millisecond + 1" using q(3) by simp
  then show "d \<le> e * Millisecond" "e * Millisecond < d + Millisecond" "0 \<le> e" "e \<le> maxInt64"
    using q r assms(2) unfolding e_def
    by (auto simp: Millisecond_def maxInt64_def)
qed

lemma now_bounds:
  assumes "now at (Some a) = Inr v" and "anchor_ok a" and "Nano at \<le> maxInt64"
  shows "Boot at = a_Boot a" "a_Nano a \<le> Nano at" "a_UnixMilli a \<le> v" "v \<le> maxInt64"
    "Nano at - a_Nano a \<le> (v - a_UnixMilli a) * Millisecond"
    "(v - a_UnixMilli a) * Millisecond < Nano at - a_Nano a + Millisecond"
proof -
  let ?d = "Nano at - a_Nano a"
  define e where "e = (if go_rem ?d Millisecond \<noteq> 0 then i64 (go_quot ?d Millisecond + 1) else go_quot ?d Millisecond)"
  have cond: "Boot at = a_Boot a" "a_Nano a \<le> Nano at" using assms(1) by (auto simp: now_def split: if_splits)
  then have d: "0 \<le> ?d" "?d \<le> maxInt64" using assms(2,3) by (auto simp: anchor_ok_def)
  note e = round_up [OF d, folded e_def]
  have "i64 ?d = ?d" using d by (simp add: maxInt64_def)
  moreover have "i64 (maxInt64 - e) = maxInt64 - e" using e(3,4) by (simp add: maxInt64_def)
  ultimately have "a_UnixMilli a \<le> maxInt64 - e" "v = i64 (a_UnixMilli a + e)"
    using assms(1) cond by (auto simp: now_def Let_def e_def split: if_splits)
  then have v: "v = a_UnixMilli a + e" "v \<le> maxInt64"
    using e(3) assms(2) by (auto simp: anchor_ok_def maxInt64_def)
  show "Boot at = a_Boot a" "a_Nano a \<le> Nano at" by (fact cond)+
  show "a_UnixMilli a \<le> v" "v \<le> maxInt64" using v e by auto
  show "?d \<le> (v - a_UnixMilli a) * Millisecond" "(v - a_UnixMilli a) * Millisecond < ?d + Millisecond"
    using v(1) e by auto
qed

lemma now_earlier:
  assumes "now at' (Some a) = Inr v" and "anchor_ok a" and "Nano at' \<le> maxInt64"
    and "Nano at \<le> Nano at'" "Boot at = Boot at'" "a_Nano a \<le> Nano at"
  shows "\<exists>p. now at (Some a) = Inr p"
proof -
  note n = now_bounds [OF assms(1-3)]
  let ?d = "Nano at - a_Nano a"
  define e where "e = (if go_rem ?d Millisecond \<noteq> 0 then i64 (go_quot ?d Millisecond + 1) else go_quot ?d Millisecond)"
  have d: "0 \<le> ?d" "?d \<le> maxInt64" using assms(2-6) by (auto simp: anchor_ok_def)
  note e = round_up [OF d, folded e_def]
  have "e * Millisecond < (v - a_UnixMilli a + 1) * Millisecond"
    using e(2) n(5) assms(4) by (simp add: Millisecond_def)
  then have "e \<le> v - a_UnixMilli a" by (simp add: Millisecond_def)
  then have "a_UnixMilli a \<le> i64 (maxInt64 - e)" using n(4) e(3,4) by (simp add: maxInt64_def)
  moreover have "i64 ?d = ?d" using d by (simp add: maxInt64_def)
  ultimately show ?thesis
    using assms(2,5,6) n(1) by (auto simp: now_def Let_def e_def anchor_ok_def)
qed

lemma true_milli_bounds:
  "true_milli base at * Millisecond \<le> base (Boot at) + Nano at"
  "base (Boot at) + Nano at < (true_milli base at + 1) * Millisecond"
proof -
  define q r where "q = (base (Boot at) + Nano at) div Millisecond" and "r = (base (Boot at) + Nano at) mod Millisecond"
  have "base (Boot at) + Nano at = q * Millisecond + r" "0 \<le> r" "r < Millisecond"
    unfolding q_def r_def by (simp_all add: Millisecond_def)
  then show "true_milli base at * Millisecond \<le> base (Boot at) + Nano at"
    "base (Boot at) + Nano at < (true_milli base at + 1) * Millisecond"
    by (auto simp: true_milli_def q_def [symmetric] Millisecond_def)
qed

lemma true_milli_le: "base (Boot at) + Nano at < (v + 1) * Millisecond \<Longrightarrow> true_milli base at \<le> v"
  using true_milli_bounds(1) [of base at] by (simp add: Millisecond_def)

lemma true_milli_ge: "v * Millisecond \<le> base (Boot at) + Nano at \<Longrightarrow> v \<le> true_milli base at"
  using true_milli_bounds(2) [of base at] by (simp add: Millisecond_def)

section \<open>Soundness of the clock\<close>

lemma Now_bound:
  assumes "clock_sound base c" and "Now (Inr at) c = Inr v" and "Nano at \<le> maxInt64"
  shows "true_milli base at \<le> v"
proof -
  from assms(2) obtain a where a: "clk_saved c = Some a" "now at (Some a) = Inr v"
    by (cases "clk_saved c") (auto simp: Now_def now_def)
  from assms(1) a(1) have ok: "anchor_ok a" and b: "base (a_Boot a) + a_Nano a < (a_UnixMilli a + 1) * Millisecond"
    by (auto simp: clock_sound_def)
  note n = now_bounds [OF a(2) ok assms(3)]
  show ?thesis
    by (rule true_milli_le) (use n b in \<open>simp add: Millisecond_def\<close>)
qed

lemma RequestTime_bound:
  assumes "clock_sound base c" and "RequestTime (Inr at) c = Inr v" and "Nano at \<le> maxInt64"
  shows "v \<le> true_milli base at"
proof -
  from assms(2) obtain a where a: "clk_request c = Some a" by (auto simp: RequestTime_def split: option.splits)
  let ?d = "Nano at - a_Nano a"
  from assms(1) a have ok: "anchor_ok a" and b: "a_UnixMilli a * Millisecond \<le> base (a_Boot a) + a_Nano a"
    by (auto simp: clock_sound_def)
  have cond: "Boot at = a_Boot a" "a_Nano a \<le> Nano at" using assms(2) a by (auto simp: RequestTime_def split: if_splits)
  have d: "0 \<le> ?d" "?d \<le> maxInt64" "i64 ?d = ?d" using cond ok assms(3) by (auto simp: anchor_ok_def maxInt64_def)
  note q = quot_bounds [OF d(1)]
  have "i64 (maxInt64 - go_quot ?d Millisecond) = maxInt64 - go_quot ?d Millisecond"
    using q d(2) by (simp add: maxInt64_def)
  then have "v = a_UnixMilli a + go_quot ?d Millisecond"
    using assms(2) a cond d q ok by (auto simp: RequestTime_def Let_def anchor_ok_def maxInt64_def split: if_splits)
  then show ?thesis
    by (intro true_milli_ge) (use q(1) b cond in \<open>simp add: Millisecond_def\<close>)
qed

text \<open>What a successful reply stores.\<close>

lemma stamp_floor_ge:
  "stamp0 \<le> stamp_floor at saved stamp0"
  "saved = Some a \<Longrightarrow> a_UnixMilli a \<le> stamp_floor at saved stamp0"
  "now at saved = Inr p \<Longrightarrow> p \<le> stamp_floor at saved stamp0"
  by (auto simp: stamp_floor_def Let_def split: option.splits sum.splits)

lemma stamp_floor_le:
  assumes "stamp0 \<le> maxInt64" and "pred_option anchor_ok saved" and "Nano at \<le> maxInt64"
  shows "stamp_floor at saved stamp0 \<le> maxInt64"
proof (cases saved)
  case (Some a)
  have "p \<le> maxInt64" if "now at (Some a) = Inr p" for p
    using now_bounds(4) [OF that] assms Some by simp
  then show ?thesis using assms Some
    by (auto simp: stamp_floor_def Let_def anchor_ok_def split: sum.splits)
qed (use assms in \<open>simp add: stamp_floor_def now_def\<close>)

lemma Accept_success:
  assumes acc: "Accept WriteClock nonce server (Inr at) c s = (None, c', s')"
    and at: "Nano at \<le> maxInt64" and st: "0 \<le> Nano (clk_started c)"
    and sv: "server \<le> maxInt64" "pred_option anchor_ok (clk_saved c)"
  obtains stamp where
    "Boot at = Boot (clk_started c)" "Nano (clk_started c) \<le> Nano at" "0 < server"
    "Nano at - Nano (clk_started c) \<le> (stamp - server) * Millisecond" "server \<le> stamp"
    "stamp_floor at (clk_saved c) stamp \<le> maxInt64"
    "clk_saved c' = Some \<lparr>a_Version = 1, a_Boot = Boot at, a_Nano = Nano at,
        a_UnixMilli = stamp_floor at (clk_saved c) stamp\<rparr>"
    "clk_request c' = Some \<lparr>a_Version = 1, a_Boot = Boot at, a_Nano = Nano at, a_UnixMilli = server\<rparr>"
    "clk_started c' = clk_started c" "WriteClock (Encoded (the (clk_saved c'))) s = (None, s')" "nonce = clk_nonce c"
proof -
  let ?d = "Nano at - Nano (clk_started c)"
  define rt where "rt = go_quot (i64 (?d + Millisecond - 1)) Millisecond"
  have cond: "Boot at = Boot (clk_started c)" "Nano (clk_started c) \<le> Nano at" "i64 ?d \<le> MaxRoundTrip"
    "0 < server" "nonce = clk_nonce c" "server \<le> i64 (maxInt64 - rt)"
    using acc by (auto simp: Accept_def Let_def rt_def split: if_splits)
  have d: "0 \<le> ?d" "?d \<le> maxInt64" using cond(2) at st by auto
  then have d5: "?d \<le> 5000000000" using cond(3) by (simp add: maxInt64_def MaxRoundTrip_def)
  then have rt: "rt = go_quot (?d + Millisecond - 1) Millisecond"
    using d by (simp add: rt_def Millisecond_def)
  have "0 \<le> ?d + Millisecond - 1" using d by (simp add: Millisecond_def)
  note q = quot_bounds [OF this, folded rt]
  have up: "?d \<le> rt * Millisecond" using q(2) by (simp add: Millisecond_def)
  have "i64 (maxInt64 - rt) = maxInt64 - rt" using q(3,4) d5 by (simp add: maxInt64_def Millisecond_def)
  then have le: "server + rt \<le> maxInt64" "i64 (server + rt) = server + rt"
    using cond(4,6) q(3) by (auto simp: maxInt64_def)
  show ?thesis
  proof (rule that [of "server + rt"])
    show "stamp_floor at (clk_saved c) (server + rt) \<le> maxInt64"
      by (rule stamp_floor_le [OF le(1) sv(2) at])
  qed (use acc cond le(2) up q(3) in
      \<open>auto simp: Accept_def Let_def rt_def [symmetric] split: if_splits option.splits prod.splits\<close>)
qed

lemma Accept_failure:
  "Accept WriteClock nonce server src c s = (Some e, c', s') \<Longrightarrow>
     clk_saved c' = clk_saved c \<and> clk_request c' = clk_request c \<and> clk_started c' = clk_started c
     \<and> (s' = s \<or> (\<exists>d. WriteClock d s = (Some e, s')))"
  by (auto simp: Accept_def Let_def split: if_splits sum.splits prod.splits option.splits)

lemma Begin_cases:
  "Begin u fresh src c = (r, c') \<Longrightarrow>
     clk_saved c' = clk_saved c \<and> clk_request c' = clk_request c
     \<and> (clk_started c' = clk_started c \<or> 0 \<le> Nano (clk_started c'))"
  by (auto simp: Begin_def split: if_splits sum.splits)

lemma Accept_sound:
  assumes acc: "Accept WriteClock nonce server (Inr at) c s = (None, c', s')" and at: "Nano at \<le> maxInt64"
    and sound: "clock_sound base c" and server: "server \<le> maxInt64"
    and m: "Nano (clk_started c) \<le> m" "m \<le> Nano at" "server = (base (Boot at) + m) div Millisecond"
  shows "clock_sound base c'"
proof -
  have st: "0 \<le> Nano (clk_started c)" and sv: "pred_option anchor_ok (clk_saved c)"
    using sound by (auto simp: clock_sound_def intro: option.pred_mono_strong)
  from Accept_success [OF acc at st server sv] obtain stamp where
    a: "Nano at - Nano (clk_started c) \<le> (stamp - server) * Millisecond" "0 < server" "server \<le> stamp"
       "stamp_floor at (clk_saved c) stamp \<le> maxInt64" "Nano (clk_started c) \<le> Nano at"
       "clk_saved c' = Some \<lparr>a_Version = 1, a_Boot = Boot at, a_Nano = Nano at,
          a_UnixMilli = stamp_floor at (clk_saved c) stamp\<rparr>"
       "clk_request c' = Some \<lparr>a_Version = 1, a_Boot = Boot at, a_Nano = Nano at, a_UnixMilli = server\<rparr>"
       "clk_started c' = clk_started c"
    by metis
  let ?fl = "stamp_floor at (clk_saved c) stamp"
  have mm: "server = true_milli base (at\<lparr>Nano := m\<rparr>)" by (simp add: m(3) true_milli_def)
  have lo: "server * Millisecond \<le> base (Boot at) + m" and hi: "base (Boot at) + m < (server + 1) * Millisecond"
    using true_milli_bounds [of base "at\<lparr>Nano := m\<rparr>"] mm by simp_all
  have "base (Boot at) + Nano at < (stamp + 1) * Millisecond"
    using hi a(1) m(1) by (simp add: Millisecond_def)
  moreover have "stamp \<le> ?fl" by (rule stamp_floor_ge)
  ultimately have up: "base (Boot at) + Nano at < (?fl + 1) * Millisecond" by (simp add: Millisecond_def)
  have "server * Millisecond \<le> base (Boot at) + Nano at" using lo m(2) by simp
  then show ?thesis
    using up a(2-5) st at \<open>stamp \<le> ?fl\<close> server by (simp add: clock_sound_def anchor_ok_def a(6-8))
qed

lemma New_clock_cases:
  assumes "New_clock u ReadClock s = Inr c"
  shows "clk_request c = None" "Nano (clk_started c) = 0"
    "(\<exists>a. ReadClock s = Inr (Encoded a) \<and> clk_saved c = Some a) \<or> ReadClock s = Inr NoData \<and> clk_saved c = None"
  using assms by (auto simp: New_clock_def Let_def split: sum.splits clock_data.splits if_splits)

section \<open>The storage interface\<close>

text \<open>
  What the clock relies on of its storage: a write that reports success is what the next read
  returns, and one that reports an error has changed nothing.
\<close>

locale clock_storage =
  fixes ReadClock :: "'s \<Rightarrow> clock_data result"
    and WriteClock :: "clock_data \<Rightarrow> 's \<Rightarrow> error option \<times> 's"
  assumes write_read: "WriteClock d s = (None, s') \<Longrightarrow> ReadClock s' = Inr d"
    and write_failed: "WriteClock d s = (Some e, s') \<Longrightarrow> ReadClock s' = ReadClock s"
begin

definition durable :: "Clock \<Rightarrow> 's \<Rightarrow> bool" where
  "durable c s \<longleftrightarrow> (case clk_saved c of
     None \<Rightarrow> ReadClock s = Inr NoData
   | Some a \<Rightarrow> ReadClock s = Inr (Encoded a))"

lemma durable_step:
  assumes "clock_step u ReadClock WriteClock base x y" and "durable (fst x) (snd x)"
  shows "durable (fst y) (snd y)"
  using assms(1)
proof cases
  case (begins src fresh c r c' s)
  then show ?thesis using assms(2) Begin_cases [OF begins(4)] by (simp add: durable_def)
next
  case (accepts src nonce c server s r c' s')
  show ?thesis
  proof (cases r)
    case None
    then obtain at where at: "src = Inr at"
      using accepts(5) by (auto simp: Accept_def Let_def split: if_splits sum.splits)
    have "\<exists>a. clk_saved c' = Some a \<and> WriteClock (Encoded a) s = (None, s')"
      using accepts(5) None at
      by (auto simp: Accept_def Let_def split: if_splits option.splits prod.splits)
    then show ?thesis using write_read accepts(2) by (auto simp: durable_def)
  next
    case (Some e)
    from Accept_failure [OF accepts(5) [unfolded Some]] assms(2) accepts(1,2) write_failed
    show ?thesis by (auto simp: durable_def split: option.splits)
  qed
next
  case (restarts s c' c)
  with New_clock_cases(3) [OF restarts(3)] show ?thesis by (auto simp: durable_def)
qed

lemma sound_step:
  assumes "clock_step u ReadClock WriteClock base x y" and "durable (fst x) (snd x)" and "clock_sound base (fst x)"
    and range: "\<And>b n. n \<le> maxInt64 \<Longrightarrow> (base b + n) div Millisecond \<le> maxInt64"
  shows "clock_sound base (fst y)"
  using assms(1)
proof cases
  case (begins src fresh c r c' s)
  then show ?thesis using assms(3) Begin_cases [OF begins(4)] by (auto simp: clock_sound_def)
next
  case (accepts src nonce c server s r c' s')
  show ?thesis
  proof (cases r)
    case (Some e)
    with Accept_failure [OF accepts(5) [unfolded Some]] assms(3) accepts(1,2)
    show ?thesis by (simp add: clock_sound_def)
  next
    case None
    then obtain at where src: "src = Inr at"
      using accepts(5) by (auto simp: Accept_def Let_def split: if_splits sum.splits)
    have acc: "Accept WriteClock nonce server (Inr at) c s = (None, c', s')" using accepts(5) None src by simp
    then have "nonce = clk_nonce c" "Boot at = Boot (clk_started c)" "Nano (clk_started c) \<le> Nano at"
      by (auto simp: Accept_def Let_def split: if_splits)
    from accepts(4) [OF src this] obtain m where
      m: "Nano (clk_started c) \<le> m" "m \<le> Nano at" "server = (base (Boot at) + m) div Millisecond" by blast
    have at: "Nano at \<le> maxInt64" using accepts(3) src by (simp add: instant_ok_def)
    have "clock_sound base c'"
      by (rule Accept_sound [where base = base, OF acc at _ _ m]) (use assms(3) accepts(1) m range at in auto)
    then show ?thesis using accepts(2) by simp
  qed
next
  case (restarts s c' c)
  with New_clock_cases [OF restarts(3)] assms(2,3) show ?thesis
    by (auto simp: clock_sound_def durable_def split: option.splits)
qed

lemma run_sound:
  assumes "(clock_step u ReadClock WriteClock base)\<^sup>*\<^sup>* x y" and "durable (fst x) (snd x)" and "clock_sound base (fst x)"
    and "\<And>b n. n \<le> maxInt64 \<Longrightarrow> (base b + n) div Millisecond \<le> maxInt64"
  shows "durable (fst y) (snd y) \<and> clock_sound base (fst y)"
  using assms(1)
proof (induction rule: rtranclp_induct)
  case base
  show ?case using assms(2,3) ..
next
  case (step y z)
  show ?case
    using durable_step [OF step.hyps(2)] sound_step [OF step.hyps(2) _ _ assms(4)] step.IH by blast
qed

end

section \<open>Properties\<close>

text \<open>C12 Synchronising never moves trusted time back: after a reply is accepted, any later
  reading of the same boot is at least what it would have been without the reply, and the new
  anchor is never before the saved one, also across a reboot. A refused reply changes neither
  bound.\<close>

theorem Accept_monotone:
  assumes "Accept WriteClock nonce server (Inr at) c s = (r, c', s')" and "Nano at \<le> maxInt64"
    and "0 \<le> Nano (clk_started c)" and "server \<le> maxInt64" and "pred_option anchor_ok (clk_saved c)"
    and "Nano at \<le> Nano at'" "Nano at' \<le> maxInt64" "Boot at' = Boot at"
  shows "(r \<noteq> None \<longrightarrow> clk_saved c' = clk_saved c \<and> clk_request c' = clk_request c)
    \<and> (r = None \<longrightarrow> (\<forall>a. clk_saved c = Some a \<longrightarrow> (\<exists>a'. clk_saved c' = Some a' \<and> a_UnixMilli a \<le> a_UnixMilli a'))
       \<and> (\<forall>v v'. Now (Inr at') c = Inr v \<longrightarrow> Now (Inr at') c' = Inr v' \<longrightarrow> v \<le> v'))"
proof (cases r)
  case (Some e)
  then show ?thesis using Accept_failure [OF assms(1) [unfolded Some]] by simp
next
  case None
  from Accept_success [OF assms(1) [unfolded None] assms(2-5)] obtain stamp where
    fl: "stamp_floor at (clk_saved c) stamp \<le> maxInt64" "0 < server" "server \<le> stamp" "Nano (clk_started c) \<le> Nano at" and
    saved: "clk_saved c' = Some \<lparr>a_Version = 1, a_Boot = Boot at, a_Nano = Nano at,
        a_UnixMilli = stamp_floor at (clk_saved c) stamp\<rparr>" (is "_ = Some ?n") by blast
  have ok': "anchor_ok ?n"
    using fl assms(2,3) stamp_floor_ge(1) [of stamp at "clk_saved c"] by (simp add: anchor_ok_def)
  have "v \<le> v'" if a: "clk_saved c = Some a" and v: "now at' (Some a) = Inr v" and v': "now at' (Some ?n) = Inr v'" for a v v'
  proof -
    have ok: "anchor_ok a" using assms(5) a by simp
    note n = now_bounds [OF v ok assms(7)] and n' = now_bounds [OF v' ok' assms(7)]
    show ?thesis
    proof (cases "now at (Some a)")
      case (Inr p)
      note np = now_bounds [OF Inr ok assms(2)]
      have "p \<le> a_UnixMilli ?n" using stamp_floor_ge(3) [of at "clk_saved c" p stamp] Inr a by simp
      then have "v * Millisecond < (v' + 1) * Millisecond"
        using n(6) n'(5) np(5) by (simp add: Millisecond_def)
      then show ?thesis by (simp add: Millisecond_def)
    next
      case (Inl e)
      have "Nano at < a_Nano a"
      proof (rule ccontr)
        assume "\<not> Nano at < a_Nano a"
        then have "a_Nano a \<le> Nano at" by simp
        from now_earlier [OF v ok assms(7,6) assms(8) [symmetric] this] Inl show False by simp
      qed
      moreover have "a_UnixMilli a \<le> a_UnixMilli ?n" using stamp_floor_ge(2) [OF a] by simp
      ultimately have "v * Millisecond < (v' + 1) * Millisecond"
        using n(6) n'(5) by (simp add: Millisecond_def)
      then show ?thesis by (simp add: Millisecond_def)
    qed
  qed
  moreover have "a_UnixMilli a \<le> a_UnixMilli ?n" if "clk_saved c = Some a" for a
    using stamp_floor_ge(2) [OF that] by simp
  ultimately show ?thesis
    using None saved by (cases "clk_saved c") (simp_all add: Now_def now_def [of _ None])
qed

theorem Accept_monotone_witness:
  "\<exists>c'. Accept (\<lambda>d s. (None, Some d)) ''n'' 7 (Inr \<lparr>Boot = ''b'', Nano = 2000000\<rparr>)
      \<lparr>clk_saved = Some \<lparr>a_Version = 1, a_Boot = ''b'', a_Nano = 0, a_UnixMilli = 5\<rparr>, clk_request = None,
       clk_nonce = ''n'', clk_started = \<lparr>Boot = ''b'', Nano = 0\<rparr>\<rparr> None
    = (None, c', Some (Encoded \<lparr>a_Version = 1, a_Boot = ''b'', a_Nano = 2000000, a_UnixMilli = 9\<rparr>))
    \<and> (\<exists>a'. clk_saved c' = Some a' \<and> 5 \<le> a_UnixMilli a')"
proof -
  let ?c = "\<lparr>clk_saved = Some \<lparr>a_Version = 1, a_Boot = ''b'', a_Nano = 0, a_UnixMilli = 5\<rparr>, clk_request = None,
       clk_nonce = ''n'', clk_started = \<lparr>Boot = ''b'', Nano = 0\<rparr>\<rparr>"
  let ?c' = "fst (snd (Accept (\<lambda>d s. (None, Some d)) ''n'' 7 (Inr \<lparr>Boot = ''b'', Nano = 2000000\<rparr>) ?c None))"
  have run: "Accept (\<lambda>d s. (None, Some d)) ''n'' 7 (Inr \<lparr>Boot = ''b'', Nano = 2000000\<rparr>) ?c None
      = (None, ?c', Some (Encoded \<lparr>a_Version = 1, a_Boot = ''b'', a_Nano = 2000000, a_UnixMilli = 9\<rparr>))"
    by (simp add: Accept_def Let_def stamp_floor_def now_def Millisecond_def MaxRoundTrip_def maxInt64_def)
  with Accept_monotone [OF run, of "\<lparr>Boot = ''b'', Nano = 9000000\<rparr>"] show ?thesis
    by (auto simp: maxInt64_def anchor_ok_def)
qed

end
