(* ===== verification/NodeLimits.thy ===== *)
theory NodeLimits
  imports Prelude
begin

text \<open>
  Package \<open>internal/node/limits\<close>: the admission account of one client grant
  (\<open>account.go\<close>, \<open>authority.go\<close>, \<open>credit.go\<close>) and the connection and writer that forward
  only what the account admits (\<open>conn.go\<close>, \<open>writer.go\<close>). Each critical section of the
  account's mutex is one step. The rate limiter of \<open>golang.org/x/time/rate\<close> is the
  argument \<open>L\<close>, the \<open>Persistence\<close> interface the argument \<open>P\<close> on a durable state \<open>'d\<close>.
  A \<open>time.Time\<close> is its nanoseconds since the epoch; \<open>now\<close> is what \<open>time.Now\<close> returns
  and \<open>clk\<close> what the account's clock returns. The channel \<open>changed\<close> is the number of
  times it was closed and replaced.
\<close>

section \<open>Rates and policies\<close>

type_synonym Mode = "8 word"
type_synonym Direction = "8 word"

abbreviation Blocked :: Mode where "Blocked \<equiv> 0"
abbreviation Limited :: Mode where "Limited \<equiv> 1"
abbreviation Unlimited :: Mode where "Unlimited \<equiv> 2"
abbreviation Upload :: Direction where "Upload \<equiv> 0"
abbreviation Download :: Direction where "Download \<equiv> 1"

record Rate =
  r_Mode :: Mode
  BitsPerSecond :: u64
  BurstBytes :: int

record Policy =
  Term :: string
  Revision :: u64
  AuthorityRevision :: u64
  Enabled :: bool
  ExpiresUnixMilli :: int
  QuotaUnlimited :: bool
  CreditCeiling :: u64
  CreditRevision :: u64
  p_Upload :: Rate
  p_Download :: Rate

record 'b rate_lib =
  NewLimiter :: "u64 \<Rightarrow> int \<Rightarrow> 'b"
  AllowN :: "int \<Rightarrow> int \<Rightarrow> 'b \<Rightarrow> bool \<times> 'b"
  SetLimitAt :: "int \<Rightarrow> u64 \<Rightarrow> 'b \<Rightarrow> 'b"
  SetBurstAt :: "int \<Rightarrow> int \<Rightarrow> 'b \<Rightarrow> 'b"
  Burst :: "'b \<Rightarrow> int"
  DeficitDelay :: "int \<Rightarrow> int \<Rightarrow> 'b \<Rightarrow> int"

record ('h, 'd) persist_lib =
  StorePolicy :: "'h \<Rightarrow> Policy \<Rightarrow> 'd \<Rightarrow> error option \<times> 'd"
  Reserve :: "'h \<Rightarrow> Policy \<Rightarrow> u64 \<Rightarrow> 'd \<Rightarrow> error option \<times> 'd"

record ('b, 'h) Account =
  quarantined :: bool
  policy :: Policy
  uploaded :: u64
  downloaded :: u64
  previouslyReserved :: u64
  measured :: "u64 \<times> u64"
  persistence :: "'h option"
  buckets :: "'b option \<times> 'b option"
  changed :: nat
  has_clock :: bool

record Snapshot =
  s_Policy :: Policy
  AdmittedUpload :: u64
  AdmittedDownload :: u64
  PreviouslyReserved :: u64
  MeasuredUpload :: u64
  MeasuredDownload :: u64
  s_Quarantined :: bool

text \<open>Indexing of a two-element array by a direction.\<close>

definition at_dir :: "Direction \<Rightarrow> 'a \<times> 'a \<Rightarrow> 'a" where
  "at_dir dir x = (if dir = Upload then fst x else snd x)"

definition set_dir :: "Direction \<Rightarrow> 'a \<Rightarrow> 'a \<times> 'a \<Rightarrow> 'a \<times> 'a" where
  "set_dir dir v x = (if dir = Upload then (v, snd x) else (fst x, v))"

definition rate_of :: "Direction \<Rightarrow> Policy \<Rightarrow> Rate" where
  "rate_of dir p = at_dir dir (p_Upload p, p_Download p)"

definition unix_milli :: "int \<Rightarrow> int" where
  "unix_milli t = t div 1000000"

section \<open>Validation and buckets\<close>

definition validate_rate :: "Rate \<Rightarrow> bool" where
  "validate_rate r =
     (if r_Mode r = Blocked \<or> r_Mode r = Unlimited then BitsPerSecond r = 0 \<and> BurstBytes r = 0
      else if r_Mode r = Limited then
        \<not> (BitsPerSecond r = 0 \<or> BitsPerSecond r > 2 ^ 53 \<or> BurstBytes r < 1 \<or> BurstBytes r > 2 ^ 20)
      else False)"

definition validate :: "Policy \<Rightarrow> error option" where
  "validate p =
     (if Term p = '''' \<or> Revision p = 0 \<or> ExpiresUnixMilli p < 0 then Some InvalidPolicy
      else if \<not> validate_rate (p_Upload p) \<or> \<not> validate_rate (p_Download p) then Some InvalidPolicy
      else if QuotaUnlimited p \<and> CreditCeiling p \<noteq> 0 then Some InvalidPolicy
      else None)"

definition bucket :: "'b rate_lib \<Rightarrow> Rate \<Rightarrow> 'b option" where
  "bucket L r = (if r_Mode r \<noteq> Limited then None else Some (NewLimiter L (BitsPerSecond r) (BurstBytes r)))"

definition New_account :: "'b rate_lib \<Rightarrow> Policy \<Rightarrow> (error, ('b, 'h) Account) sum" where
  "New_account L p = (case validate p of
      Some err \<Rightarrow> Inl err
    | None \<Rightarrow> Inr \<lparr>quarantined = False, policy = p, uploaded = 0, downloaded = 0, previouslyReserved = 0,
        measured = (0, 0), persistence = None, buckets = (bucket L (p_Upload p), bucket L (p_Download p)),
        changed = 0, has_clock = False\<rparr>)"

definition drain :: "'b rate_lib \<Rightarrow> int \<Rightarrow> 'b option \<Rightarrow> 'b option" where
  "drain L now b = map_option (\<lambda>l. snd (AllowN L now (Burst L l) l)) b"

definition Restore :: "'b rate_lib \<Rightarrow> int \<Rightarrow> Policy \<Rightarrow> u64 \<Rightarrow> 'h option \<Rightarrow> (error, ('b, 'h) Account) sum" where
  "Restore L now p reserved h =
     (if h = None then Inl ErrPersistence
      else case New_account L p of
          Inl err \<Rightarrow> Inl err
        | Inr a \<Rightarrow> Inr (a\<lparr>previouslyReserved := reserved, persistence := h,
            buckets := map_prod (drain L now) (drain L now) (buckets a)\<rparr>))"

definition SetClock :: "bool \<Rightarrow> ('b, 'h) Account \<Rightarrow> ('b, 'h) Account" where
  "SetClock clock a = a\<lparr>has_clock := clock\<rparr>"

definition Quarantine :: "('b, 'h) Account \<Rightarrow> ('b, 'h) Account" where
  "Quarantine a = (if quarantined a then a else a\<lparr>quarantined := True, changed := changed a + 1\<rparr>)"

section \<open>Policy updates\<close>

definition CreditAdvance :: "Policy \<Rightarrow> Policy \<Rightarrow> bool" where
  "CreditAdvance before after =
     (if QuotaUnlimited before \<or> CreditRevision after \<le> CreditRevision before
         \<or> CreditCeiling after \<le> CreditCeiling before then False
      else before\<lparr>CreditRevision := CreditRevision after, CreditCeiling := CreditCeiling after\<rparr> = after)"

definition RetainCredit :: "Policy \<Rightarrow> Policy \<Rightarrow> Policy" where
  "RetainCredit base persisted =
     (if Revision base \<noteq> Revision persisted \<or> CreditRevision base \<ge> CreditRevision persisted
         \<or> CreditCeiling base > CreditCeiling persisted then base
      else let merged = base\<lparr>CreditRevision := CreditRevision persisted, CreditCeiling := CreditCeiling persisted\<rparr>
           in if merged = persisted then persisted else base)"

definition AuthorityAdvance :: "Policy \<Rightarrow> Policy \<Rightarrow> bool" where
  "AuthorityAdvance before after =
     (if Revision before \<noteq> Revision after \<or> Term before \<noteq> Term after
         \<or> ExpiresUnixMilli before \<noteq> ExpiresUnixMilli after \<or> QuotaUnlimited before \<noteq> QuotaUnlimited after
         \<or> AuthorityRevision after \<le> AuthorityRevision before \<or> \<not> Enabled before \<and> Enabled after
         \<or> CreditRevision after < CreditRevision before \<or> CreditCeiling after < CreditCeiling before
         \<or> CreditRevision after = CreditRevision before \<and> CreditCeiling after \<noteq> CreditCeiling before
      then False
      else before\<lparr>AuthorityRevision := AuthorityRevision after, Enabled := Enabled after,
             p_Upload := p_Upload after, p_Download := p_Download after,
             CreditRevision := CreditRevision after, CreditCeiling := CreditCeiling after\<rparr> = after)"

definition MergeAuthority :: "Policy \<Rightarrow> Policy \<Rightarrow> Policy result" where
  "MergeAuthority current desired =
     (if AuthorityRevision desired = 0 \<or> AuthorityRevision desired > maxInt64u \<or> CreditRevision desired = 0
         \<or> CreditRevision desired > maxInt64u \<or> CreditCeiling desired > maxInt64u then Inl ErrRevision
      else case validate desired of
          Some err \<Rightarrow> Inl err
        | None \<Rightarrow>
            if Term desired \<noteq> Term current then Inl ErrTerm
            else if Revision desired \<noteq> Revision current \<or> ExpiresUnixMilli desired \<noteq> ExpiresUnixMilli current
                \<or> QuotaUnlimited desired \<noteq> QuotaUnlimited current \<or> \<not> Enabled current \<and> Enabled desired
              then Inl ErrRevision
            else if CreditRevision desired < CreditRevision current \<and> CreditCeiling desired > CreditCeiling current
              then Inl ErrRevision
            else let merged = (if CreditRevision desired < CreditRevision current
                    then desired\<lparr>CreditRevision := CreditRevision current, CreditCeiling := CreditCeiling current\<rparr>
                    else desired)
                 in if merged = current \<or> AuthorityAdvance current merged then Inr merged else Inl ErrRevision)"

text \<open>One turn of the loop of \<open>applyLocked\<close> over the directions.\<close>

definition apply_rate :: "'b rate_lib \<Rightarrow> int \<Rightarrow> Rate \<Rightarrow> Rate \<Rightarrow> 'b option \<Rightarrow> 'b option" where
  "apply_rate L now old next b =
     (if next = old then b
      else case b of
          Some l \<Rightarrow>
            if r_Mode next = Limited
            then Some (SetBurstAt L now (BurstBytes next) (SetLimitAt L now (BitsPerSecond next) l))
            else map_option (\<lambda>l. snd (AllowN L now (BurstBytes next) l)) (bucket L next)
        | None \<Rightarrow> map_option (\<lambda>l. snd (AllowN L now (BurstBytes next) l)) (bucket L next))"

definition apply_refused :: "Policy \<Rightarrow> Policy \<Rightarrow> error option" where
  "apply_refused cur p =
     (if Term p \<noteq> Term cur then Some ErrTerm
      else if AuthorityRevision p < AuthorityRevision cur \<or> CreditRevision p < CreditRevision cur
          \<or> Revision p < Revision cur
          \<or> Revision p = Revision cur \<and> p \<noteq> cur \<and> \<not> CreditAdvance cur p \<and> \<not> AuthorityAdvance cur p
        then Some ErrRevision
      else if (CreditRevision p \<noteq> 0 \<or> CreditRevision cur \<noteq> 0) \<and> (CreditCeiling p < CreditCeiling cur
          \<or> CreditRevision p = CreditRevision cur \<and> CreditCeiling p \<noteq> CreditCeiling cur)
        then Some ErrRevision
      else if (AuthorityRevision p \<noteq> 0 \<or> AuthorityRevision cur \<noteq> 0) \<and> QuotaUnlimited p \<noteq> QuotaUnlimited cur
        then Some ErrRevision
      else None)"

definition applyLocked :: "'b rate_lib \<Rightarrow> ('h, 'd) persist_lib \<Rightarrow> int \<Rightarrow> Policy \<Rightarrow> ('b, 'h) Account \<Rightarrow> 'd \<Rightarrow>
    error option \<times> ('b, 'h) Account \<times> 'd" where
  "applyLocked L P now p a d =
     (case apply_refused (policy a) p of
        Some err \<Rightarrow> (Some err, a, d)
      | None \<Rightarrow>
          if p = policy a then (None, a, d)
          else case (case persistence a of None \<Rightarrow> (None, d) | Some h \<Rightarrow> StorePolicy P h p d) of
              (Some err, d') \<Rightarrow> (Some err, a, d')
            | (None, d') \<Rightarrow>
                (None,
                 a\<lparr>buckets := (apply_rate L now (p_Upload (policy a)) (p_Upload p) (fst (buckets a)),
                               apply_rate L now (p_Download (policy a)) (p_Download p) (snd (buckets a))),
                   policy := p, changed := changed a + 1\<rparr>, d'))"

definition Apply :: "'b rate_lib \<Rightarrow> ('h, 'd) persist_lib \<Rightarrow> int \<Rightarrow> Policy \<Rightarrow> ('b, 'h) Account \<Rightarrow> 'd \<Rightarrow>
    error option \<times> ('b, 'h) Account \<times> 'd" where
  "Apply L P now p a d = (case validate p of
      Some err \<Rightarrow> (Some err, a, d)
    | None \<Rightarrow> applyLocked L P now p a d)"

definition authorityTime :: "int \<Rightarrow> int result \<Rightarrow> Policy \<Rightarrow> ('b, 'h) Account \<Rightarrow> error option" where
  "authorityTime now0 clk p a =
     (if \<not> Enabled p then None
      else case (if has_clock a then clk else Inr now0) of
          Inl err \<Rightarrow> Some (ErrClock err)
        | Inr now \<Rightarrow>
            if ExpiresUnixMilli p \<noteq> 0 \<and> unix_milli now \<ge> ExpiresUnixMilli p then Some ErrExpired else None)"

definition ValidateAuthority :: "int \<Rightarrow> int result \<Rightarrow> Policy \<Rightarrow> ('b, 'h) Account \<Rightarrow> error option" where
  "ValidateAuthority now clk desired a =
     (if quarantined a then Some ErrBlocked
      else case MergeAuthority (policy a) desired of
          Inl err \<Rightarrow> Some err
        | Inr merged \<Rightarrow> authorityTime now clk merged a)"

definition ApplyAuthority :: "'b rate_lib \<Rightarrow> ('h, 'd) persist_lib \<Rightarrow> int \<Rightarrow> int result \<Rightarrow> Policy \<Rightarrow>
    ('b, 'h) Account \<Rightarrow> 'd \<Rightarrow> error option \<times> ('b, 'h) Account \<times> 'd" where
  "ApplyAuthority L P now clk desired a d =
     (if quarantined a then (Some ErrBlocked, a, d)
      else case MergeAuthority (policy a) desired of
          Inl err \<Rightarrow> (Some err, a, d)
        | Inr merged \<Rightarrow> (case authorityTime now clk merged a of
              Some err \<Rightarrow> (Some err, a, d)
            | None \<Rightarrow> applyLocked L P now merged a d))"

definition ApplyCredit :: "'b rate_lib \<Rightarrow> ('h, 'd) persist_lib \<Rightarrow> int \<Rightarrow> int result \<Rightarrow> string \<Rightarrow> u64 \<Rightarrow> u64 \<Rightarrow> u64 \<Rightarrow>
    ('b, 'h) Account \<Rightarrow> 'd \<Rightarrow> error option \<times> ('b, 'h) Account \<times> 'd" where
  "ApplyCredit L P now0 clk term policyRevision creditRevision ceil a d =
     (if term \<noteq> Term (policy a) then (Some ErrTerm, a, d)
      else if policyRevision \<noteq> Revision (policy a) \<or> creditRevision = 0 \<or> creditRevision > maxInt64u
          \<or> ceil > maxInt64u then (Some ErrRevision, a, d)
      else let p = (policy a)\<lparr>CreditRevision := creditRevision, CreditCeiling := ceil\<rparr>
      in if p = policy a then (None, a, d)
         else if \<not> CreditAdvance (policy a) p then (Some ErrRevision, a, d)
         else if quarantined a \<or> \<not> Enabled p
             \<or> r_Mode (p_Upload p) = Blocked \<and> r_Mode (p_Download p) = Blocked then (Some ErrBlocked, a, d)
         else case (if has_clock a then clk else Inr now0) of
             Inl err \<Rightarrow> (Some (ErrClock err), a, d)
           | Inr now \<Rightarrow>
               if ExpiresUnixMilli p \<noteq> 0 \<and> unix_milli now \<ge> ExpiresUnixMilli p then (Some ErrExpired, a, d)
               else applyLocked L P now0 p a d)"

section \<open>Admission\<close>

definition account_snapshot :: "('b, 'h) Account \<Rightarrow> Snapshot" where
  "account_snapshot a = \<lparr>s_Policy = policy a, AdmittedUpload = uploaded a, AdmittedDownload = downloaded a,
     PreviouslyReserved = previouslyReserved a, MeasuredUpload = at_dir Upload (measured a),
     MeasuredDownload = at_dir Download (measured a), s_Quarantined = quarantined a\<rparr>"

definition Record :: "Direction \<Rightarrow> int \<Rightarrow> ('b, 'h) Account \<Rightarrow> ('b, 'h) Account" where
  "Record dir n a =
     (if dir > Download \<or> n \<le> 0 then a
      else let admitted = at_dir dir (uploaded a, downloaded a);
               m = at_dir dir (measured a)
           in a\<lparr>measured := set_dir dir (m + min (word_of_int n) (admitted - m)) (measured a)\<rparr>)"

definition allowed :: "('b, 'h) Account \<Rightarrow> int \<Rightarrow> int result \<Rightarrow> Direction \<Rightarrow> u64 \<Rightarrow> error option" where
  "allowed a now0 clk dir n =
     (case (if has_clock a then clk else Inr now0) of
        Inl err \<Rightarrow> Some (ErrClock err)
      | Inr now \<Rightarrow>
          if quarantined a \<or> \<not> Enabled (policy a) \<or> r_Mode (rate_of dir (policy a)) = Blocked then Some ErrBlocked
          else if ExpiresUnixMilli (policy a) \<noteq> 0 \<and> unix_milli now \<ge> ExpiresUnixMilli (policy a) then Some ErrExpired
          else if uploaded a > maxUint64 - previouslyReserved a
              \<or> downloaded a > maxUint64 - previouslyReserved a - uploaded a
              \<or> n > maxUint64 - previouslyReserved a - uploaded a - downloaded a then Some ErrQuota
          else let tot = previouslyReserved a + uploaded a + downloaded a
          in if \<not> QuotaUnlimited (policy a) \<and> (tot > CreditCeiling (policy a) \<or> n > CreditCeiling (policy a) - tot)
             then Some ErrQuota else None)"

definition Check :: "int \<Rightarrow> int result \<Rightarrow> ('b, 'h) Account \<Rightarrow> error option" where
  "Check now clk a = allowed a now clk Upload 1"

text \<open>
  What one turn of the loop of \<open>take\<close> sees of its surroundings: the context's error, the
  time, and the readings of the account's clock at the (at most three) places that ask it.
\<close>

record Tick =
  t_ctx :: "error option"
  t_now :: int
  t_clk1 :: "int result"
  t_clk2 :: "int result"
  t_clk3 :: "int result"

datatype take_outcome = Returned "int result" | Sleep int

text \<open>The size a partial request is cut to.\<close>

definition partial_size :: "'b rate_lib \<Rightarrow> Direction \<Rightarrow> int \<Rightarrow> ('b, 'h) Account \<Rightarrow> int" where
  "partial_size L dir requested a =
     (let n1 = (if QuotaUnlimited (policy a) then requested
                else uint (min (word_of_int requested)
                  (CreditCeiling (policy a) - previouslyReserved a - uploaded a - downloaded a)))
      in case at_dir dir (buckets a) of None \<Rightarrow> n1 | Some b \<Rightarrow> min n1 (Burst L b))"

definition take_delay :: "'b rate_lib \<Rightarrow> Tick \<Rightarrow> int \<Rightarrow> 'b \<Rightarrow> ('b, 'h) Account \<Rightarrow> take_outcome" where
  "take_delay L t n l a =
     (let delay = max 1000000 (DeficitDelay L (t_now t) n l)
      in if ExpiresUnixMilli (policy a) = 0 then Sleep delay
         else case (if has_clock a then t_clk3 t else Inr (t_now t)) of
             Inl err \<Rightarrow> Returned (Inl (ErrClock err))
           | Inr expiryNow \<Rightarrow> Sleep (max (min delay (ExpiresUnixMilli (policy a) * 1000000 - expiryNow)) 1000000))"

text \<open>One turn of the loop, the critical section of the mutex; \<open>Sleep\<close> goes to the select.\<close>

definition take_once :: "'b rate_lib \<Rightarrow> ('h, 'd) persist_lib \<Rightarrow> Tick \<Rightarrow> Direction \<Rightarrow> int \<Rightarrow> bool \<Rightarrow>
    ('b, 'h) Account \<Rightarrow> 'd \<Rightarrow> take_outcome \<times> ('b, 'h) Account \<times> 'd" where
  "take_once L P t dir requested partial a d =
     (case t_ctx t of Some err \<Rightarrow> (Returned (Inl err), a, d) | None \<Rightarrow>
      case (if partial then allowed a (t_now t) (t_clk1 t) dir 1 else None) of
        Some err \<Rightarrow> (Returned (Inl err), a, d)
      | None \<Rightarrow>
          let n = (if partial then partial_size L dir requested a else requested)
          in case allowed a (t_now t) (t_clk2 t) dir (word_of_int n) of
               Some err \<Rightarrow> (Returned (Inl err), a, d)
             | None \<Rightarrow>
                 (case (case at_dir dir (buckets a) of
                          None \<Rightarrow> (True, None)
                        | Some l \<Rightarrow> map_prod id Some (AllowN L (t_now t) n l)) of
                    (True, b) \<Rightarrow>
                      let a1 = a\<lparr>buckets := set_dir dir b (buckets a)\<rparr>
                      in (case (case persistence a of
                                  None \<Rightarrow> (None, d)
                                | Some h \<Rightarrow> Reserve P h (policy a)
                                    (previouslyReserved a + uploaded a + downloaded a + word_of_int n) d) of
                            (Some err, d') \<Rightarrow> (Returned (Inl err), a1, d')
                          | (None, d') \<Rightarrow>
                              (Returned (Inr n),
                               (if dir = Upload then a1\<lparr>uploaded := uploaded a + word_of_int n\<rparr>
                                else a1\<lparr>downloaded := downloaded a + word_of_int n\<rparr>), d'))
                  | (False, None) \<Rightarrow> (Returned (Inl ErrSize), a, d)
                  | (False, Some l) \<Rightarrow>
                      let a1 = a\<lparr>buckets := set_dir dir (Some l) (buckets a)\<rparr>
                      in if n > Burst L l then (Returned (Inl ErrSize), a1, d)
                         else (take_delay L t n l a1, a1, d)))"

text \<open>
  The whole of \<open>take\<close> with nothing else touching the account: one tick for each turn;
  \<open>None\<close> when it is still asleep after the last of them.
\<close>

fun take_loop :: "'b rate_lib \<Rightarrow> ('h, 'd) persist_lib \<Rightarrow> Tick list \<Rightarrow> Direction \<Rightarrow> int \<Rightarrow> bool \<Rightarrow>
    ('b, 'h) Account \<Rightarrow> 'd \<Rightarrow> (int result \<times> ('b, 'h) Account \<times> 'd) option" where
  "take_loop L P [] dir requested partial a d = None"
| "take_loop L P (t # ts) dir requested partial a d =
     (case take_once L P t dir requested partial a d of
        (Returned r, a', d') \<Rightarrow> Some (r, a', d')
      | (Sleep _, a', d') \<Rightarrow> take_loop L P ts dir requested partial a' d')"

definition take_account :: "'b rate_lib \<Rightarrow> ('h, 'd) persist_lib \<Rightarrow> Tick list \<Rightarrow> Direction \<Rightarrow> int \<Rightarrow> bool \<Rightarrow>
    ('b, 'h) Account \<Rightarrow> 'd \<Rightarrow> (int result \<times> ('b, 'h) Account \<times> 'd) option" where
  "take_account L P ts dir requested partial a d =
     (if dir > Download \<or> requested \<le> 0 then Some (Inl ErrSize, a, d)
      else take_loop L P ts dir requested partial a d)"

definition Take :: "'b rate_lib \<Rightarrow> ('h, 'd) persist_lib \<Rightarrow> Tick list \<Rightarrow> Direction \<Rightarrow> int \<Rightarrow>
    ('b, 'h) Account \<Rightarrow> 'd \<Rightarrow> (error option \<times> ('b, 'h) Account \<times> 'd) option" where
  "Take L P ts dir n a d = map_option (map_prod (case_sum Some (\<lambda>_. None)) id) (take_account L P ts dir n False a d)"

definition TakeUpTo :: "'b rate_lib \<Rightarrow> ('h, 'd) persist_lib \<Rightarrow> Tick list \<Rightarrow> Direction \<Rightarrow> int \<Rightarrow>
    ('b, 'h) Account \<Rightarrow> 'd \<Rightarrow> (int result \<times> ('b, 'h) Account \<times> 'd) option" where
  "TakeUpTo L P ts dir n a d = take_account L P ts dir n True a d"

section \<open>Connections and writers\<close>

type_synonym bytes = "8 word list"

record Conn =
  pending :: bytes
  readErr :: "error option"

text \<open>
  \<open>Conn.Read\<close> into a slice of \<open>len\<close> bytes; \<open>rd\<close> is what the wrapped connection's
  \<open>Read\<close> returns. The result is the bytes delivered and the error.
\<close>

definition conn_Read :: "'b rate_lib \<Rightarrow> ('h, 'd) persist_lib \<Rightarrow> Tick list \<Rightarrow> nat \<Rightarrow> bytes \<times> error option \<Rightarrow>
    Conn \<Rightarrow> ('b, 'h) Account \<Rightarrow> 'd \<Rightarrow> ((bytes \<times> error option) \<times> Conn \<times> ('b, 'h) Account \<times> 'd) option" where
  "conn_Read L P ts len rd c a d =
     (if len = 0 then Some (([], None), c, a, d)
      else if pending c = [] \<and> readErr c \<noteq> None then Some (([], readErr c), c, a, d)
      else let (chunk, c1) = (if pending c \<noteq> [] then (take len (pending c), c\<lparr>pending := drop len (pending c)\<rparr>)
                              else (fst rd, c\<lparr>readErr := snd rd\<rparr>))
      in if chunk = [] then Some (([], readErr c1), c1, a, d)
         else case TakeUpTo L P ts Upload (int (length chunk)) a d of
             None \<Rightarrow> None
           | Some (Inl err, a', d') \<Rightarrow> Some (([], Some err), c1, a', d')
           | Some (Inr n, a', d') \<Rightarrow>
               let c2 = (if n < int (length chunk) then c1\<lparr>pending := drop (nat n) chunk @ pending c1\<rparr> else c1)
               in Some ((take (nat n) chunk, None), c2, Record Upload n a', d'))"

text \<open>
  The loop of \<open>Writer.Write\<close>, and of \<open>Conn.Write\<close> in the download direction. A turn is
  the ticks of its \<open>TakeUpTo\<close> and what the wrapped writer answers to a chunk of a given
  length; the result is the bytes written and the error, \<open>None\<close> if the call has not returned yet.
\<close>

type_synonym turn = "Tick list \<times> (int \<Rightarrow> int \<times> error option)"

fun write_loop :: "'b rate_lib \<Rightarrow> ('h, 'd) persist_lib \<Rightarrow> Direction \<Rightarrow> turn list \<Rightarrow> bytes \<Rightarrow> int \<Rightarrow>
    ('b, 'h) Account \<Rightarrow> 'd \<Rightarrow> ((int \<times> error option) \<times> ('b, 'h) Account \<times> 'd) option" where
  "write_loop L P dir [] data written a d =
     (if data = [] then Some ((written, None), a, d) else None)"
| "write_loop L P dir ((ts, wfn) # turns) data written a d =
     (if data = [] then Some ((written, None), a, d)
      else case TakeUpTo L P ts dir (int (length data)) a d of
          None \<Rightarrow> None
        | Some (Inl e, a', d') \<Rightarrow> Some ((written, Some e), a', d')
        | Some (Inr n, a', d') \<Rightarrow>
            let (actual, err) = wfn n;
                a'' = Record dir actual a'
            in if err \<noteq> None then Some ((written + actual, err), a'', d')
               else if actual \<noteq> n then Some ((written + actual, Some ErrShortWrite), a'', d')
               else write_loop L P dir turns (drop (nat actual) data) (written + actual) a'' d')"

definition writer_Write :: "'b rate_lib \<Rightarrow> ('h, 'd) persist_lib \<Rightarrow> Direction \<Rightarrow> turn list \<Rightarrow> bytes \<Rightarrow>
    ('b, 'h) Account \<Rightarrow> 'd \<Rightarrow> ((int \<times> error option) \<times> ('b, 'h) Account \<times> 'd) option" where
  "writer_Write L P dir turns data a d = write_loop L P dir turns data 0 a d"

definition conn_Write :: "'b rate_lib \<Rightarrow> ('h, 'd) persist_lib \<Rightarrow> turn list \<Rightarrow> bytes \<Rightarrow>
    ('b, 'h) Account \<Rightarrow> 'd \<Rightarrow> ((int \<times> error option) \<times> ('b, 'h) Account \<times> 'd) option" where
  "conn_Write L P turns data a d = write_loop L P Download turns data 0 a d"

section \<open>Statements\<close>

text \<open>What the rate limiter documents: its burst, which only \<open>SetBurstAt\<close> changes.\<close>

definition limiter_ok :: "'b rate_lib \<Rightarrow> bool" where
  "limiter_ok L \<longleftrightarrow> (\<forall>bps b. Burst L (NewLimiter L bps b) = b) \<and> (\<forall>t n l. Burst L (snd (AllowN L t n l)) = Burst L l)
     \<and> (\<forall>t bps l. Burst L (SetLimitAt L t bps l) = Burst L l) \<and> (\<forall>t b l. Burst L (SetBurstAt L t b l) = b)"

definition spent :: "('b, 'h) Account \<Rightarrow> nat" where
  "spent a = unat (previouslyReserved a) + unat (uploaded a) + unat (downloaded a)"

definition bucket_ok :: "'b rate_lib \<Rightarrow> Rate \<Rightarrow> 'b option \<Rightarrow> bool" where
  "bucket_ok L r b = (case b of None \<Rightarrow> r_Mode r \<noteq> Limited | Some l \<Rightarrow> r_Mode r = Limited \<and> Burst L l = BurstBytes r)"

definition account_ok :: "'b rate_lib \<Rightarrow> ('b, 'h) Account \<Rightarrow> bool" where
  "account_ok L a \<longleftrightarrow> validate (policy a) = None \<and> spent a < 2 ^ 64
     \<and> fst (measured a) \<le> uploaded a \<and> snd (measured a) \<le> downloaded a
     \<and> bucket_ok L (p_Upload (policy a)) (fst (buckets a)) \<and> bucket_ok L (p_Download (policy a)) (snd (buckets a))"

text \<open>Spending within credit, for a grant whose credit carries revisions.\<close>

definition within_credit :: "('b, 'h) Account \<Rightarrow> bool" where
  "within_credit a \<longleftrightarrow> CreditRevision (policy a) \<noteq> 0 \<and> \<not> QuotaUnlimited (policy a) \<and> AuthorityRevision (policy a) \<noteq> 0
     \<and> spent a \<le> unat (CreditCeiling (policy a))"

text \<open>Any operation of any user of the account, one critical section at a time.\<close>

inductive account_step :: "'b rate_lib \<Rightarrow> ('h, 'd) persist_lib \<Rightarrow> ('b, 'h) Account \<times> 'd \<Rightarrow> ('b, 'h) Account \<times> 'd \<Rightarrow> bool"
  for L P where
  step_clock: "account_step L P (a, d) (SetClock c a, d)"
| step_quarantine: "account_step L P (a, d) (Quarantine a, d)"
| step_record: "n < 2 ^ 63 \<Longrightarrow> account_step L P (a, d) (Record dir n a, d)"
| step_apply: "Apply L P now p a d = (r, a', d') \<Longrightarrow> account_step L P (a, d) (a', d')"
| step_authority: "ApplyAuthority L P now clk p a d = (r, a', d') \<Longrightarrow> account_step L P (a, d) (a', d')"
| step_credit: "ApplyCredit L P now clk term prev crev ceil a d = (r, a', d') \<Longrightarrow> account_step L P (a, d) (a', d')"
| step_take: "dir \<le> Download \<Longrightarrow> 0 < n \<Longrightarrow> n < 2 ^ 63 \<Longrightarrow>
    take_once L P t dir n partial a d = (out, a', d') \<Longrightarrow> account_step L P (a, d) (a', d')"
| step_other: "account_step L P (a, d) (a, d')"

section \<open>Admission: lemmas\<close>

lemma dir_simps [simp]:
  "at_dir Upload x = fst x" "at_dir Download x = snd x"
  "set_dir Upload v x = (v, snd x)" "set_dir Download v x = (fst x, v)"
  by (simp_all add: at_dir_def set_dir_def)

lemma at_set_dir [simp]: "at_dir dir (set_dir dir v x) = v"
  by (simp add: at_dir_def set_dir_def)

lemma dir_cases: "(dir :: Direction) \<le> Download \<Longrightarrow> dir = Upload \<or> dir = Download"
  by (metis le_less word_less_1)

lemma rate_of_simps [simp]: "rate_of Upload p = p_Upload p" "rate_of Download p = p_Download p"
  by (simp_all add: rate_of_def)

lemma fits_in_uint64:
  fixes x y z n :: u64
  shows "\<not> (y > maxUint64 - x \<or> z > maxUint64 - x - y \<or> n > maxUint64 - x - y - z)
    \<longleftrightarrow> unat x + unat y + unat z + unat n < 2 ^ 64"
proof -
  have a: "maxUint64 - x - y = maxUint64 - (x + y)" "maxUint64 - (x + y) - z = maxUint64 - (x + y + z)"
    by (simp_all add: algebra_simps)
  show ?thesis
  proof (cases "unat x + unat y < 2 ^ 64")
    case True
    note xy = unat_add_fits [OF True]
    show ?thesis
    proof (cases "unat x + unat y + unat z < 2 ^ 64")
      case True
      have "unat (x + y + z) = unat x + unat y + unat z"
        using unat_add_fits [of "x + y" z] True xy by simp
      with True xy \<open>unat x + unat y < 2 ^ 64\<close> show ?thesis
        unfolding a de_Morgan_disj not_less word_fits_iff by simp
    qed (simp add: a word_overflows_iff xy)
  qed (simp add: word_overflows_iff)
qed

lemma allowed_None:
  "allowed a now0 clk dir n = None \<longleftrightarrow>
    (\<exists>now. (if has_clock a then clk else Inr now0) = Inr now \<and> \<not> quarantined a \<and> Enabled (policy a)
       \<and> r_Mode (rate_of dir (policy a)) \<noteq> Blocked
       \<and> (ExpiresUnixMilli (policy a) \<noteq> 0 \<longrightarrow> unix_milli now < ExpiresUnixMilli (policy a)))
    \<and> spent a + unat n < 2 ^ 64
    \<and> (\<not> QuotaUnlimited (policy a) \<longrightarrow> spent a + unat n \<le> unat (CreditCeiling (policy a)))"
proof -
  let ?x = "previouslyReserved a" and ?y = "uploaded a" and ?z = "downloaded a" and ?c = "CreditCeiling (policy a)"
  have tot: "unat (?x + ?y + ?z) = spent a" if "spent a + unat n < 2 ^ 64"
    using that by (simp add: spent_def unat_add_fits)
  have cr: "\<not> (?x + ?y + ?z > ?c \<or> n > ?c - (?x + ?y + ?z)) \<longleftrightarrow> spent a + unat n \<le> unat ?c"
    if "spent a + unat n < 2 ^ 64"
    using tot [OF that] unat_sub [of "?x + ?y + ?z" ?c]
    by (auto simp: word_le_nat_alt not_less word_less_nat_alt)
  have fit: "\<not> (?y > maxUint64 - ?x \<or> ?z > maxUint64 - ?x - ?y \<or> n > maxUint64 - ?x - ?y - ?z)
      \<longleftrightarrow> spent a + unat n < 2 ^ 64"
    unfolding spent_def by (rule fits_in_uint64)
  show ?thesis
  proof (cases "if has_clock a then clk else Inr now0")
    case (Inr now)
    have "allowed a now0 clk dir n = None \<longleftrightarrow>
        \<not> (quarantined a \<or> \<not> Enabled (policy a) \<or> r_Mode (rate_of dir (policy a)) = Blocked)
        \<and> \<not> (ExpiresUnixMilli (policy a) \<noteq> 0 \<and> unix_milli now \<ge> ExpiresUnixMilli (policy a))
        \<and> \<not> (?y > maxUint64 - ?x \<or> ?z > maxUint64 - ?x - ?y \<or> n > maxUint64 - ?x - ?y - ?z)
        \<and> (QuotaUnlimited (policy a) \<or> \<not> (?x + ?y + ?z > ?c \<or> n > ?c - (?x + ?y + ?z)))"
      unfolding allowed_def Inr Let_def sum.case by (simp only: guard_None) blast
    then show ?thesis using cr unfolding fit Inr by auto
  qed (simp add: allowed_def)
qed

lemma partial_size_bounds:
  assumes "limiter_ok L" and ok: "account_ok L a" and req: "0 < requested" "requested < 2 ^ 63" and dir: "dir \<le> Download"
    and al: "allowed a now clk dir 1 = None"
  shows "1 \<le> partial_size L dir requested a \<and> partial_size L dir requested a \<le> requested
    \<and> (\<not> QuotaUnlimited (policy a) \<longrightarrow> int (spent a) + partial_size L dir requested a \<le> uint (CreditCeiling (policy a)))"
proof -
  let ?c = "CreditCeiling (policy a)" and ?s = "previouslyReserved a + uploaded a + downloaded a"
  let ?n = "if QuotaUnlimited (policy a) then requested
      else uint (min (word_of_int requested) (?c - previouslyReserved a - uploaded a - downloaded a))"
  have sp: "unat ?s = spent a"
    using ok by (simp add: account_ok_def spent_def unat_add_fits)
  have n: "1 \<le> ?n \<and> ?n \<le> requested \<and> (\<not> QuotaUnlimited (policy a) \<longrightarrow> int (spent a) + ?n \<le> uint ?c)"
  proof (cases "QuotaUnlimited (policy a)")
    case False
    have le: "spent a + 1 \<le> unat ?c" using al False by (simp add: allowed_None)
    have d: "?c - previouslyReserved a - uploaded a - downloaded a = ?c - ?s" by (simp add: algebra_simps)
    have "?s \<le> ?c" using le sp by (simp add: word_le_nat_alt)
    then have "unat (?c - ?s) = unat ?c - spent a" using sp by (simp add: unat_sub)
    then have u: "uint (?c - ?s) = uint ?c - int (spent a)" "int (spent a) < uint ?c"
      using le by (simp_all only: uint_nat)
    have "uint (word_of_int requested :: u64) = requested" using req by (simp add: uint_of_int_u64)
    then have "uint (min (word_of_int requested) (?c - ?s)) = min requested (uint ?c - int (spent a))"
      using u by (simp add: min_def word_le_def)
    then show ?thesis using False req u by (simp add: d)
  qed (use req in simp)
  have b: "1 \<le> Burst L l" if "at_dir dir (buckets a) = Some l" for l
    using dir_cases [OF dir] that ok
    by (auto simp: account_ok_def bucket_ok_def validate_def validate_rate_def split: if_splits)
  show ?thesis
    using n b by (cases "at_dir dir (buckets a)") (auto simp: partial_size_def Let_def)
qed

definition used_bucket :: "'b rate_lib \<Rightarrow> int \<Rightarrow> int \<Rightarrow> Direction \<Rightarrow> 'b option \<times> 'b option \<Rightarrow> 'b option \<times> 'b option" where
  "used_bucket L now n dir bs = set_dir dir (map_option (\<lambda>l. snd (AllowN L now n l)) (at_dir dir bs)) bs"

definition admit :: "Direction \<Rightarrow> int \<Rightarrow> ('b, 'h) Account \<Rightarrow> ('b, 'h) Account" where
  "admit dir n a = (if dir = Upload then a\<lparr>uploaded := uploaded a + word_of_int n\<rparr>
     else a\<lparr>downloaded := downloaded a + word_of_int n\<rparr>)"

definition reserve_call :: "('h, 'd) persist_lib \<Rightarrow> ('b, 'h) Account \<Rightarrow> int \<Rightarrow> 'd \<Rightarrow> error option \<times> 'd" where
  "reserve_call P a n d = (case persistence a of None \<Rightarrow> (None, d)
     | Some h \<Rightarrow> Reserve P h (policy a) (previouslyReserved a + uploaded a + downloaded a + word_of_int n) d)"

lemma take_once_eq:
  "take_once L P t dir requested partial a d =
    (let n = (if partial then partial_size L dir requested a else requested);
         a1 = a\<lparr>buckets := used_bucket L (t_now t) n dir (buckets a)\<rparr>
     in if t_ctx t \<noteq> None then (Returned (Inl (the (t_ctx t))), a, d)
        else if partial \<and> allowed a (t_now t) (t_clk1 t) dir 1 \<noteq> None
          then (Returned (Inl (the (allowed a (t_now t) (t_clk1 t) dir 1))), a, d)
        else if allowed a (t_now t) (t_clk2 t) dir (word_of_int n) \<noteq> None
          then (Returned (Inl (the (allowed a (t_now t) (t_clk2 t) dir (word_of_int n)))), a, d)
        else if at_dir dir (buckets a) = None \<or> fst (AllowN L (t_now t) n (the (at_dir dir (buckets a))))
          then (case reserve_call P a n d of
                  (Some err, d') \<Rightarrow> (Returned (Inl err), a1, d')
                | (None, d') \<Rightarrow> (Returned (Inr n), admit dir n a1, d'))
        else let l = the (at_dir dir (used_bucket L (t_now t) n dir (buckets a)))
          in if n > Burst L l then (Returned (Inl ErrSize), a1, d) else (take_delay L t n l a1, a1, d))"
proof -
  let ?n = "if partial then partial_size L dir requested a else requested"
  obtain b where b: "at_dir dir (buckets a) = b" by simp
  have id: "set_dir dir None (buckets a) = buckets a" if "b = None"
    using that b by (cases "buckets a") (auto simp: set_dir_def at_dir_def split: if_splits)
  obtain r d' where r: "reserve_call P a ?n d = (r, d')" by (cases "reserve_call P a ?n d")
  show ?thesis
  proof (cases "t_ctx t")
    case (Some e)
    then show ?thesis by (simp add: take_once_def Let_def)
  next
    case ctx: None
    show ?thesis
    proof (cases "if partial then allowed a (t_now t) (t_clk1 t) dir 1 else None")
      case (Some e)
      then show ?thesis using ctx by (simp add: take_once_def Let_def split: if_splits)
    next
      case al1: None
      show ?thesis
      proof (cases "allowed a (t_now t) (t_clk2 t) dir (word_of_int ?n)")
        case (Some e)
        then show ?thesis using ctx al1 by (simp only: take_once_def Let_def) (auto split: if_splits)
      next
        case al2: None
        have nal: "\<not> (partial \<and> allowed a (t_now t) (t_clk1 t) dir 1 \<noteq> None)" using al1 by auto
        show ?thesis
        proof (cases b)
          case None
          have used: "used_bucket L now m dir (buckets a) = buckets a" for now m
            by (simp add: used_bucket_def b None id [OF None])
          show ?thesis
            unfolding take_once_def Let_def ctx al1 al2 option.case b None reserve_call_def [symmetric] r
              used if_not_P [OF nal] prod.case bool.case id [OF None]
            by (cases r) (simp_all add: admit_def)
        next
          case (Some l)
          obtain p l' where p: "AllowN L (t_now t) ?n l = (p, l')" by (cases "AllowN L (t_now t) ?n l")
          show ?thesis
            unfolding take_once_def Let_def ctx al1 al2 option.case b Some reserve_call_def [symmetric] r p
              if_not_P [OF nal]
            by (cases r; cases p) (simp_all add: used_bucket_def b Some p admit_def)
        qed
      qed
    qed
  qed
qed

lemma take_delay_no_value: "take_delay L t n l a \<noteq> Returned (Inr m)"
  by (auto simp: take_delay_def Let_def split: sum.splits if_splits)

lemma take_once_refused:
  assumes "take_once L P t dir requested partial a d = (out, a', d')" and "\<And>n. out \<noteq> Returned (Inr n)"
  obtains n where "a' = a \<or> a' = a\<lparr>buckets := used_bucket L (t_now t) n dir (buckets a)\<rparr>"
  using assms unfolding take_once_eq Let_def
  by (auto split: if_splits option.splits prod.splits)

lemma take_once_admitted:
  assumes "take_once L P t dir requested partial a d = (Returned (Inr n), a', d')"
  shows "n = (if partial then partial_size L dir requested a else requested) \<and> t_ctx t = None
    \<and> (partial \<longrightarrow> allowed a (t_now t) (t_clk1 t) dir 1 = None)
    \<and> allowed a (t_now t) (t_clk2 t) dir (word_of_int n) = None
    \<and> reserve_call P a n d = (None, d')
    \<and> a' = admit dir n (a\<lparr>buckets := used_bucket L (t_now t) n dir (buckets a)\<rparr>)"
  using assms take_delay_no_value unfolding take_once_eq Let_def
  by (force split: if_splits option.splits prod.splits)

lemma admit_fields [simp]:
  "policy (admit dir n a) = policy a" "buckets (admit dir n a) = buckets a" "measured (admit dir n a) = measured a"
  "quarantined (admit dir n a) = quarantined a" "persistence (admit dir n a) = persistence a"
  "previouslyReserved (admit dir n a) = previouslyReserved a" "has_clock (admit dir n a) = has_clock a"
  by (simp_all add: admit_def)

lemma spent_admit:
  assumes "spent a + unat (word_of_int n :: u64) < 2 ^ 64"
  shows "spent (admit dir n a) = spent a + unat (word_of_int n :: u64)"
    "uploaded a \<le> uploaded (admit dir n a)" "downloaded a \<le> downloaded (admit dir n a)"
proof -
  have "unat (uploaded a + word_of_int n) = unat (uploaded a) + unat (word_of_int n :: u64)"
    "unat (downloaded a + word_of_int n) = unat (downloaded a) + unat (word_of_int n :: u64)"
    using assms by (simp_all add: spent_def unat_add_fits)
  then show "spent (admit dir n a) = spent a + unat (word_of_int n :: u64)"
    "uploaded a \<le> uploaded (admit dir n a)" "downloaded a \<le> downloaded (admit dir n a)"
    by (simp_all add: admit_def spent_def word_le_nat_alt)
qed

lemma spent_cong [simp]: "spent (a\<lparr>buckets := b\<rparr>) = spent a"
  by (simp add: spent_def)

lemma take_once_within:
  assumes L: "limiter_ok L" and ok: "account_ok L a" and req: "0 < requested" "requested < 2 ^ 63" and dir: "dir \<le> Download"
    and take: "take_once L P t dir requested partial a d = (Returned (Inr n), a', d')"
  shows "1 \<le> n \<and> n \<le> requested \<and> spent a' = spent a + nat n \<and> spent a' < 2 ^ 64
    \<and> (\<not> QuotaUnlimited (policy a) \<longrightarrow> spent a' \<le> unat (CreditCeiling (policy a)))
    \<and> uploaded a \<le> uploaded a' \<and> downloaded a \<le> downloaded a'"
proof -
  note t = take_once_admitted [OF take]
  have n: "1 \<le> n \<and> n \<le> requested"
    using t req partial_size_bounds [OF L ok req dir] by (cases partial) auto
  then have u: "unat (word_of_int n :: u64) = nat n" using req by (intro unat_of_int_u64) auto
  have al: "spent a + nat n < 2 ^ 64" "\<not> QuotaUnlimited (policy a) \<longrightarrow> spent a + nat n \<le> unat (CreditCeiling (policy a))"
    using t u by (auto simp: allowed_None)
  let ?a = "a\<lparr>buckets := used_bucket L (t_now t) n dir (buckets a)\<rparr>"
  note s = spent_admit [of ?a n dir, unfolded u, simplified]
  show ?thesis using n al s t by simp
qed

lemma bucket_ok_used:
  assumes "limiter_ok L" and "bucket_ok L (p_Upload p) (fst bs) \<and> bucket_ok L (p_Download p) (snd bs)"
  shows "bucket_ok L (p_Upload p) (fst (used_bucket L now n dir bs)) \<and> bucket_ok L (p_Download p) (snd (used_bucket L now n dir bs))"
  using assms
  by (cases "fst bs"; cases "snd bs") (auto simp: used_bucket_def bucket_ok_def limiter_ok_def set_dir_def at_dir_def)

lemma account_ok_take:
  assumes L: "limiter_ok L" and ok: "account_ok L a" and req: "0 < requested" "requested < 2 ^ 63" and dir: "dir \<le> Download"
    and take: "take_once L P t dir requested partial a d = (out, a', d')"
  shows "account_ok L a'"
proof (cases "\<exists>n. out = Returned (Inr n)")
  case True
  then obtain n where t: "take_once L P t dir requested partial a d = (Returned (Inr n), a', d')" using take by auto
  note w = take_once_within [OF L ok req dir t] and ad = take_once_admitted [OF t]
  show ?thesis
    using ok w ad bucket_ok_used [OF L, of "policy a" "buckets a"]
    by (auto simp: account_ok_def admit_def split: if_splits intro: order_trans)
next
  case False
  with take_once_refused [OF take] obtain n where
    "a' = a \<or> a' = a\<lparr>buckets := used_bucket L (t_now t) n dir (buckets a)\<rparr>" by metis
  then show ?thesis using ok bucket_ok_used [OF L, of "policy a" "buckets a"] by (auto simp: account_ok_def)
qed

section \<open>Policy updates: lemmas\<close>

lemma bucket_ok_apply_rate:
  "limiter_ok L \<Longrightarrow> bucket_ok L old b \<Longrightarrow> bucket_ok L next (apply_rate L now old next b)"
  by (cases b) (auto simp: bucket_ok_def apply_rate_def bucket_def limiter_ok_def)

lemma applyLocked_cases:
  assumes "applyLocked L P now p a d = (r, a', d')"
  shows "(r \<noteq> None \<longrightarrow> a' = a)
    \<and> (r = None \<longrightarrow> apply_refused (policy a) p = None
       \<and> (a' = a \<and> p = policy a \<or> a' = a\<lparr>buckets := (apply_rate L now (p_Upload (policy a)) (p_Upload p) (fst (buckets a)),
             apply_rate L now (p_Download (policy a)) (p_Download p) (snd (buckets a))), policy := p, changed := changed a + 1\<rparr>))"
  using assms unfolding applyLocked_def
  by (auto split: option.splits if_splits prod.splits)

lemma spent_policy [simp]: "spent (a\<lparr>buckets := b, policy := p, changed := n\<rparr>) = spent a"
  by (simp add: spent_def)

lemma account_ok_apply:
  assumes "limiter_ok L" and "account_ok L a" and "validate p = None"
    and "applyLocked L P now p a d = (r, a', d')"
  shows "account_ok L a'"
  using applyLocked_cases [OF assms(4)] assms(1-3)
  by (cases r) (auto simp: account_ok_def intro: bucket_ok_apply_rate)

lemma validate_credit:
  "validate p = None \<Longrightarrow> \<not> QuotaUnlimited p \<Longrightarrow> validate (p\<lparr>CreditRevision := c, CreditCeiling := k\<rparr>) = None"
  by (auto simp: validate_def split: if_splits)

lemma MergeAuthority_merged:
  assumes "MergeAuthority cur des = Inr m" and "validate cur = None"
  shows "validate m = None" "m = cur \<or> AuthorityAdvance cur m"
    "CreditRevision cur \<le> CreditRevision m" "CreditCeiling cur \<le> CreditCeiling m" "Enabled m \<longrightarrow> Enabled cur"
    "m = des \<or> m = des\<lparr>CreditRevision := CreditRevision cur, CreditCeiling := CreditCeiling cur\<rparr>"
    "Term m = Term cur" "Revision m = Revision cur" "QuotaUnlimited m = QuotaUnlimited cur"
    "ExpiresUnixMilli m = ExpiresUnixMilli cur"
proof -
  let ?k = "des\<lparr>CreditRevision := CreditRevision cur, CreditCeiling := CreditCeiling cur\<rparr>"
  have c: "validate des = None" "Term des = Term cur" "Revision des = Revision cur"
    "ExpiresUnixMilli des = ExpiresUnixMilli cur" "QuotaUnlimited des = QuotaUnlimited cur" "Enabled des \<longrightarrow> Enabled cur"
    "m = (if CreditRevision des < CreditRevision cur then ?k else des)" and adv: "m = cur \<or> AuthorityAdvance cur m"
    using assms(1) unfolding MergeAuthority_def Let_def by (auto split: if_splits option.splits)
  show "m = cur \<or> AuthorityAdvance cur m" by (fact adv)
  show "validate m = None"
    using c assms(2) by (auto simp: validate_def split: if_splits)
  show "CreditRevision cur \<le> CreditRevision m" "CreditCeiling cur \<le> CreditCeiling m"
    using adv by (auto simp: AuthorityAdvance_def split: if_splits)
  show "Enabled m \<longrightarrow> Enabled cur" "m = des \<or> m = ?k" "Term m = Term cur" "Revision m = Revision cur"
    "QuotaUnlimited m = QuotaUnlimited cur" "ExpiresUnixMilli m = ExpiresUnixMilli cur"
    using c by auto
qed

lemma ApplyAuthority_cases:
  assumes "ApplyAuthority L P now clk des a d = (r, a', d')"
  shows "a' = a \<or> (\<exists>m. MergeAuthority (policy a) des = Inr m \<and> applyLocked L P now m a d = (r, a', d'))"
  using assms unfolding ApplyAuthority_def by (auto split: if_splits sum.splits option.splits)

lemma ApplyCredit_cases:
  assumes "ApplyCredit L P now clk term prev crev ceil a d = (r, a', d')"
  shows "a' = a \<or> (\<not> QuotaUnlimited (policy a) \<and>
    applyLocked L P now ((policy a)\<lparr>CreditRevision := crev, CreditCeiling := ceil\<rparr>) a d = (r, a', d'))"
  using assms unfolding ApplyCredit_def Let_def
  by (auto simp: CreditAdvance_def split: if_splits sum.splits)

lemma Record_ok:
  assumes ok: "account_ok L a" and n: "n < 2 ^ 63"
  shows "account_ok L (Record dir n a)" "spent (Record dir n a) = spent a" "policy (Record dir n a) = policy a"
proof -
  have le: "m + min w (x - m) \<le> x" if "m \<le> x" for m w x :: u64
  proof -
    have "unat (min w (x - m)) \<le> unat (x - m)" by (simp add: min_def word_le_nat_alt)
    also have "\<dots> = unat x - unat m" using that by (simp add: unat_sub)
    finally have b: "unat (min w (x - m)) \<le> unat x - unat m" .
    then have "unat m + unat (min w (x - m)) < 2 ^ 64" using that unat_u64_less [of x] by (simp add: word_le_nat_alt)
    from unat_add_fits [OF this] b that show ?thesis by (simp add: word_le_nat_alt)
  qed
  show "spent (Record dir n a) = spent a" "policy (Record dir n a) = policy a"
    by (simp_all add: Record_def Let_def spent_def)
  show "account_ok L (Record dir n a)"
  proof (cases "dir > Download \<or> n \<le> 0")
    case False
    then have "dir = Upload \<or> dir = Download" using dir_cases [of dir] by auto
    then show ?thesis
      using ok False by (auto simp: Record_def Let_def account_ok_def spent_def intro: le)
  qed (simp add: Record_def ok)
qed

lemma account_ok_step:
  assumes L: "limiter_ok L" and step: "account_step L P x y" and ok: "account_ok L (fst x)"
  shows "account_ok L (fst y)"
  using step
proof cases
  case (step_clock a d c)
  then show ?thesis using ok by (simp add: SetClock_def account_ok_def spent_def)
next
  case (step_quarantine a d)
  then show ?thesis using ok by (simp add: Quarantine_def account_ok_def spent_def)
next
  case (step_record n a d dir)
  then show ?thesis using ok Record_ok(1) by simp
next
  case (step_apply now p a d r a' d')
  then show ?thesis
    using ok account_ok_apply [OF L] by (auto simp: Apply_def split: option.splits)
next
  case (step_authority now clk p a d r a' d')
  with ok have v: "validate (policy a) = None" by (simp add: account_ok_def)
  from ApplyAuthority_cases [OF step_authority(3)] consider "a' = a"
    | m where "MergeAuthority (policy a) p = Inr m" "applyLocked L P now m a d = (r, a', d')" by blast
  then have "account_ok L a'"
  proof cases
    case (2 m)
    show ?thesis
      by (rule account_ok_apply [OF L _ MergeAuthority_merged(1) [OF 2(1) v] 2(2)]) (use ok step_authority(1) in simp)
  qed (use ok step_authority(1) in simp)
  then show ?thesis using step_authority(2) by simp
next
  case (step_credit now clk trm prev crev k a d r a' d')
  with ok have v: "validate (policy a) = None" by (simp add: account_ok_def)
  from ApplyCredit_cases [OF step_credit(3)] have "account_ok L a'"
  proof (elim disjE conjE)
    assume c: "\<not> QuotaUnlimited (policy a)"
      "applyLocked L P now ((policy a)\<lparr>CreditRevision := crev, CreditCeiling := k\<rparr>) a d = (r, a', d')"
    show ?thesis
      by (rule account_ok_apply [OF L _ validate_credit [OF v c(1)] c(2)]) (use ok step_credit(1) in simp)
  qed (use ok step_credit(1) in simp)
  then show ?thesis using step_credit(2) by simp
next
  case (step_take dir n t partial a d out a' d')
  then show ?thesis using ok account_ok_take [OF L _ _ _ _ step_take(6)] by simp
next
  case (step_other a d d')
  then show ?thesis using ok by simp
qed

lemma applyLocked_error:
  "applyLocked L P now p a d = (Some e, a', d') \<Longrightarrow> a' = a"
  by (drule applyLocked_cases) simp

definition policy_only :: "('b, 'h) Account \<Rightarrow> ('b, 'h) Account \<Rightarrow> bool" where
  "policy_only a a' \<longleftrightarrow> policy a' = policy a \<or> apply_refused (policy a) (policy a') = None \<and> spent a' = spent a
     \<and> uploaded a' = uploaded a \<and> downloaded a' = downloaded a \<and> quarantined a' = quarantined a"

lemma policy_only_locked:
  assumes "applyLocked L P now p a d = (r, a', d')"
  shows "policy_only a a'"
proof (cases r)
  case None
  with applyLocked_cases [OF assms] show ?thesis by (auto simp: policy_only_def)
next
  case (Some e)
  from applyLocked_error [OF assms [unfolded Some]] show ?thesis by (simp add: policy_only_def)
qed

lemma policy_only_take:
  assumes "take_once L P t dir n partial a d = (out, a', d')"
  shows "policy a' = policy a"
proof (cases "\<exists>m. out = Returned (Inr m)")
  case True
  then show ?thesis using take_once_admitted assms by fastforce
next
  case False
  with take_once_refused [OF assms] obtain m where
    "a' = a \<or> a' = a\<lparr>buckets := used_bucket L (t_now t) m dir (buckets a)\<rparr>" by metis
  then show ?thesis by auto
qed

lemma policy_only_step:
  assumes "account_step L P (a, d) (a', d')"
  shows "policy_only a a'"
  using assms
proof cases
  case (step_take dir n t partial out)
  from policy_only_take [OF this(4)] show ?thesis by (simp add: policy_only_def)
next
  case (step_apply now p r)
  then have "a' = a \<or> applyLocked L P now p a d = (r, a', d')" by (auto simp: Apply_def split: option.splits)
  then show ?thesis by (elim disjE) (simp add: policy_only_def, erule policy_only_locked)
next
  case (step_authority now clk p r)
  from ApplyAuthority_cases [OF this] show ?thesis
    by (elim disjE exE conjE) (simp add: policy_only_def, erule policy_only_locked)
next
  case (step_credit now clk trm prev crev k r)
  from ApplyCredit_cases [OF this] show ?thesis
    by (elim disjE conjE) (simp add: policy_only_def, erule policy_only_locked)
qed (auto simp: policy_only_def SetClock_def Quarantine_def Record_def Let_def)

lemma apply_refused_None:
  assumes "apply_refused cur p = None"
  shows "Term p = Term cur" "Revision cur \<le> Revision p" "AuthorityRevision cur \<le> AuthorityRevision p"
    "CreditRevision cur \<le> CreditRevision p"
    "CreditRevision cur \<noteq> 0 \<or> CreditRevision p \<noteq> 0 \<Longrightarrow> CreditCeiling cur \<le> CreditCeiling p"
    "AuthorityRevision cur \<noteq> 0 \<or> AuthorityRevision p \<noteq> 0 \<Longrightarrow> QuotaUnlimited p = QuotaUnlimited cur"
  using assms unfolding apply_refused_def guard_None by (auto simp: not_less)

definition progress :: "('b, 'h) Account \<Rightarrow> ('b, 'h) Account \<Rightarrow> bool" where
  "progress a a' \<longleftrightarrow> Term (policy a') = Term (policy a) \<and> Revision (policy a) \<le> Revision (policy a')
     \<and> AuthorityRevision (policy a) \<le> AuthorityRevision (policy a')
     \<and> CreditRevision (policy a) \<le> CreditRevision (policy a')
     \<and> (CreditRevision (policy a) \<noteq> 0 \<longrightarrow> CreditCeiling (policy a) \<le> CreditCeiling (policy a'))
     \<and> (quarantined a \<longrightarrow> quarantined a') \<and> uploaded a \<le> uploaded a' \<and> downloaded a \<le> downloaded a'"

lemma progress_trans: "progress a b \<Longrightarrow> progress b c \<Longrightarrow> progress a c"
  unfolding progress_def by (auto intro: order_trans)

lemma locked_fields:
  assumes "applyLocked L P now p a d = (r, a', d')"
  shows "uploaded a' = uploaded a \<and> downloaded a' = downloaded a \<and> quarantined a' = quarantined a \<and> spent a' = spent a"
  using applyLocked_cases [OF assms] by (cases r) auto

lemma take_fields:
  assumes "limiter_ok L" "account_ok L a" "0 < n" "n < 2 ^ 63" "dir \<le> Download"
    and "take_once L P t dir n partial a d = (out, a', d')"
  shows "uploaded a \<le> uploaded a' \<and> downloaded a \<le> downloaded a' \<and> quarantined a' = quarantined a"
proof (cases "\<exists>m. out = Returned (Inr m)")
  case True
  then obtain m where out: "out = Returned (Inr m)" by auto
  note t = take_once_within [OF assms(1-5) assms(6) [unfolded out]]
  show ?thesis using t take_once_admitted [OF assms(6) [unfolded out]] by simp
next
  case False
  with take_once_refused [OF assms(6)] obtain m where
    "a' = a \<or> a' = a\<lparr>buckets := used_bucket L (t_now t) m dir (buckets a)\<rparr>" by metis
  then show ?thesis by auto
qed

lemma counters_step:
  assumes L: "limiter_ok L" "account_ok L a" and step: "account_step L P (a, d) (a', d')"
  shows "uploaded a \<le> uploaded a' \<and> downloaded a \<le> downloaded a' \<and> (quarantined a \<longrightarrow> quarantined a')"
  using step
proof cases
  case (step_take dir n t partial out)
  from take_fields [OF L this(2,3,1,4)] show ?thesis by simp
next
  case (step_apply now p r)
  then have "a' = a \<or> applyLocked L P now p a d = (r, a', d')" by (auto simp: Apply_def split: option.splits)
  then show ?thesis by (elim disjE) (simp, drule locked_fields, simp)
next
  case (step_authority now clk p r)
  from ApplyAuthority_cases [OF this] show ?thesis
    by (elim disjE exE conjE) (simp, drule locked_fields, simp)
next
  case (step_credit now clk trm prev crev k r)
  from ApplyCredit_cases [OF this] show ?thesis
    by (elim disjE conjE) (simp, drule locked_fields, simp)
qed (auto simp: SetClock_def Quarantine_def Record_def Let_def)

lemma progress_step:
  assumes "limiter_ok L" and "account_ok L a" and "account_step L P (a, d) (a', d')"
  shows "progress a a'"
proof -
  note c = counters_step [OF assms]
  from policy_only_step [OF assms(3)] consider "policy a' = policy a" | "apply_refused (policy a) (policy a') = None"
    unfolding policy_only_def by auto
  then show ?thesis
  proof cases
    case 2
    show ?thesis using c apply_refused_None [OF 2] by (simp add: progress_def)
  qed (use c in \<open>simp add: progress_def\<close>)
qed

lemma within_credit_step:
  assumes L: "limiter_ok L" "account_ok L a" and step: "account_step L P (a, d) (a', d')" and w: "within_credit a"
  shows "within_credit a'"
proof -
  from policy_only_step [OF step] consider (same) "policy a' = policy a"
    | (upd) "apply_refused (policy a) (policy a') = None" "spent a' = spent a"
    unfolding policy_only_def by auto
  then show ?thesis
  proof cases
    case upd
    note r = apply_refused_None [OF upd(1)]
    have "CreditCeiling (policy a) \<le> CreditCeiling (policy a')" "QuotaUnlimited (policy a') = QuotaUnlimited (policy a)"
      using r(5,6) w by (auto simp: within_credit_def)
    moreover have "CreditRevision (policy a') \<noteq> 0" "AuthorityRevision (policy a') \<noteq> 0"
      using r(3,4) w by (auto simp: within_credit_def)
    ultimately show ?thesis using w upd(2) by (auto simp: within_credit_def word_le_nat_alt)
  next
    case same
    have "spent a' \<le> spent a \<or> spent a' \<le> unat (CreditCeiling (policy a))"
      using step
    proof cases
      case (step_take dir n t partial out)
      show ?thesis
      proof (cases "\<exists>m. out = Returned (Inr m)")
        case True
        then obtain m where out: "out = Returned (Inr m)" by auto
        from take_once_within [OF L step_take(2,3,1) step_take(4) [unfolded out]] w
        show ?thesis by (simp add: within_credit_def)
      next
        case False
        with take_once_refused [OF step_take(4)] obtain m where
          "a' = a \<or> a' = a\<lparr>buckets := used_bucket L (t_now t) m dir (buckets a)\<rparr>" by metis
        then show ?thesis by auto
      qed
    next
      case (step_apply now p r)
      then have "a' = a \<or> applyLocked L P now p a d = (r, a', d')" by (auto simp: Apply_def split: option.splits)
      then show ?thesis by (elim disjE) (simp, drule locked_fields, simp)
    next
      case (step_authority now clk p r)
      from ApplyAuthority_cases [OF this] show ?thesis
        by (elim disjE exE conjE) (simp, drule locked_fields, simp)
    next
      case (step_credit now clk trm prev crev k r)
      from ApplyCredit_cases [OF this] show ?thesis
        by (elim disjE conjE) (simp, drule locked_fields, simp)
    qed (auto simp: SetClock_def Quarantine_def Record_def Let_def spent_def)
    then show ?thesis using same w by (auto simp: within_credit_def)
  qed
qed

lemma account_steps_ok:
  assumes L: "limiter_ok L" and run: "(account_step L P)\<^sup>*\<^sup>* (a, d) (a', d')" and ok: "account_ok L a"
  shows "account_ok L a' \<and> progress a a' \<and> (within_credit a \<longrightarrow> within_credit a')"
  using run
proof (induction "(a', d')" arbitrary: a' d' rule: rtranclp_induct)
  case base
  show ?case using ok by (simp add: progress_def)
next
  case (step y)
  obtain b e where y: "y = (b, e)" by (cases y)
  have IH: "account_ok L b" "progress a b" "within_credit a \<longrightarrow> within_credit b" using step.hyps(3) [OF y] by auto
  have st: "account_step L P (b, e) (a', d')" using step.hyps(2) y by simp
  show ?case
    using account_ok_step [OF L st] IH(1) progress_trans [OF IH(2) progress_step [OF L IH(1) st]]
      within_credit_step [OF L IH(1) st] IH(3) by simp
qed

lemma Restore_ok:
  assumes L: "limiter_ok L" and "Restore L now p reserved h = Inr a"
  shows "account_ok L a" "policy a = p" "spent a = unat reserved" "persistence a = h" "\<not> quarantined a"
  using assms unat_u64_less [of reserved]
  by (auto simp: Restore_def New_account_def account_ok_def spent_def bucket_ok_def bucket_def drain_def limiter_ok_def
      split: if_splits option.splits)

text \<open>A limiter that never throttles and a persistence that records reservations, for examples.\<close>

definition open_limiter :: "int rate_lib" where
  "open_limiter = \<lparr>NewLimiter = \<lambda>_ b. b, AllowN = \<lambda>_ _ l. (True, l), SetLimitAt = \<lambda>_ _ l. l,
     SetBurstAt = \<lambda>_ b _. b, Burst = \<lambda>l. l, DeficitDelay = \<lambda>_ _ _. 0\<rparr>"

definition log_persistence :: "(unit, u64 list) persist_lib" where
  "log_persistence = \<lparr>StorePolicy = \<lambda>_ _ d. (None, d), Reserve = \<lambda>_ _ n d. (None, n # d)\<rparr>"

lemma open_limiter_ok: "limiter_ok open_limiter"
  by (simp add: limiter_ok_def open_limiter_def)

definition sample_policy :: Policy where
  "sample_policy = \<lparr>Term = ''t'', Revision = 1, AuthorityRevision = 1, Enabled = True, ExpiresUnixMilli = 0,
     QuotaUnlimited = False, CreditCeiling = 100, CreditRevision = 1,
     p_Upload = \<lparr>r_Mode = Unlimited, BitsPerSecond = 0, BurstBytes = 0\<rparr>,
     p_Download = \<lparr>r_Mode = Limited, BitsPerSecond = 8000, BurstBytes = 30\<rparr>\<rparr>"

definition sample_account :: "(int, unit) Account" where
  "sample_account = \<lparr>quarantined = False, policy = sample_policy, uploaded = 5, downloaded = 0,
     previouslyReserved = 50, measured = (5, 0), persistence = Some (), buckets = (None, Some 30),
     changed = 0, has_clock = False\<rparr>"

definition sample_tick :: Tick where
  "sample_tick = \<lparr>t_ctx = None, t_now = 0, t_clk1 = Inr 0, t_clk2 = Inr 0, t_clk3 = Inr 0\<rparr>"

lemmas sample_defs = sample_account_def sample_policy_def sample_tick_def open_limiter_def log_persistence_def

lemma sample_ok: "account_ok open_limiter sample_account"
  by (simp add: account_ok_def sample_defs validate_def validate_rate_def spent_def bucket_ok_def)

lemma sample_within: "within_credit sample_account"
  by (simp add: within_credit_def sample_defs spent_def)

lemma sample_take:
  "take_once open_limiter log_persistence sample_tick Download 40 True sample_account [] =
     (Returned (Inr 30), sample_account\<lparr>downloaded := 30\<rparr>, [85])"
  by (simp add: take_once_def allowed_def partial_size_def rate_of_def at_dir_def set_dir_def sample_defs maxUint64_def Let_def)

lemma allowed_quarantined: "quarantined a \<Longrightarrow> allowed a now clk dir n \<noteq> None"
  by (simp add: allowed_None)

lemma Record_fields [simp]:
  "uploaded (Record dir n a) = uploaded a" "downloaded (Record dir n a) = downloaded a"
  by (simp_all add: Record_def Let_def)

lemma take_loop_account_ok:
  assumes L: "limiter_ok L" and n: "0 < n" "n < 2 ^ 63" "dir \<le> Download"
  shows "account_ok L a \<Longrightarrow> take_loop L P ts dir n partial a d = Some (r, a', d') \<Longrightarrow>
    account_ok L a' \<and> (case r of Inl _ \<Rightarrow> uploaded a \<le> uploaded a' \<and> downloaded a \<le> downloaded a'
      | Inr m \<Rightarrow> 1 \<le> m \<and> m \<le> n \<and> uint (at_dir dir (uploaded a, downloaded a)) + m
           \<le> uint (at_dir dir (uploaded a', downloaded a')))"
proof (induction ts arbitrary: a d)
  case (Cons t ts)
  obtain out a1 d1 where o: "take_once L P t dir n partial a d = (out, a1, d1)"
    by (cases "take_once L P t dir n partial a d") auto
  have ok1: "account_ok L a1" by (rule account_ok_take [OF L Cons.prems(1) n o])
  have f: "uploaded a \<le> uploaded a1" "downloaded a \<le> downloaded a1"
    using take_fields [OF L Cons.prems(1) n o] by auto
  show ?case
  proof (cases out)
    case (Sleep delay)
    then have rest: "take_loop L P ts dir n partial a1 d1 = Some (r, a', d')" using Cons.prems(2) o by simp
    have "uint (at_dir dir (uploaded a, downloaded a)) \<le> uint (at_dir dir (uploaded a1, downloaded a1))"
      using f by (simp add: at_dir_def word_le_def)
    with Cons.IH [OF ok1 rest] f show ?thesis by (auto split: sum.splits intro: order_trans)
  next
    case (Returned res)
    then have r: "r = res" "a' = a1" using Cons.prems(2) o by auto
    show ?thesis
    proof (cases res)
      case (Inr m)
      have t: "take_once L P t dir n partial a d = (Returned (Inr m), a1, d1)" using o Returned Inr by simp
      note w = take_once_within [OF L Cons.prems(1) n t] and ad = take_once_admitted [OF t]
      have u: "unat (word_of_int m :: u64) = nat m" using w n by (intro unat_of_int_u64) auto
      have "spent a + nat m < 2 ^ 64" using w by simp
      then have "unat (at_dir dir (uploaded a, downloaded a)) + nat m < 2 ^ 64"
        by (auto simp: spent_def at_dir_def split: if_splits)
      then have "unat (at_dir dir (uploaded a, downloaded a) + word_of_int m) = unat (at_dir dir (uploaded a, downloaded a)) + nat m"
        using u by (subst unat_add_fits) auto
      then have "uint (at_dir dir (uploaded a, downloaded a) + word_of_int m) = uint (at_dir dir (uploaded a, downloaded a)) + m"
        using w by (simp only: uint_nat) simp
      moreover have "at_dir dir (uploaded a1, downloaded a1) = at_dir dir (uploaded a, downloaded a) + word_of_int m"
        using ad by (auto simp: admit_def at_dir_def)
      ultimately show ?thesis using r Inr ok1 w by simp
    qed (use r ok1 f in simp)
  qed
qed simp

lemma write_loop_bounds:
  assumes L: "limiter_ok L" and dir: "dir \<le> Download"
    and writer: "\<forall>(ts, wfn) \<in> set turns. \<forall>m \<ge> 0. 0 \<le> fst (wfn m) \<and> fst (wfn m) \<le> m"
  shows "account_ok L a \<Longrightarrow> int (length data) < 2 ^ 63 \<Longrightarrow>
    write_loop L P dir turns data w a d = Some ((w', err), a', d') \<Longrightarrow>
    account_ok L a' \<and> w \<le> w' \<and> w' - w \<le> int (length data) \<and> (err = None \<longrightarrow> w' - w = int (length data))
    \<and> uint (at_dir dir (uploaded a, downloaded a)) + (w' - w) \<le> uint (at_dir dir (uploaded a', downloaded a'))"
  using writer
proof (induction turns arbitrary: data w a d)
  case (Cons turn turns)
  obtain ts wfn where turn: "turn = (ts, wfn)" by (cases turn)
  show ?case
  proof (cases "data = []")
    case False
    let ?n = "int (length data)"
    have n: "0 < ?n" using False by simp
    obtain res a1 d1 where t: "TakeUpTo L P ts dir ?n a d = Some (res, a1, d1)"
      using Cons.prems(3) False by (auto simp: turn split: option.splits prod.splits)
    then have loop: "take_loop L P ts dir ?n True a d = Some (res, a1, d1)"
      using dir n by (simp add: TakeUpTo_def take_account_def not_less [symmetric])
    note k = take_loop_account_ok [OF L n Cons.prems(2) dir Cons.prems(1) loop]
    show ?thesis
    proof (cases res)
      case (Inl e)
      then have "a' = a1" "w' = w" "err = Some e" using Cons.prems(3) False t by (auto simp: turn)
      then show ?thesis using k Inl by (auto simp: at_dir_def word_le_def)
    next
      case (Inr m)
      obtain actual e where wr: "wfn m = (actual, e)" by (cases "wfn m")
      have m: "1 \<le> m" "m \<le> ?n" and adm: "uint (at_dir dir (uploaded a, downloaded a)) + m
          \<le> uint (at_dir dir (uploaded a1, downloaded a1))" using k Inr by auto
      have act: "0 \<le> actual" "actual \<le> m" using Cons.prems(4) m wr by (auto simp: turn) (metis fst_conv order_trans zero_le_one)+
      have ok: "account_ok L (Record dir actual a1)"
        by (rule Record_ok(1)) (use k m act Cons.prems(2) in auto)
      show ?thesis
      proof (cases "e = None \<and> actual = m")
        case True
        then have rest: "write_loop L P dir turns (drop (nat m) data) (w + m) (Record dir m a1) d1 = Some ((w', err), a', d')"
          using Cons.prems(3) False t Inr wr by (simp add: turn Let_def)
        have "int (length (drop (nat m) data)) < 2 ^ 63" using Cons.prems(2) by simp
        from Cons.IH [OF _ this rest] ok True Cons.prems(4) have
          "account_ok L a' \<and> w + m \<le> w' \<and> w' - (w + m) \<le> int (length (drop (nat m) data))
            \<and> (err = None \<longrightarrow> w' - (w + m) = int (length (drop (nat m) data)))
            \<and> uint (at_dir dir (uploaded a1, downloaded a1)) + (w' - (w + m))
               \<le> uint (at_dir dir (uploaded a', downloaded a'))" by simp
        moreover have "int (length (drop (nat m) data)) = ?n - m" using m by (simp add: of_nat_diff)
        ultimately show ?thesis using m adm by linarith
      next
        case stop: False
        then have "a' = Record dir actual a1" "w' = w + actual" "err \<noteq> None"
          using Cons.prems(3) False t Inr wr by (auto simp: turn Let_def split: if_splits)
        then show ?thesis using ok act adm m by auto
      qed
    qed
  qed (use Cons.prems in \<open>simp add: turn\<close>)
qed (auto split: if_splits)

section \<open>Properties\<close>

text \<open>C13 Admission is safe: a take that succeeds hands out between one byte and what was asked,
  only for an enabled, unexpired grant that is neither blocked in that direction nor
  quarantined, adds exactly those bytes to what is spent, wraps no counter, stays within the
  credit ceiling unless the quota is unlimited, and has reserved the new total durably first.\<close>

theorem take_within_credit:
  assumes "limiter_ok L" and "account_ok L a" and "0 < requested" "requested < 2 ^ 63" and "dir \<le> Download"
    and "take_once L P t dir requested partial a d = (Returned (Inr n), a', d')"
  shows "1 \<le> n \<and> n \<le> requested \<and> spent a' = spent a + nat n \<and> spent a' < 2 ^ 64
    \<and> (\<not> QuotaUnlimited (policy a) \<longrightarrow> spent a' \<le> unat (CreditCeiling (policy a)))
    \<and> \<not> quarantined a \<and> Enabled (policy a) \<and> r_Mode (rate_of dir (policy a)) \<noteq> Blocked
    \<and> (\<exists>now. (if has_clock a then t_clk2 t else Inr (t_now t)) = Inr now \<and>
         (ExpiresUnixMilli (policy a) \<noteq> 0 \<longrightarrow> unix_milli now < ExpiresUnixMilli (policy a)))
    \<and> (\<forall>h. persistence a = Some h \<longrightarrow>
         Reserve P h (policy a) (previouslyReserved a + uploaded a + downloaded a + word_of_int n) d = (None, d'))"
proof -
  have al: "allowed a (t_now t) (t_clk2 t) dir (word_of_int n) = None" and res: "reserve_call P a n d = (None, d')"
    using take_once_admitted [OF assms(6)] by blast+
  from al obtain now where now: "(if has_clock a then t_clk2 t else Inr (t_now t)) = Inr now" "\<not> quarantined a"
    "Enabled (policy a)" "r_Mode (rate_of dir (policy a)) \<noteq> Blocked"
    "ExpiresUnixMilli (policy a) \<noteq> 0 \<longrightarrow> unix_milli now < ExpiresUnixMilli (policy a)"
    unfolding allowed_None by blast
  have rs: "Reserve P h (policy a) (previouslyReserved a + uploaded a + downloaded a + word_of_int n) d = (None, d')"
    if "persistence a = Some h" for h using res that by (simp add: reserve_call_def)
  show ?thesis
    using take_once_within [OF assms] now(2-5) rs unfolding now(1) by blast
qed

theorem take_within_credit_witness:
  "spent (sample_account\<lparr>downloaded := 30\<rparr>) \<le> unat (CreditCeiling (policy sample_account))"
  using take_within_credit [OF open_limiter_ok sample_ok _ _ _ sample_take]
  by (simp add: sample_policy_def sample_account_def)





text \<open>C16 Updates are all or nothing: when applying a policy, an authority update or a credit
  grant reports an error, whether a stale revision, an expired or blocked grant, an unavailable
  clock or a failed write, the account is exactly as it was.\<close>

theorem failed_update_changes_nothing:
  shows "(Apply L P now p a d = (Some e, a', d') \<longrightarrow> a' = a)
    \<and> (ApplyAuthority L P now clk p a d = (Some e, a', d') \<longrightarrow> a' = a)
    \<and> (ApplyCredit L P now clk trm prev crev k a d = (Some e, a', d') \<longrightarrow> a' = a)"
proof (intro conjI impI)
  assume "Apply L P now p a d = (Some e, a', d')"
  then have "a' = a \<or> applyLocked L P now p a d = (Some e, a', d')" by (auto simp: Apply_def split: option.splits)
  then show "a' = a" by (elim disjE) (assumption, erule applyLocked_error)
next
  assume "ApplyAuthority L P now clk p a d = (Some e, a', d')"
  from ApplyAuthority_cases [OF this] show "a' = a"
    by (elim disjE exE conjE) (assumption, erule applyLocked_error)
next
  assume "ApplyCredit L P now clk trm prev crev k a d = (Some e, a', d')"
  from ApplyCredit_cases [OF this] show "a' = a"
    by (elim disjE conjE) (assumption, erule applyLocked_error)
qed

theorem failed_update_changes_nothing_witness:
  "Apply open_limiter log_persistence 0 (sample_policy\<lparr>Revision := 0\<rparr>) sample_account [] = (Some InvalidPolicy, sample_account, [])"
  using failed_update_changes_nothing [of open_limiter log_persistence 0 "sample_policy\<lparr>Revision := 0\<rparr>" sample_account "[]"
      InvalidPolicy sample_account "[]" "Inr 0" "''t''" 1 1 1]
  by (simp add: Apply_def validate_def sample_policy_def)

text \<open>C17 Merging an authority update keeps the newer credit: the merged policy is valid, is the
  current one or an authority advance of it, never re-enables a disabled grant, keeps term,
  revision, expiry and quota mode, and never carries an older credit revision or a lower ceiling.\<close>

theorem MergeAuthority_keeps_newer_credit:
  assumes "MergeAuthority current desired = Inr merged" and "validate current = None"
  shows "validate merged = None \<and> (merged = current \<or> AuthorityAdvance current merged)
    \<and> (Enabled merged \<longrightarrow> Enabled current) \<and> Term merged = Term current \<and> Revision merged = Revision current
    \<and> ExpiresUnixMilli merged = ExpiresUnixMilli current \<and> QuotaUnlimited merged = QuotaUnlimited current
    \<and> CreditRevision current \<le> CreditRevision merged \<and> CreditCeiling current \<le> CreditCeiling merged"
  using MergeAuthority_merged [OF assms] by simp

theorem MergeAuthority_keeps_newer_credit_witness:
  "MergeAuthority (sample_policy\<lparr>CreditRevision := 3, CreditCeiling := 200\<rparr>) (sample_policy\<lparr>AuthorityRevision := 2\<rparr>)
     = Inr (sample_policy\<lparr>AuthorityRevision := 2, CreditRevision := 3, CreditCeiling := 200\<rparr>)
   \<and> (200 :: u64) \<le> CreditCeiling (sample_policy\<lparr>AuthorityRevision := 2, CreditRevision := 3, CreditCeiling := 200\<rparr>)"
proof -
  have m: "MergeAuthority (sample_policy\<lparr>CreditRevision := 3, CreditCeiling := 200\<rparr>) (sample_policy\<lparr>AuthorityRevision := 2\<rparr>)
     = Inr (sample_policy\<lparr>AuthorityRevision := 2, CreditRevision := 3, CreditCeiling := 200\<rparr>)"
    by (simp add: MergeAuthority_def sample_policy_def validate_def validate_rate_def maxInt64u_def AuthorityAdvance_def Let_def word_le_nat_alt)
  with MergeAuthority_keeps_newer_credit [OF m] show ?thesis
    by (simp add: sample_policy_def validate_def validate_rate_def)
qed

text \<open>C18 A writer forwards only what was admitted: whatever the wrapped writer does within its
  contract, the bytes written are at most the data and at most what the account admitted in
  that direction meanwhile, all of the data was written when there is no error, and the
  account stays well formed.\<close>

theorem writer_forwards_admitted:
  assumes "limiter_ok L" and "dir \<le> Download" and "account_ok L a" and "int (length data) < 2 ^ 63"
    and "\<forall>(ts, wfn) \<in> set turns. \<forall>m \<ge> 0. 0 \<le> fst (wfn m) \<and> fst (wfn m) \<le> m"
    and "writer_Write L P dir turns data a d = Some ((written, err), a', d')"
  shows "account_ok L a' \<and> 0 \<le> written \<and> written \<le> int (length data) \<and> (err = None \<longrightarrow> written = int (length data))
    \<and> uint (at_dir dir (uploaded a, downloaded a)) + written \<le> uint (at_dir dir (uploaded a', downloaded a'))"
  using write_loop_bounds [OF assms(1,2,5,3,4), of P 0 d written err a' d'] assms(6) by (simp add: writer_Write_def)

theorem writer_forwards_admitted_witness:
  "\<exists>a' d'. writer_Write open_limiter log_persistence Upload [([sample_tick], \<lambda>m. (m, None))] [1, 2, 3] sample_account []
     = Some ((3, None), a', d') \<and> uint (uploaded sample_account) + 3 \<le> uint (uploaded a')"
proof -
  let ?r = "writer_Write open_limiter log_persistence Upload [([sample_tick], \<lambda>m. (m, None))] [1, 2, 3] sample_account []"
  obtain a' d' where r: "?r = Some ((3, None), a', d')"
    by (simp add: writer_Write_def TakeUpTo_def take_account_def take_once_def allowed_def partial_size_def rate_of_def
        at_dir_def set_dir_def sample_defs maxUint64_def Let_def)
  from writer_forwards_admitted [OF open_limiter_ok _ sample_ok _ _ r] r show ?thesis by (auto simp: at_dir_def)
qed

section \<open>What an account needs of its persistence\<close>

text \<open>
  The contract behind the \<open>Persistence\<close> interface: storing a policy makes it the stored one
  and moves no reservation, a reservation that succeeds covers the total it was asked for and
  never falls, a failure changes neither, and nothing another handle sees is touched.
  \<open>label\<close> is what no account operation ever writes.
\<close>

definition synced :: "('h \<Rightarrow> 'd \<Rightarrow> bool) \<Rightarrow> ('h \<Rightarrow> 'd \<Rightarrow> Policy) \<Rightarrow> ('h \<Rightarrow> 'd \<Rightarrow> u64) \<Rightarrow> 'h \<Rightarrow> ('b, 'h) Account \<Rightarrow> 'd \<Rightarrow> bool" where
  "synced sound stored held h a d \<longleftrightarrow>
     persistence a = Some h \<and> sound h d \<and> policy a = stored h d \<and> spent a \<le> unat (held h d)"

locale reservation =
  fixes P :: "('h, 'd) persist_lib" and sound :: "'h \<Rightarrow> 'd \<Rightarrow> bool"
    and stored :: "'h \<Rightarrow> 'd \<Rightarrow> Policy" and held :: "'h \<Rightarrow> 'd \<Rightarrow> u64" and label :: "'h \<Rightarrow> 'd \<Rightarrow> 'l"
  assumes store: "sound h d \<Longrightarrow> validate p = None \<Longrightarrow> StorePolicy P h p d = (r, d') \<Longrightarrow>
      sound h d' \<and> held h d' = held h d \<and> stored h d' = (if r = None then p else stored h d)"
    and reserve: "sound h d \<Longrightarrow> Reserve P h p n d = (r, d') \<Longrightarrow>
      sound h d' \<and> stored h d' = stored h d \<and> held h d \<le> held h d' \<and> (r = None \<longrightarrow> n \<le> held h d')"
    and frame_store: "sound h d \<Longrightarrow> StorePolicy P h p d = (r, d') \<Longrightarrow> label k d' = label k d
      \<and> (k \<noteq> h \<longrightarrow> sound k d' = sound k d \<and> stored k d' = stored k d \<and> held k d' = held k d)"
    and frame_reserve: "sound h d \<Longrightarrow> Reserve P h p n d = (r, d') \<Longrightarrow> label k d' = label k d
      \<and> (k \<noteq> h \<longrightarrow> sound k d' = sound k d \<and> stored k d' = stored k d \<and> held k d' = held k d)"
begin

lemma locked_synced:
  assumes sy: "synced sound stored held h a d" and v: "validate p = None"
    and ap: "applyLocked L P now p a d = (r, a', d')"
  shows "synced sound stored held h a' d' \<and> label k d' = label k d
    \<and> (k \<noteq> h \<longrightarrow> sound k d' = sound k d \<and> stored k d' = stored k d \<and> held k d' = held k d)
    \<and> (r = None \<longrightarrow> policy a' = p)"
proof (cases "apply_refused (policy a) p")
  case None
  show ?thesis
  proof (cases "p = policy a")
    case False
    obtain q d1 where q: "StorePolicy P h p d = (q, d1)" by fastforce
    have h: "persistence a = Some h" "sound h d" using sy by (simp_all add: synced_def)
    note s = store [OF h(2) v q] and f = frame_store [OF h(2) q, of k]
    show ?thesis
      using ap False None h s f sy q
      by (cases q) (auto simp: applyLocked_def synced_def)
  qed (use ap None sy in \<open>simp add: applyLocked_def\<close>)
qed (use ap sy in \<open>auto simp: applyLocked_def\<close>)

lemma take_synced:
  assumes L: "limiter_ok L" and ok: "account_ok L a" and req: "0 < requested" "requested < 2 ^ 63" and dir: "dir \<le> Download"
    and sy: "synced sound stored held h a d" and take: "take_once L P t dir requested partial a d = (out, a', d')"
  shows "synced sound stored held h a' d' \<and> label k d' = label k d
    \<and> (k \<noteq> h \<longrightarrow> sound k d' = sound k d \<and> stored k d' = stored k d \<and> held k d' = held k d)
    \<and> held h d \<le> held h d'"
proof -
  have h: "persistence a = Some h" "sound h d" using sy by (simp_all add: synced_def)
  let ?n = "if partial then partial_size L dir requested a else requested"
  obtain q d1 where q: "reserve_call P a ?n d = (q, d1)" by fastforce
  have r: "Reserve P h (policy a) (previouslyReserved a + uploaded a + downloaded a + word_of_int ?n) d = (q, d1)"
    using q h by (simp add: reserve_call_def)
  note rs = reserve [OF h(2) r] and fr = frame_reserve [OF h(2) r, of k]
  show ?thesis
  proof (cases "\<exists>n. out = Returned (Inr n)")
    case True
    then obtain n where t: "take_once L P t dir requested partial a d = (Returned (Inr n), a', d')" using take by auto
    note w = take_once_within [OF L ok req dir t] and ad = take_once_admitted [OF t]
    have n: "?n = n" using conjunct1 [OF ad] by (rule sym)
    have "d' = d1" "q = None" using ad q [unfolded n] by simp_all
    moreover have "unat (previouslyReserved a + uploaded a + downloaded a + word_of_int n) = spent a'"
    proof -
      have "unat (word_of_int n :: u64) = nat n" using w req by (intro unat_of_int_u64) auto
      moreover have "spent a + nat n < 2 ^ 64" using w by simp
      ultimately show ?thesis using w by (simp add: spent_def unat_add_fits)
    qed
    ultimately show ?thesis using rs [unfolded n] fr ad h sy by (simp add: synced_def word_le_nat_alt)
  next
    case False
    with take_once_refused [OF take] obtain m where
      a': "a' = a \<or> a' = a\<lparr>buckets := used_bucket L (t_now t) m dir (buckets a)\<rparr>" by metis
    have "d' = d \<or> d' = d1"
      using take q unfolding take_once_eq Let_def by (auto split: if_splits option.splits prod.splits)
    then show ?thesis
    proof
      assume "d' = d" then show ?thesis using a' sy by (auto simp: synced_def)
    next
      assume "d' = d1" then show ?thesis using a' sy rs fr by (auto simp: synced_def word_le_nat_alt)
    qed
  qed
qed

end

section \<open>Every update is one locked step or none\<close>

lemma Apply_locked:
  "Apply L P now p a d = (r, a', d') \<Longrightarrow>
    (r \<noteq> None \<and> a' = a \<and> d' = d) \<or> (validate p = None \<and> applyLocked L P now p a d = (r, a', d'))"
  by (auto simp: Apply_def split: option.splits)

lemma ApplyAuthority_locked:
  "ApplyAuthority L P now clk des a d = (r, a', d') \<Longrightarrow>
    (r \<noteq> None \<and> a' = a \<and> d' = d)
    \<or> (\<exists>m. MergeAuthority (policy a) des = Inr m \<and> applyLocked L P now m a d = (r, a', d'))"
  by (cases "MergeAuthority (policy a) des"; cases "authorityTime now clk (projr (MergeAuthority (policy a) des)) a")
    (auto simp: ApplyAuthority_def split: if_splits, metis)

lemma ApplyCredit_locked:
  "ApplyCredit L P now clk trm prev crev k a d = (r, a', d') \<Longrightarrow>
    (a' = a \<and> d' = d) \<or> (\<not> QuotaUnlimited (policy a) \<and>
      applyLocked L P now ((policy a)\<lparr>CreditRevision := crev, CreditCeiling := k\<rparr>) a d = (r, a', d'))"
  unfolding ApplyCredit_def Let_def by (auto simp: CreditAdvance_def split: if_splits sum.splits)

end
