(* ===== verification/Authority.thy ===== *)
theory Authority
  imports NodeLimits
begin

text \<open>
  Package \<open>internal/node/authority\<close>: the messages by which a node reports what its grants may
  still spend and receives credit and authority updates, and the checks both sides make of
  them (\<open>authority.go\<close>, \<open>validation.go\<close>, \<open>credit.go\<close>, \<open>update.go\<close>). A protobuf message
  is the record of the fields the code reads, a pointer that may be nil an option. The
  digests marshal a message deterministically and hash it: \<open>digest\<close> is that function.
\<close>

section \<open>Messages\<close>

definition MaxEntries :: nat where [go_defs]: "MaxEntries = 1024"
definition MaxCreditUpdates :: nat where [go_defs]: "MaxCreditUpdates = 128"
definition MaxAuthorityUpdates :: nat where [go_defs]: "MaxAuthorityUpdates = 128"

record Credit =
  c_GrantID :: string
  c_ClientID :: string
  c_TermID :: string
  c_PolicyRevision :: u64
  c_CreditRevision :: u64
  c_CreditCeiling :: u64

record AuthGrant =
  GrantID :: string
  ClientID :: string
  TermID :: string
  PolicyRevision :: u64
  g_AuthorityRevision :: u64
  g_CreditCeiling :: u64
  g_QuotaUnlimited :: bool
  ReservedHighWater :: u64
  BurnedHighWater :: u64
  AdmissionHighWater :: u64
  AdmissionKnown :: bool
  SpendableBytes :: u64
  SpendableKnown :: bool
  AuthorizationActive :: bool

record Page =
  Grants :: "AuthGrant list"
  Next :: string

record RuntimeJournal =
  RuntimeId :: string
  CoreId :: string
  StateJournalId :: string
  CreditJournalId :: string

record JournalRegistration =
  jr_NodeId :: string
  jr_InstallationId :: string
  AgentStateJournalId :: string
  Runtimes :: "RuntimeJournal option list"

record AuthorityReport =
  ar_NodeId :: string
  ar_InstallationId :: string
  ar_AgentStateJournalId :: string
  ar_RuntimeId :: string
  ar_StateJournalId :: string
  ar_CreditJournalId :: string
  Sequence :: u64
  ObservedUnixMilli :: int
  RuntimeReady :: bool
  ar_Grants :: "AuthGrant option list"

record DeliveryRequest =
  dr_NodeId :: string
  dr_InstallationId :: string
  dr_AgentStateJournalId :: string
  dr_RuntimeId :: string
  dr_StateJournalId :: string
  dr_CreditJournalId :: string

record CreditUpdate =
  cu_GrantId :: string
  cu_ClientId :: string
  cu_TermId :: string
  cu_CreditRevision :: u64
  cu_CreditCeiling :: u64

record CreditUpdateBatch =
  cb_Request :: DeliveryRequest
  cb_Base :: u64
  cb_Updates :: "CreditUpdate option list"

record AuthorityRate =
  au_Mode :: int
  au_BitsPerSecond :: u64
  au_BurstBytes :: "32 word"

record AuthorityUpdate =
  au_GrantId :: string
  au_ClientId :: string
  au_TermId :: string
  au_PlacementId :: string
  au_Descriptor :: "8 word list"
  au_AuthorityRevision :: u64
  au_CreditRevision :: u64
  au_CreditCeiling :: u64
  au_CredentialGeneration :: u64
  au_PlacementRevision :: u64
  au_Enabled :: bool
  au_Expires :: int
  au_QuotaUnlimited :: bool
  au_Upload :: "AuthorityRate option"
  au_Download :: "AuthorityRate option"

record AuthorityUpdateBatch =
  ab_Request :: DeliveryRequest
  ab_Base :: u64
  ab_Payload :: "8 word list"
  ab_Updates :: "AuthorityUpdate option list"

record PolicyUpdate =
  pu_GrantID :: string
  pu_ClientID :: string
  pu_Policy :: Policy

section \<open>Identifiers and registrations\<close>

definition ValidID :: "'u uuid_lib \<Rightarrow> string \<Rightarrow> bool" where
  "ValidID u val = (case uuid_Parse u val of
      None \<Rightarrow> False
    | Some i \<Rightarrow> i \<noteq> uuid_Nil u \<and> uuid_String u i = val)"

text \<open>The regular expression \<open>^[a-z][a-z0-9-]{0,47}$\<close>.\<close>

definition lower :: "char \<Rightarrow> bool" where
  "lower c \<longleftrightarrow> CHR ''a'' \<le> c \<and> c \<le> CHR ''z''"

definition name_char :: "char \<Rightarrow> bool" where
  "name_char c \<longleftrightarrow> lower c \<or> CHR ''0'' \<le> c \<and> c \<le> CHR ''9'' \<or> c = CHR ''-''"

definition runtimeName :: "string \<Rightarrow> bool" where
  "runtimeName s = (case s of [] \<Rightarrow> False | c # cs \<Rightarrow> lower c \<and> length cs \<le> 47 \<and> list_all name_char cs)"

definition ValidRuntime :: "'u uuid_lib \<Rightarrow> RuntimeJournal option \<Rightarrow> bool" where
  "ValidRuntime u journal = (case journal of
      None \<Rightarrow> False
    | Some j \<Rightarrow> runtimeName (RuntimeId j) \<and> runtimeName (CoreId j) \<and> ValidID u (StateJournalId j)
        \<and> ValidID u (CreditJournalId j) \<and> StateJournalId j \<noteq> CreditJournalId j)"

text \<open>The loop of \<open>NormalizeRegistration\<close> over the runtimes, over \<open>names\<close> and \<open>seen\<close>.\<close>

fun registration_loop :: "'u uuid_lib \<Rightarrow> RuntimeJournal option list \<Rightarrow> string fset \<Rightarrow> string fset \<Rightarrow> bool" where
  "registration_loop u [] names seen = True"
| "registration_loop u (r # rs) names seen =
     (if \<not> ValidRuntime u r \<or> RuntimeId (the r) |\<in>| names \<or> StateJournalId (the r) |\<in>| seen
         \<or> CreditJournalId (the r) |\<in>| seen then False
      else registration_loop u rs (finsert (RuntimeId (the r)) names)
             (finsert (CreditJournalId (the r)) (finsert (StateJournalId (the r)) seen)))"

definition NormalizeRegistration :: "'u uuid_lib \<Rightarrow> (JournalRegistration \<Rightarrow> bytes result) \<Rightarrow>
    JournalRegistration option \<Rightarrow> (JournalRegistration \<times> bytes) result" where
  "NormalizeRegistration u digest request = (case request of
      None \<Rightarrow> Inl ErrReport
    | Some q \<Rightarrow>
        if \<not> ValidID u (jr_NodeId q) \<or> \<not> ValidID u (jr_InstallationId q) \<or> \<not> ValidID u (AgentStateJournalId q)
           \<or> Runtimes q = [] \<or> length (Runtimes q) > 32 then Inl ErrReport
        else if \<not> registration_loop u (Runtimes q) {||} {|AgentStateJournalId q|} then Inl ErrReport
        else let normalized = q\<lparr>Runtimes := sort_key (\<lambda>r. RuntimeId (the r)) (Runtimes q)\<rparr>
             in case digest normalized of Inl err \<Rightarrow> Inl err | Inr dg \<Rightarrow> Inr (normalized, dg))"

section \<open>Reports\<close>

definition ValidateGrant :: "'u uuid_lib \<Rightarrow> AuthGrant option \<Rightarrow> error option" where
  "ValidateGrant u grant = (case grant of
      None \<Rightarrow> Some ErrReport
    | Some g \<Rightarrow>
        if g_AuthorityRevision g > maxInt64u then Some ErrReport
        else if \<not> ValidID u (GrantID g) \<or> \<not> ValidID u (ClientID g) \<or> \<not> ValidID u (TermID g) \<or> PolicyRevision g = 0
            \<or> PolicyRevision g > maxInt64u \<or> g_CreditCeiling g > maxInt64u \<or> ReservedHighWater g > maxInt64u
            \<or> AdmissionHighWater g > maxInt64u \<or> SpendableBytes g > maxInt64u then Some ErrReport
        else if g_QuotaUnlimited g \<and> g_CreditCeiling g \<noteq> 0 \<or> \<not> AdmissionKnown g \<and> AdmissionHighWater g \<noteq> 0
            \<or> \<not> SpendableKnown g \<and> SpendableBytes g \<noteq> 0 then Some ErrReport
        else if AdmissionKnown g \<and> AdmissionHighWater g > ReservedHighWater g then Some ErrReport
        else if BurnedHighWater g > ReservedHighWater g \<or> AdmissionKnown g \<and> BurnedHighWater g \<noteq> 0 then Some ErrReport
        else if \<not> g_QuotaUnlimited g \<and> ReservedHighWater g > g_CreditCeiling g then Some ErrReport
        else if SpendableKnown g \<and> (g_QuotaUnlimited g \<or> SpendableBytes g > g_CreditCeiling g - BurnedHighWater g
            \<or> \<not> AuthorizationActive g \<and> SpendableBytes g \<noteq> 0) then Some ErrReport
        else if SpendableKnown g \<and> AdmissionKnown g \<and>
            (if AuthorizationActive g \<and> g_CreditCeiling g > AdmissionHighWater g
             then g_CreditCeiling g - AdmissionHighWater g else 0) \<noteq> SpendableBytes g then Some ErrReport
        else None)"

fun report_loop :: "'u uuid_lib \<Rightarrow> AuthGrant option list \<Rightarrow> string fset \<Rightarrow> error option" where
  "report_loop u [] seen = None"
| "report_loop u (g # gs) seen =
     (if ValidateGrant u g \<noteq> None \<or> GrantID (the g) |\<in>| seen then Some ErrReport
      else report_loop u gs (finsert (GrantID (the g)) seen))"

definition ValidateReport :: "'u uuid_lib \<Rightarrow> AuthorityReport option \<Rightarrow> bool \<Rightarrow> error option" where
  "ValidateReport u report agent = (case report of
      None \<Rightarrow> Some ErrReport
    | Some r \<Rightarrow>
        if \<not> ValidID u (ar_NodeId r) \<or> \<not> ValidID u (ar_InstallationId r)
           \<or> agent \<and> \<not> ValidID u (ar_AgentStateJournalId r) \<or> \<not> runtimeName (ar_RuntimeId r)
           \<or> \<not> ValidID u (ar_StateJournalId r) \<or> \<not> ValidID u (ar_CreditJournalId r) \<or> Sequence r = 0
           \<or> Sequence r > maxInt64u \<or> ObservedUnixMilli r \<le> 0 \<or> length (ar_Grants r) > MaxEntries
        then Some ErrReport else report_loop u (ar_Grants r) {||})"

section \<open>Credit\<close>

definition ValidateCreditRequest :: "'u uuid_lib \<Rightarrow> DeliveryRequest option \<Rightarrow> error option" where
  "ValidateCreditRequest u request = (case request of
      None \<Rightarrow> Some ErrReport
    | Some q \<Rightarrow>
        if \<not> ValidID u (dr_NodeId q) \<or> \<not> ValidID u (dr_InstallationId q) \<or> \<not> ValidID u (dr_AgentStateJournalId q)
           \<or> \<not> runtimeName (dr_RuntimeId q) \<or> \<not> ValidID u (dr_StateJournalId q) \<or> \<not> ValidID u (dr_CreditJournalId q)
           \<or> dr_StateJournalId q = dr_CreditJournalId q \<or> dr_AgentStateJournalId q = dr_StateJournalId q
           \<or> dr_AgentStateJournalId q = dr_CreditJournalId q
        then Some ErrReport else None)"

fun credits_loop :: "'u uuid_lib \<Rightarrow> Credit list \<Rightarrow> string fset \<Rightarrow> error option" where
  "credits_loop u [] seen = None"
| "credits_loop u (c # cs) seen =
     (if \<not> ValidID u (c_GrantID c) \<or> \<not> ValidID u (c_ClientID c) \<or> \<not> ValidID u (c_TermID c) \<or> c_PolicyRevision c = 0
         \<or> c_PolicyRevision c > maxInt64u \<or> c_CreditRevision c = 0 \<or> c_CreditRevision c > maxInt64u
         \<or> c_CreditCeiling c = 0 \<or> c_CreditCeiling c > maxInt64u \<or> c_GrantID c |\<in>| seen then Some ErrReport
      else credits_loop u cs (finsert (c_GrantID c) seen))"

definition ValidateCredits :: "'u uuid_lib \<Rightarrow> Credit list \<Rightarrow> error option" where
  "ValidateCredits u credits =
     (if credits = [] \<or> length credits > MaxCreditUpdates then Some ErrReport else credits_loop u credits {||})"

fun credits_of :: "u64 \<Rightarrow> CreditUpdate option list \<Rightarrow> Credit list \<Rightarrow> Credit list" where
  "credits_of base [] acc = acc"
| "credits_of base (None # us) acc = []"
| "credits_of base (Some c # us) acc =
     credits_of base us (acc @ [\<lparr>c_GrantID = cu_GrantId c, c_ClientID = cu_ClientId c, c_TermID = cu_TermId c,
       c_PolicyRevision = base, c_CreditRevision = cu_CreditRevision c, c_CreditCeiling = cu_CreditCeiling c\<rparr>])"

definition Credits :: "CreditUpdateBatch \<Rightarrow> Credit list" where
  "Credits batch = credits_of (cb_Base batch) (cb_Updates batch) []"

definition ValidateCreditBatch :: "'u uuid_lib \<Rightarrow> CreditUpdateBatch option \<Rightarrow> bool \<Rightarrow> error option" where
  "ValidateCreditBatch u batch allowEmpty = (case batch of
      None \<Rightarrow> Some ErrReport
    | Some b \<Rightarrow> (case ValidateCreditRequest u (Some (cb_Request b)) of
          Some err \<Rightarrow> Some err
        | None \<Rightarrow>
            if cb_Updates b = [] \<and> allowEmpty \<and> cb_Base b = 0 then None
            else ValidateCredits u (Credits b)))"

section \<open>Authority updates\<close>

definition ValidateAuthorityRequest :: "'u uuid_lib \<Rightarrow> DeliveryRequest \<Rightarrow> u64 \<Rightarrow> bytes \<Rightarrow> error option" where
  "ValidateAuthorityRequest u request base payload =
     (if ValidateCreditRequest u (Some request) \<noteq> None \<or> base = 0 \<or> base > maxInt64u \<or> length payload \<noteq> 32
      then Some ErrReport else None)"

definition authorityRate :: "AuthorityRate option \<Rightarrow> Rate result" where
  "authorityRate val = (case val of
      None \<Rightarrow> Inl ErrReport
    | Some v \<Rightarrow>
        if au_Mode v < 0 \<or> au_Mode v > 2 \<or> uint (au_BurstBytes v) > 2 ^ 20 then Inl ErrReport
        else Inr \<lparr>r_Mode = word_of_int (au_Mode v), BitsPerSecond = au_BitsPerSecond v,
               BurstBytes = uint (au_BurstBytes v)\<rparr>)"

definition AuthorityPolicy :: "'u uuid_lib \<Rightarrow> u64 \<Rightarrow> AuthorityUpdate option \<Rightarrow> Policy result" where
  "AuthorityPolicy u base upd = (case upd of
      None \<Rightarrow> Inl ErrReport
    | Some a \<Rightarrow>
        if base = 0 \<or> base > maxInt64u \<or> \<not> ValidID u (au_GrantId a) \<or> \<not> ValidID u (au_ClientId a)
           \<or> \<not> ValidID u (au_TermId a) \<or> \<not> ValidID u (au_PlacementId a) \<or> length (au_Descriptor a) \<noteq> 32
           \<or> au_AuthorityRevision a = 0 \<or> au_AuthorityRevision a > maxInt64u \<or> au_CreditRevision a = 0
           \<or> au_CreditRevision a > maxInt64u \<or> au_CreditCeiling a > maxInt64u \<or> au_CredentialGeneration a = 0
           \<or> au_CredentialGeneration a > maxInt64u \<or> au_PlacementRevision a = 0 \<or> au_PlacementRevision a > maxInt64u
        then Inl ErrReport
        else case authorityRate (au_Upload a) of Inl err \<Rightarrow> Inl err | Inr up \<Rightarrow>
          case authorityRate (au_Download a) of Inl err \<Rightarrow> Inl err | Inr down \<Rightarrow>
            let p = \<lparr>Term = au_TermId a, Revision = base, AuthorityRevision = au_AuthorityRevision a,
                     Enabled = au_Enabled a, ExpiresUnixMilli = au_Expires a, QuotaUnlimited = au_QuotaUnlimited a,
                     CreditCeiling = au_CreditCeiling a, CreditRevision = au_CreditRevision a,
                     p_Upload = up, p_Download = down\<rparr>
            in if validate p \<noteq> None \<or> \<not> Enabled p \<and> (r_Mode up \<noteq> Blocked \<or> r_Mode down \<noteq> Blocked)
               then Inl ErrReport else Inr p)"

fun authority_loop :: "'u uuid_lib \<Rightarrow> u64 \<Rightarrow> AuthorityUpdate option list \<Rightarrow> string fset \<Rightarrow> string fset \<Rightarrow> error option" where
  "authority_loop u base [] grants clients = None"
| "authority_loop u base (x # xs) grants clients =
     (case AuthorityPolicy u base x of
        Inl err \<Rightarrow> Some err
      | Inr _ \<Rightarrow>
          if au_GrantId (the x) |\<in>| grants \<or> au_ClientId (the x) |\<in>| clients then Some ErrReport
          else authority_loop u base xs (finsert (au_GrantId (the x)) grants) (finsert (au_ClientId (the x)) clients))"

definition ValidateAuthorityBatch :: "'u uuid_lib \<Rightarrow> AuthorityUpdateBatch option \<Rightarrow> bool \<Rightarrow> error option" where
  "ValidateAuthorityBatch u batch allowEmpty = (case batch of
      None \<Rightarrow> Some ErrReport
    | Some b \<Rightarrow>
        if length (ab_Updates b) > MaxAuthorityUpdates then Some ErrReport
        else if ValidateAuthorityRequest u (ab_Request b) (ab_Base b) (ab_Payload b) \<noteq> None
            \<or> ab_Updates b = [] \<and> \<not> allowEmpty then Some ErrReport
        else authority_loop u (ab_Base b) (ab_Updates b) {||} {||})"

fun policies_of :: "'u uuid_lib \<Rightarrow> u64 \<Rightarrow> AuthorityUpdate option list \<Rightarrow> PolicyUpdate list \<Rightarrow> PolicyUpdate list result" where
  "policies_of u base [] acc = Inr acc"
| "policies_of u base (x # xs) acc =
     (case AuthorityPolicy u base x of
        Inl err \<Rightarrow> Inl err
      | Inr p \<Rightarrow> policies_of u base xs
          (acc @ [\<lparr>pu_GrantID = au_GrantId (the x), pu_ClientID = au_ClientId (the x), pu_Policy = p\<rparr>]))"

definition AuthorityPolicies :: "'u uuid_lib \<Rightarrow> AuthorityUpdateBatch option \<Rightarrow> PolicyUpdate list result" where
  "AuthorityPolicies u batch = (case ValidateAuthorityBatch u batch False of
      Some err \<Rightarrow> Inl err
    | None \<Rightarrow> policies_of u (ab_Base (the batch)) (ab_Updates (the batch)) [])"

section \<open>The checks as specifications\<close>

definition journals :: "RuntimeJournal option list \<Rightarrow> string list" where
  "journals rs = concat (map (\<lambda>r. [StateJournalId (the r), CreditJournalId (the r)]) rs)"

lemma registration_loop_spec:
  "registration_loop u rs names seen \<longleftrightarrow>
     list_all (ValidRuntime u) rs \<and> distinct (map (\<lambda>r. RuntimeId (the r)) rs)
     \<and> (\<forall>r \<in> set rs. RuntimeId (the r) |\<notin>| names) \<and> distinct (journals rs) \<and> (\<forall>j \<in> set (journals rs). j |\<notin>| seen)"
proof (induction rs arbitrary: names seen)
  case (Cons r rs)
  show ?case
  proof (cases "ValidRuntime u r")
    case True
    then have "StateJournalId (the r) \<noteq> CreditJournalId (the r)" by (cases r) (simp_all add: ValidRuntime_def)
    moreover have "journals (r # rs) = [StateJournalId (the r), CreditJournalId (the r)] @ journals rs"
      by (simp add: journals_def)
    moreover note Cons.IH [of "finsert (RuntimeId (the r)) names"
        "finsert (CreditJournalId (the r)) (finsert (StateJournalId (the r)) seen)"]
    ultimately show ?thesis using True by (auto simp: image_iff dest: sym)
  qed simp
qed (simp add: journals_def)

lemma journals_mset: "mset rs = mset rs' \<Longrightarrow> mset (journals rs) = mset (journals rs')"
proof -
  assume m: "mset rs = mset rs'"
  have "mset (journals xs) = (\<Sum>r \<in># mset xs. mset [StateJournalId (the r), CreditJournalId (the r)])" for xs
    unfolding journals_def by (induction xs) auto
  then show ?thesis using m by simp
qed

lemma registration_loop_perm:
  assumes "mset rs = mset rs'"
  shows "registration_loop u rs names seen = registration_loop u rs' names seen"
proof -
  have s: "set rs = set rs'" "set (journals rs) = set (journals rs')"
    using assms journals_mset [OF assms] by (metis set_mset_mset)+
  have "distinct (map (\<lambda>r. RuntimeId (the r)) rs) = distinct (map (\<lambda>r. RuntimeId (the r)) rs')"
    using assms by (intro mset_eq_imp_distinct_iff) simp
  moreover have "distinct (journals rs) = distinct (journals rs')"
    by (rule mset_eq_imp_distinct_iff [OF journals_mset [OF assms]])
  ultimately show ?thesis unfolding registration_loop_spec s list_all_iff by simp
qed

lemma credits_loop_spec:
  "credits_loop u cs seen = None \<Longrightarrow> distinct (map c_GrantID cs) \<and> (\<forall>c \<in> set cs. c_GrantID c |\<notin>| seen
     \<and> c_PolicyRevision c \<noteq> 0 \<and> c_CreditRevision c \<noteq> 0 \<and> c_CreditRevision c \<le> maxInt64u \<and> c_CreditCeiling c \<noteq> 0
     \<and> c_CreditCeiling c \<le> maxInt64u)"
proof (induction cs arbitrary: seen)
  case (Cons c cs)
  from Cons.prems have "credits_loop u cs (finsert (c_GrantID c) seen) = None" "c_GrantID c |\<notin>| seen"
    "c_PolicyRevision c \<noteq> 0" "c_CreditRevision c \<noteq> 0" "\<not> c_CreditRevision c > maxInt64u" "c_CreditCeiling c \<noteq> 0"
    "\<not> c_CreditCeiling c > maxInt64u"
    unfolding credits_loop.simps guard_None by blast+
  with Cons.IH [of "finsert (c_GrantID c) seen"] show ?case by (auto simp: not_less)
qed simp

lemma AuthorityPolicy_ok:
  assumes "AuthorityPolicy u base x = Inr p"
  shows "validate p = None \<and> Revision p = base \<and> base \<noteq> 0 \<and> base \<le> maxInt64u \<and> AuthorityRevision p \<noteq> 0
    \<and> AuthorityRevision p \<le> maxInt64u \<and> CreditRevision p \<noteq> 0 \<and> CreditRevision p \<le> maxInt64u
    \<and> CreditCeiling p \<le> maxInt64u \<and> ValidID u (Term p) \<and> x \<noteq> None
    \<and> ValidID u (au_GrantId (the x)) \<and> ValidID u (au_ClientId (the x))
    \<and> (Enabled p \<or> r_Mode (p_Upload p) = Blocked \<and> r_Mode (p_Download p) = Blocked)"
  using assms unfolding AuthorityPolicy_def
  by (auto simp: Let_def split: option.splits if_splits sum.splits)

lemma authority_loop_spec:
  "authority_loop u base xs grants clients = None \<Longrightarrow>
     distinct (map (\<lambda>x. au_GrantId (the x)) xs) \<and> distinct (map (\<lambda>x. au_ClientId (the x)) xs)
     \<and> (\<forall>x \<in> set xs. au_GrantId (the x) |\<notin>| grants \<and> au_ClientId (the x) |\<notin>| clients)
     \<and> (\<forall>x \<in> set xs. \<exists>p. AuthorityPolicy u base x = Inr p)"
proof (induction xs arbitrary: grants clients)
  case (Cons x xs)
  from Cons.prems obtain p where p: "AuthorityPolicy u base x = Inr p" by (auto split: sum.splits)
  with Cons.prems have "au_GrantId (the x) |\<notin>| grants" "au_ClientId (the x) |\<notin>| clients"
    "authority_loop u base xs (finsert (au_GrantId (the x)) grants) (finsert (au_ClientId (the x)) clients) = None"
    unfolding authority_loop.simps p sum.case guard_None by blast+
  with Cons.IH [of "finsert (au_GrantId (the x)) grants" "finsert (au_ClientId (the x)) clients"] p
  show ?case by auto
qed simp

lemma policies_of_total:
  "\<forall>x \<in> set xs. \<exists>p. AuthorityPolicy u base x = Inr p \<Longrightarrow>
     policies_of u base xs acc = Inr (acc @ map (\<lambda>x. \<lparr>pu_GrantID = au_GrantId (the x), pu_ClientID = au_ClientId (the x),
       pu_Policy = projr (AuthorityPolicy u base x)\<rparr>) xs)"
  by (induction xs arbitrary: acc) force+

section \<open>Properties\<close>


definition sample_runtime :: "string \<Rightarrow> RuntimeJournal option" where
  "sample_runtime n = Some \<lparr>RuntimeId = n, CoreId = ''c'', StateJournalId = ''s'' @ n, CreditJournalId = ''c'' @ n\<rparr>"

definition sample_registration :: "RuntimeJournal option list \<Rightarrow> JournalRegistration" where
  "sample_registration rs = \<lparr>jr_NodeId = ''n'', jr_InstallationId = ''i'', AgentStateJournalId = ''a'', Runtimes = rs\<rparr>"


text \<open>C20 What an accepted authority batch turns into: at most 128 policies, one for each grant and
  each client, every one valid, of the batch's base revision, with positive authority and
  credit revisions that fit an \<open>int64\<close>, and blocked in both directions when disabled.\<close>

theorem AuthorityPolicies_wellformed:
  assumes "AuthorityPolicies u batch = Inr ups"
  shows "ups \<noteq> [] \<and> length ups \<le> MaxAuthorityUpdates \<and> distinct (map pu_GrantID ups) \<and> distinct (map pu_ClientID ups)
    \<and> (\<forall>x \<in> set ups. let p = pu_Policy x in validate p = None \<and> Revision p = ab_Base (the batch)
         \<and> AuthorityRevision p \<noteq> 0 \<and> AuthorityRevision p \<le> maxInt64u \<and> CreditRevision p \<noteq> 0 \<and> CreditRevision p \<le> maxInt64u
         \<and> CreditCeiling p \<le> maxInt64u \<and> ValidID u (pu_GrantID x) \<and> ValidID u (pu_ClientID x) \<and> ValidID u (Term p)
         \<and> (Enabled p \<or> r_Mode (p_Upload p) = Blocked \<and> r_Mode (p_Download p) = Blocked))"
proof -
  from assms obtain b where b: "batch = Some b" and v: "ValidateAuthorityBatch u (Some b) False = None"
    and pol: "policies_of u (ab_Base b) (ab_Updates b) [] = Inr ups"
    by (cases batch) (auto simp: AuthorityPolicies_def ValidateAuthorityBatch_def [of _ None] split: option.splits)
  from v have loop: "authority_loop u (ab_Base b) (ab_Updates b) {||} {||} = None"
    and len: "length (ab_Updates b) \<le> MaxAuthorityUpdates" "ab_Updates b \<noteq> []"
    by (auto simp: ValidateAuthorityBatch_def split: if_splits)
  note s = authority_loop_spec [OF loop]
  have ups: "ups = map (\<lambda>x. \<lparr>pu_GrantID = au_GrantId (the x), pu_ClientID = au_ClientId (the x),
      pu_Policy = projr (AuthorityPolicy u (ab_Base b) x)\<rparr>) (ab_Updates b)"
    using policies_of_total [of "ab_Updates b" u "ab_Base b" "[]"] s pol by simp
  have each: "let p = projr (AuthorityPolicy u (ab_Base b) x) in validate p = None \<and> Revision p = ab_Base b
      \<and> AuthorityRevision p \<noteq> 0 \<and> AuthorityRevision p \<le> maxInt64u \<and> CreditRevision p \<noteq> 0 \<and> CreditRevision p \<le> maxInt64u
      \<and> CreditCeiling p \<le> maxInt64u \<and> ValidID u (au_GrantId (the x)) \<and> ValidID u (au_ClientId (the x)) \<and> ValidID u (Term p)
      \<and> (Enabled p \<or> r_Mode (p_Upload p) = Blocked \<and> r_Mode (p_Download p) = Blocked)"
    if "x \<in> set (ab_Updates b)" for x
  proof -
    obtain p where p: "AuthorityPolicy u (ab_Base b) x = Inr p" using s \<open>x \<in> set (ab_Updates b)\<close> by blast
    show ?thesis using AuthorityPolicy_ok [OF p] by (simp add: p Let_def)
  qed
  have "distinct (map pu_GrantID ups)" "distinct (map pu_ClientID ups)" using s by (simp_all add: ups comp_def)
  then show ?thesis
    using len each unfolding ups b by (simp add: Let_def)
qed

definition sample_batch :: AuthorityUpdateBatch where
  "sample_batch = \<lparr>ab_Request = \<lparr>dr_NodeId = ''n'', dr_InstallationId = ''i'', dr_AgentStateJournalId = ''a'',
       dr_RuntimeId = ''x'', dr_StateJournalId = ''s'', dr_CreditJournalId = ''c''\<rparr>,
     ab_Base = 7, ab_Payload = replicate 32 0,
     ab_Updates = [Some \<lparr>au_GrantId = ''g'', au_ClientId = ''k'', au_TermId = ''t'', au_PlacementId = ''p'',
       au_Descriptor = replicate 32 0, au_AuthorityRevision = 1, au_CreditRevision = 1, au_CreditCeiling = 500,
       au_CredentialGeneration = 1, au_PlacementRevision = 1, au_Enabled = True, au_Expires = 0,
       au_QuotaUnlimited = False,
       au_Upload = Some \<lparr>au_Mode = 2, au_BitsPerSecond = 0, au_BurstBytes = 0\<rparr>,
       au_Download = Some \<lparr>au_Mode = 1, au_BitsPerSecond = 8000, au_BurstBytes = 100\<rparr>\<rparr>]\<rparr>"

definition sample_update :: PolicyUpdate where
  "sample_update = \<lparr>pu_GrantID = ''g'', pu_ClientID = ''k'', pu_Policy =
     \<lparr>Term = ''t'', Revision = 7, AuthorityRevision = 1, Enabled = True, ExpiresUnixMilli = 0, QuotaUnlimited = False,
      CreditCeiling = 500, CreditRevision = 1, p_Upload = \<lparr>r_Mode = 2, BitsPerSecond = 0, BurstBytes = 0\<rparr>,
      p_Download = \<lparr>r_Mode = 1, BitsPerSecond = 8000, BurstBytes = 100\<rparr>\<rparr>\<rparr>"

lemma sample_batch_policies: "AuthorityPolicies plain_uuid (Some sample_batch) = Inr [sample_update]"
  by (simp add: AuthorityPolicies_def ValidateAuthorityBatch_def sample_batch_def sample_update_def
      ValidateAuthorityRequest_def ValidateCreditRequest_def ValidID_def plain_uuid_def runtimeName_def lower_def
      AuthorityPolicy_def authorityRate_def validate_def validate_rate_def maxInt64u_def MaxAuthorityUpdates_def Let_def)

theorem AuthorityPolicies_wellformed_witness:
  "distinct (map pu_GrantID [sample_update]) \<and> validate (pu_Policy sample_update) = None"
  using AuthorityPolicies_wellformed [OF sample_batch_policies] by (simp add: Let_def)

end
