(* ===== verification/Governor.thy ===== *)
theory Governor
  imports Authority
begin

text \<open>
  Package \<open>internal/node/governor\<close>: the durable book of a runtime's grants and the accounts that
  spend from it (\<open>store.go\<close>, \<open>authority.go\<close>, \<open>authority_update.go\<close>, \<open>credit.go\<close>). The
  database of \<open>go.etcd.io/bbolt\<close> is its two buckets; a transaction either installs all of its
  writes or, when the function fails or the commit does, none. The failures of coming commits
  are the list \<open>db_faults\<close>. The store's mutex orders its operations, but the accounts
  spend without it: the operations are written here as they run alone, and the section on runs takes them
  apart into the steps between which an account can spend. The field
  \<open>reserved\<close> of an account's backing is kept beside the database, keyed by the grant: it is
  memory, and is gone when the process ends. Opening the database file is not modelled: \<open>Open\<close>
  starts from the opened database.
\<close>

section \<open>State\<close>

record Grant =
  gr_ID :: string
  gr_ClientID :: string
  RateRevision :: u64
  gr_Policy :: Policy

record grant_record =
  rec_Grant :: Grant
  Reserved :: u64
  Suspended :: bool

record GovDB =
  db_journal :: "string option"
  db_grants :: "(string, grant_record) fmap"
  db_backing :: "(string, u64) fmap"
  db_faults :: "error option list"

record 'b GovStore =
  accounts :: "(string, ('b, string) Account) fmap"
  clients :: "(string, string) fmap"
  journalID :: string
  gov_clock :: bool
  gov_db :: GovDB

definition minimumReservationBlock :: u64 where [go_defs]: "minimumReservationBlock = 262144"
definition maximumReservationBlock :: u64 where [go_defs]: "maximumReservationBlock = 8388608"

text \<open>\<open>db.Update\<close> and \<open>db.Batch\<close>.\<close>

definition db_update :: "(GovDB \<Rightarrow> GovDB result) \<Rightarrow> GovDB \<Rightarrow> error option \<times> GovDB" where
  "db_update f d = (case f d of
      Inl err \<Rightarrow> (Some err, d)
    | Inr d' \<Rightarrow> (case db_faults d of
          [] \<Rightarrow> (None, d')
        | None # fs \<Rightarrow> (None, d'\<lparr>db_faults := fs\<rparr>)
        | Some err # fs \<Rightarrow> (Some err, d\<lparr>db_faults := fs\<rparr>)))"

definition save :: "grant_record \<Rightarrow> GovDB \<Rightarrow> GovDB" where
  "save r d = d\<lparr>db_grants := fmupd (gr_ID (rec_Grant r)) r (db_grants d)\<rparr>"

text \<open>Unmarshalling what a bucket holds under a key; nothing is an error of \<open>json.Unmarshal\<close>.\<close>

definition load_record :: "string \<Rightarrow> GovDB \<Rightarrow> grant_record result" where
  "load_record gid d = (case fmlookup (db_grants d) gid of None \<Rightarrow> Inl (StorageErr ''json'') | Some r \<Rightarrow> Inr r)"

definition Validate :: "'u uuid_lib \<Rightarrow> Grant \<Rightarrow> error option" where
  "Validate u g =
     (if \<not> ValidID u (gr_ID g) \<or> \<not> ValidID u (gr_ClientID g) \<or> \<not> ValidID u (Term (gr_Policy g))
         \<or> AuthorityRevision (gr_Policy g) \<noteq> 0 \<and> RateRevision g \<noteq> AuthorityRevision (gr_Policy g)
      then Some ErrGrant else validate (gr_Policy g))"

section \<open>The backing of an account\<close>

definition reservationSize :: "Policy \<Rightarrow> u64" where
  "reservationSize p =
     (if r_Mode (p_Upload p) = Unlimited \<or> r_Mode (p_Download p) = Unlimited then maximumReservationBlock
      else max minimumReservationBlock
             (min maximumReservationBlock ((BitsPerSecond (p_Upload p) + BitsPerSecond (p_Download p)) div 80)))"

definition backing_StorePolicy :: "string \<Rightarrow> Policy \<Rightarrow> GovDB \<Rightarrow> error option \<times> GovDB" where
  "backing_StorePolicy gid p d = db_update (\<lambda>d. case load_record gid d of
      Inl err \<Rightarrow> Inl err
    | Inr r \<Rightarrow>
        let cur = gr_Policy (rec_Grant r)
        in if Term cur \<noteq> Term p \<or> AuthorityRevision p < AuthorityRevision cur
              \<or> Revision cur \<ge> Revision p \<and> \<not> CreditAdvance cur p \<and> \<not> AuthorityAdvance cur p
           then Inl ErrRevision
           else Inr (save (r\<lparr>rec_Grant := (rec_Grant r)\<lparr>gr_Policy := p,
                  RateRevision := if AuthorityRevision p \<noteq> 0 then AuthorityRevision p
                                  else RateRevision (rec_Grant r)\<rparr>\<rparr>) d)) d"

definition next_reservation :: "Policy \<Rightarrow> u64 \<Rightarrow> u64" where
  "next_reservation p tot =
     (let block = reservationSize p;
          next0 = (if tot \<le> maxUint64 - block then tot + block else tot)
      in if \<not> QuotaUnlimited p then min next0 (CreditCeiling p) else next0)"

definition backing_Reserve :: "string \<Rightarrow> Policy \<Rightarrow> u64 \<Rightarrow> GovDB \<Rightarrow> error option \<times> GovDB" where
  "backing_Reserve gid p tot d =
     (if tot \<le> (case fmlookup (db_backing d) gid of None \<Rightarrow> 0 | Some n \<Rightarrow> n) then (None, d)
      else let next = next_reservation p tot
      in case db_update (\<lambda>d. case load_record gid d of
             Inl err \<Rightarrow> Inl err
           | Inr r \<Rightarrow>
               if Suspended r \<or> gr_Policy (rec_Grant r) \<noteq> p \<or> Reserved r > next
                  \<or> \<not> QuotaUnlimited p \<and> tot > CreditCeiling p then Inl ErrGrant
               else Inr (save (r\<lparr>Reserved := next\<rparr>) d)) d of
           (None, d') \<Rightarrow> (None, d'\<lparr>db_backing := fmupd gid next (db_backing d')\<rparr>)
         | (Some err, d') \<Rightarrow> (Some err, d'))"

definition gov_persist :: "(string, GovDB) persist_lib" where
  "gov_persist = \<lparr>StorePolicy = backing_StorePolicy, Reserve = backing_Reserve\<rparr>"

section \<open>Opening and applying grants\<close>

text \<open>Turns of a loop over a map that change the values under these keys.\<close>

definition turns :: "('a \<Rightarrow> 'a) \<Rightarrow> string fset \<Rightarrow> (string, 'a) fmap \<Rightarrow> (string, 'a) fmap" where
  "turns f ids = fmmap_keys (\<lambda>k a. if k |\<in>| ids then f a else a)"

definition clock_in :: "bool \<Rightarrow> string fset \<Rightarrow> 'b GovStore \<Rightarrow> 'b GovStore" where
  "clock_in c ids s = s\<lparr>accounts := turns (SetClock c) ids (accounts s)\<rparr>"

definition SetClock_store :: "bool \<Rightarrow> 'b GovStore \<Rightarrow> 'b GovStore" where
  "SetClock_store c s = clock_in c (fmdom (accounts s)) (s\<lparr>gov_clock := c\<rparr>)"

definition restore_record :: "'b rate_lib \<Rightarrow> 'u uuid_lib \<Rightarrow> int \<Rightarrow> grant_record \<Rightarrow> 'b GovStore \<Rightarrow>
    error option \<times> 'b GovStore" where
  "restore_record L u now r s =
     (let g = rec_Grant r; live = (Enabled (gr_Policy g) \<and> \<not> Suspended r)
      in if Validate u g \<noteq> None then (Some ErrGrant, s)
         else if live \<and> fmlookup (clients s) (gr_ClientID g) \<noteq> None then (Some ErrGrant, s)
         else let s1 = (if live then s\<lparr>clients := fmupd (gr_ClientID g) (gr_ID g) (clients s)\<rparr> else s)
         in case Restore L now (gr_Policy g) (Reserved r) (Some (gr_ID g)) of
              Inl err \<Rightarrow> (Some err, s1)
            | Inr a \<Rightarrow>
                let a1 = (if Suspended r then Quarantine a else a)
                in (None, s1\<lparr>accounts := fmupd (gr_ID g) (SetClock (gov_clock s) a1) (accounts s1),
                     gov_db := (gov_db s1)\<lparr>db_backing := fmupd (gr_ID g) (Reserved r) (db_backing (gov_db s1))\<rparr>\<rparr>))"

fun open_loop :: "'b rate_lib \<Rightarrow> 'u uuid_lib \<Rightarrow> int \<Rightarrow> (string \<times> grant_record) list \<Rightarrow> 'b GovStore \<Rightarrow>
    error option \<times> 'b GovStore" where
  "open_loop L u now [] s = (None, s)"
| "open_loop L u now ((key, r) # rest) s =
     (if gr_ID (rec_Grant r) \<noteq> key then (Some ErrGrant, s)
      else case restore_record L u now r s of
          (Some err, s') \<Rightarrow> (Some err, s')
        | (None, s') \<Rightarrow> open_loop L u now rest s')"

definition open_journal :: "'u uuid_lib \<Rightarrow> string \<Rightarrow> GovDB \<Rightarrow> string result" where
  "open_journal u fresh d = (case db_journal d of
      Some j \<Rightarrow> if ValidID u j then Inr j else Inl ErrGrant
    | None \<Rightarrow> Inr fresh)"

text \<open>\<open>fresh\<close> is what \<open>uuid.NewString\<close> returns; the process starts with no backings.\<close>

definition Open :: "'b rate_lib \<Rightarrow> 'u uuid_lib \<Rightarrow> int \<Rightarrow> string \<Rightarrow> GovDB \<Rightarrow> 'b GovStore result" where
  "Open L u now fresh d0 =
     (let d = d0\<lparr>db_backing := fmempty\<rparr>
      in case open_journal u fresh d of
           Inl err \<Rightarrow> Inl err
         | Inr j \<Rightarrow>
             (case open_loop L u now (entries_by_key (db_grants d))
                 \<lparr>accounts = fmempty, clients = fmempty, journalID = j, gov_clock = False, gov_db = d\<lparr>db_journal := Some j\<rparr>\<rparr> of
                (Some err, _) \<Rightarrow> Inl err
              | (None, s) \<Rightarrow> (case db_faults d of
                    Some err # _ \<Rightarrow> Inl err
                  | None # fs \<Rightarrow> Inr (s\<lparr>gov_db := (gov_db s)\<lparr>db_faults := fs\<rparr>\<rparr>)
                  | [] \<Rightarrow> Inr s)))"

definition client_of :: "string \<Rightarrow> 'b GovStore \<Rightarrow> string" where
  "client_of c s = (case fmlookup (clients s) c of None \<Rightarrow> '''' | Some gid \<Rightarrow> gid)"

definition index_client :: "string \<Rightarrow> string \<Rightarrow> bool \<Rightarrow> 'b GovStore \<Rightarrow> 'b GovStore" where
  "index_client client gid enabled s =
     (if enabled then s\<lparr>clients := fmupd client gid (clients s)\<rparr>
      else if client_of client s = gid then s\<lparr>clients := fmdrop client (clients s)\<rparr> else s)"

definition save_new :: "'b rate_lib \<Rightarrow> 'u uuid_lib \<Rightarrow> int \<Rightarrow> Grant \<Rightarrow> 'b GovStore \<Rightarrow> error option \<times> 'b GovStore" where
  "save_new L u now g s =
     (let r = \<lparr>rec_Grant = g, Reserved = 0, Suspended = False\<rparr>
      in case db_update (\<lambda>d. Inr (save r d)) (gov_db s) of
           (Some err, d') \<Rightarrow> (Some err, s\<lparr>gov_db := d'\<rparr>)
         | (None, d') \<Rightarrow> restore_record L u now r (s\<lparr>gov_db := d'\<rparr>))"

text \<open>The record of a grant's ID, empty where there is none, and what both writers refuse of it.\<close>

definition saved_id :: "string \<Rightarrow> GovDB \<Rightarrow> string" where
  "saved_id gid d = (case fmlookup (db_grants d) gid of None \<Rightarrow> '''' | Some r \<Rightarrow> gr_ID (rec_Grant r))"

definition saved_differs :: "Grant \<Rightarrow> GovDB \<Rightarrow> bool" where
  "saved_differs g d = (case fmlookup (db_grants d) (gr_ID g) of
      None \<Rightarrow> False
    | Some r \<Rightarrow> Suspended r \<or> gr_ClientID (rec_Grant r) \<noteq> gr_ClientID g
        \<or> Term (gr_Policy (rec_Grant r)) \<noteq> Term (gr_Policy g))"

definition saved_conflict :: "Grant \<Rightarrow> GovDB \<Rightarrow> bool" where
  "saved_conflict g d = (case fmlookup (db_grants d) (gr_ID g) of
      None \<Rightarrow> False
    | Some r \<Rightarrow> gr_ID (rec_Grant r) \<noteq> '''' \<and> (gr_ClientID (rec_Grant r) \<noteq> gr_ClientID g
          \<or> Term (gr_Policy (rec_Grant r)) \<noteq> Term (gr_Policy g)) \<or> Suspended r)"

definition Apply_store :: "'b rate_lib \<Rightarrow> 'u uuid_lib \<Rightarrow> int \<Rightarrow> Grant \<Rightarrow> 'b GovStore \<Rightarrow> error option \<times> 'b GovStore" where
  "Apply_store L u now g s =
     (if Validate u g \<noteq> None then (Some ErrGrant, s)
      else if Enabled (gr_Policy g) \<and> client_of (gr_ClientID g) s \<noteq> '''' \<and> client_of (gr_ClientID g) s \<noteq> gr_ID g
        then (Some ErrGrant, s)
      else if saved_conflict g (gov_db s) then (Some ErrGrant, s)
      else case fmlookup (accounts s) (gr_ID g) of
          Some a \<Rightarrow>
            let p = RetainCredit (gr_Policy g) (policy a)
            in (case Apply L gov_persist now p a (gov_db s) of
                  (Some err, a', d') \<Rightarrow> (Some err, s\<lparr>accounts := fmupd (gr_ID g) a' (accounts s), gov_db := d'\<rparr>)
                | (None, a', d') \<Rightarrow>
                    (None, index_client (gr_ClientID g) (gr_ID g) (Enabled p)
                       (s\<lparr>accounts := fmupd (gr_ID g) a' (accounts s), gov_db := d'\<rparr>)))
        | None \<Rightarrow>
            (case save_new L u now g s of
               (Some err, s') \<Rightarrow> (Some err, s')
             | (None, s') \<Rightarrow> (None, index_client (gr_ClientID g) (gr_ID g) (Enabled (gr_Policy g)) s')))"

definition Lookup :: "string \<Rightarrow> 'b GovStore \<Rightarrow> ('b, string) Account option" where
  "Lookup client s = fmlookup (accounts s) (client_of client s)"

section \<open>Reconciling, authority and credit\<close>

fun reconcile_check :: "'u uuid_lib \<Rightarrow> Grant list \<Rightarrow> string fset \<Rightarrow> string fset \<Rightarrow> string fset option" where
  "reconcile_check u [] wanted seen = Some wanted"
| "reconcile_check u (g # gs) wanted seen =
     (if Validate u g \<noteq> None \<or> gr_ID g |\<in>| wanted \<or> gr_ClientID g |\<in>| seen then None
      else reconcile_check u gs (finsert (gr_ID g) wanted) (finsert (gr_ClientID g) seen))"

text \<open>The transaction of \<open>Reconcile\<close>; a turn touches only its own key, so the keys are taken in order.\<close>

fun suspend_loop :: "string list \<Rightarrow> string fset \<Rightarrow> GovDB \<Rightarrow> GovDB result" where
  "suspend_loop [] wanted d = Inr d"
| "suspend_loop (gid # ids) wanted d =
     (if gid |\<in>| wanted then suspend_loop ids wanted d
      else case load_record gid d of
          Inl err \<Rightarrow> Inl err
        | Inr r \<Rightarrow> suspend_loop ids wanted (save (r\<lparr>Suspended := True\<rparr>) d))"

fun apply_all :: "'b rate_lib \<Rightarrow> 'u uuid_lib \<Rightarrow> int \<Rightarrow> Grant list \<Rightarrow> 'b GovStore \<Rightarrow> error option \<times> 'b GovStore" where
  "apply_all L u now [] s = (None, s)"
| "apply_all L u now (g # gs) s =
     (case Apply_store L u now g s of
        (Some err, s') \<Rightarrow> (Some err, s')
      | (None, s') \<Rightarrow> apply_all L u now gs s')"

definition quarantine_in :: "string fset \<Rightarrow> 'b GovStore \<Rightarrow> 'b GovStore" where
  "quarantine_in ids s = s\<lparr>accounts := turns Quarantine ids (accounts s)\<rparr>"

definition drop_clients :: "string fset \<Rightarrow> 'b GovStore \<Rightarrow> 'b GovStore" where
  "drop_clients wanted s = s\<lparr>clients := fmfilter (\<lambda>c. the (fmlookup (clients s) c) |\<in>| wanted) (clients s)\<rparr>"

definition unwanted :: "string fset \<Rightarrow> 'b GovStore \<Rightarrow> string fset" where
  "unwanted wanted s = ffilter (\<lambda>gid. gid |\<notin>| wanted) (fmdom (accounts s))"

definition retire :: "string fset \<Rightarrow> 'b GovStore \<Rightarrow> 'b GovStore" where
  "retire wanted s = drop_clients wanted (quarantine_in (unwanted wanted s) s)"

definition suspend_tx :: "string fset \<Rightarrow> 'b GovStore \<Rightarrow> error option \<times> GovDB" where
  "suspend_tx wanted s = db_update (suspend_loop (sorted_list_of_fset (fmdom (accounts s))) wanted) (gov_db s)"

text \<open>
  \<open>Reconcile\<close> as it runs when nothing else does. Other goroutines do run between its commit, the turns of
  the quarantine and the calls of \<open>Apply\<close>; the runs below take it apart there.
\<close>

definition Reconcile :: "'b rate_lib \<Rightarrow> 'u uuid_lib \<Rightarrow> int \<Rightarrow> Grant list \<Rightarrow> 'b GovStore \<Rightarrow> error option \<times> 'b GovStore" where
  "Reconcile L u now grants s = (case reconcile_check u grants {||} {||} of
      None \<Rightarrow> (Some ErrGrant, s)
    | Some wanted \<Rightarrow>
        (case suspend_tx wanted s of
           (Some err, d') \<Rightarrow> (Some err, s\<lparr>gov_db := d'\<rparr>)
         | (None, d') \<Rightarrow> apply_all L u now grants (retire wanted (s\<lparr>gov_db := d'\<rparr>))))"

fun observe_records :: "string list \<Rightarrow> GovDB \<Rightarrow> Grant list result" where
  "observe_records [] d = Inr []"
| "observe_records (gid # ids) d = (case load_record gid d of
      Inl err \<Rightarrow> Inl err
    | Inr r \<Rightarrow> (case observe_records ids d of Inl err \<Rightarrow> Inl err | Inr gs \<Rightarrow> Inr (rec_Grant r # gs)))"

definition Observe_store :: "'b GovStore \<Rightarrow> (Grant \<times> Snapshot option) list result" where
  "Observe_store s = (case observe_records (sorted_list_of_fset (fmdom (accounts s))) (gov_db s) of
      Inl err \<Rightarrow> Inl err
    | Inr gs \<Rightarrow> Inr (map (\<lambda>g. (g, map_option account_snapshot (fmlookup (accounts s) (gr_ID g)))) gs))"

text \<open>The observation of one grant for a page of \<open>Authority\<close>.\<close>

definition page_entry :: "int \<Rightarrow> string \<Rightarrow> grant_record \<Rightarrow> Snapshot \<Rightarrow> AuthGrant result" where
  "page_entry now gid saved snap =
     (if gr_Policy (rec_Grant saved) \<noteq> s_Policy snap \<or> PreviouslyReserved snap > maxUint64 - AdmittedUpload snap
         \<or> PreviouslyReserved snap + AdmittedUpload snap > maxUint64 - AdmittedDownload snap then Inl ErrGrant
      else let admitted = PreviouslyReserved snap + AdmittedUpload snap + AdmittedDownload snap
      in if admitted > Reserved saved then Inl ErrGrant
         else let p = s_Policy snap;
                  active = (Enabled p \<and> \<not> Suspended saved \<and> \<not> s_Quarantined snap
                    \<and> (ExpiresUnixMilli p = 0 \<or> unix_milli now < ExpiresUnixMilli p)
                    \<and> (r_Mode (p_Upload p) \<noteq> Blocked \<or> r_Mode (p_Download p) \<noteq> Blocked));
                  remaining = (if active \<and> \<not> QuotaUnlimited p \<and> CreditCeiling p > admitted
                    then CreditCeiling p - admitted else 0);
                  known = (PreviouslyReserved snap = 0)
         in Inr \<lparr>GrantID = gid, ClientID = gr_ClientID (rec_Grant saved), TermID = Term p,
              PolicyRevision = Revision p, g_AuthorityRevision = AuthorityRevision p, g_CreditCeiling = CreditCeiling p,
              g_QuotaUnlimited = QuotaUnlimited p, ReservedHighWater = Reserved saved,
              BurnedHighWater = PreviouslyReserved snap, AdmissionHighWater = if known then admitted else 0,
              AdmissionKnown = known, SpendableBytes = remaining, SpendableKnown = (\<not> QuotaUnlimited p),
              AuthorizationActive = active\<rparr>)"

fun page_loop :: "int \<Rightarrow> string list \<Rightarrow> 'b GovStore \<Rightarrow> AuthGrant list result" where
  "page_loop now [] s = Inr []"
| "page_loop now (gid # ids) s =
     (case fmlookup (accounts s) gid of None \<Rightarrow> Inl ErrGrant | Some a \<Rightarrow>
      case load_record gid (gov_db s) of Inl err \<Rightarrow> Inl err | Inr saved \<Rightarrow>
      case page_entry now gid saved (account_snapshot a) of Inl err \<Rightarrow> Inl err | Inr g \<Rightarrow>
      case page_loop now ids s of Inl err \<Rightarrow> Inl err | Inr gs \<Rightarrow> Inr (g # gs))"

text \<open>\<open>ctx\<close> is the context's error while the page is read; the cursor walks the keys in order.\<close>

definition Authority_page :: "'u uuid_lib \<Rightarrow> error option \<Rightarrow> int \<Rightarrow> int result \<Rightarrow> string \<Rightarrow> int \<Rightarrow> 'b GovStore \<Rightarrow> Page result" where
  "Authority_page u ctx now0 clk after limit s =
     (if after \<noteq> '''' \<and> \<not> ValidID u after \<or> limit \<le> 0 \<or> limit > int MaxEntries then Inl ErrGrant
      else case (if gov_clock s then clk else Inr now0) of Inl err \<Rightarrow> Inl err | Inr now \<Rightarrow>
        let keys = sorted_list_of_fset (fmdom (db_grants (gov_db s)));
            rest = (if after = '''' then keys else filter (\<lambda>k. after < k) keys);
            ids = take (nat limit) rest;
            next = (if length rest > nat limit then last ids else '''')
        in if ctx \<noteq> None \<and> ids \<noteq> [] then Inl (the ctx)
           else if list_ex (\<lambda>gid. fmlookup (accounts s) gid = None) ids then Inl ErrGrant
           else case page_loop now ids s of Inl err \<Rightarrow> Inl err
             | Inr gs \<Rightarrow> Inr \<lparr>Grants = gs, Next = next\<rparr>)"

text \<open>What the turn of a grant sees: the context's error, the time and the clock's reading.\<close>

type_synonym moments = "string \<Rightarrow> error option \<times> int \<times> int result"

definition update_grant :: "PolicyUpdate \<Rightarrow> Grant" where
  "update_grant x = \<lparr>gr_ID = pu_GrantID x, gr_ClientID = pu_ClientID x,
     RateRevision = AuthorityRevision (pu_Policy x), gr_Policy = pu_Policy x\<rparr>"

fun validate_updates :: "'b rate_lib \<Rightarrow> 'u uuid_lib \<Rightarrow> moments \<Rightarrow> PolicyUpdate list \<Rightarrow> string fset \<Rightarrow> string fset \<Rightarrow>
    'b GovStore \<Rightarrow> error option" where
  "validate_updates L u env [] seen seenc s = None"
| "validate_updates L u env (x # xs) seen seenc s =
     (case env (pu_GrantID x) of (ctx, now, clk) \<Rightarrow>
      let g = update_grant x; p = gr_Policy g
      in if ctx \<noteq> None then ctx
         else if Validate u g \<noteq> None \<or> gr_ID g |\<in>| seen \<or> gr_ClientID g |\<in>| seenc
            \<or> \<not> Enabled p \<and> (r_Mode (p_Upload p) \<noteq> Blocked \<or> r_Mode (p_Download p) \<noteq> Blocked) then Some ErrGrant
         else case (if saved_id (gr_ID g) (gov_db s) \<noteq> '''' then
                 (if saved_differs g (gov_db s) then Some ErrGrant
                  else case fmlookup (accounts s) (gr_ID g) of
                     None \<Rightarrow> Some ErrGrant
                   | Some a \<Rightarrow> ValidateAuthority now clk p a)
               else if client_of (gr_ClientID g) s \<noteq> '''' then Some ErrGrant
               else (case New_account L p :: (error, ('b, string) Account) sum of
                     Inl err \<Rightarrow> Some err
                   | Inr a \<Rightarrow> ValidateAuthority now clk p (SetClock (gov_clock s) a))) of
             Some err \<Rightarrow> Some err
           | None \<Rightarrow> validate_updates L u env xs (finsert (gr_ID g) seen) (finsert (gr_ClientID g) seenc) s)"

definition validateAuthorityLocked :: "'b rate_lib \<Rightarrow> 'u uuid_lib \<Rightarrow> moments \<Rightarrow> PolicyUpdate list \<Rightarrow> 'b GovStore \<Rightarrow> error option" where
  "validateAuthorityLocked L u env xs s =
     (if xs = [] \<or> length xs > MaxAuthorityUpdates then Some ErrGrant
      else validate_updates L u env xs {||} {||} s)"

definition apply_update :: "'b rate_lib \<Rightarrow> 'u uuid_lib \<Rightarrow> int \<Rightarrow> int result \<Rightarrow> PolicyUpdate \<Rightarrow> 'b GovStore \<Rightarrow>
    error option \<times> 'b GovStore" where
  "apply_update L u now clk x s =
     (case (case fmlookup (accounts s) (pu_GrantID x) of
          Some a \<Rightarrow> (case ApplyAuthority L gov_persist now clk (pu_Policy x) a (gov_db s) of
              (r, a', d') \<Rightarrow> (r, s\<lparr>accounts := fmupd (pu_GrantID x) a' (accounts s), gov_db := d'\<rparr>))
        | None \<Rightarrow> save_new L u now (update_grant x) s) of
        (Some err, s') \<Rightarrow> (Some err, s')
      | (None, s') \<Rightarrow> (None, index_client (pu_ClientID x) (pu_GrantID x) (Enabled (pu_Policy x)) s'))"

fun apply_updates :: "'b rate_lib \<Rightarrow> 'u uuid_lib \<Rightarrow> moments \<Rightarrow> PolicyUpdate list \<Rightarrow> 'b GovStore \<Rightarrow> error option \<times> 'b GovStore" where
  "apply_updates L u env [] s = (None, s)"
| "apply_updates L u env (x # xs) s =
     (case env (pu_GrantID x) of (ctx, now, clk) \<Rightarrow>
      if ctx \<noteq> None then (ctx, s)
      else case apply_update L u now clk x s of
          (Some err, s') \<Rightarrow> (Some err, s')
        | (None, s') \<Rightarrow> apply_updates L u env xs s')"

definition ApplyAuthority_store :: "'b rate_lib \<Rightarrow> 'u uuid_lib \<Rightarrow> moments \<Rightarrow> moments \<Rightarrow> PolicyUpdate list \<Rightarrow> 'b GovStore \<Rightarrow>
    error option \<times> 'b GovStore" where
  "ApplyAuthority_store L u env env' xs s = (case validateAuthorityLocked L u env xs s of
      Some err \<Rightarrow> (Some err, s)
    | None \<Rightarrow> apply_updates L u env' xs s)"

fun credit_check :: "Credit list \<Rightarrow> 'b GovStore \<Rightarrow> bool" where
  "credit_check [] s = True"
| "credit_check (c # cs) s = (case fmlookup (db_grants (gov_db s)) (c_GrantID c) of
      None \<Rightarrow> False
    | Some r \<Rightarrow>
        \<not> (Suspended r \<or> gr_ClientID (rec_Grant r) \<noteq> c_ClientID c \<or> Term (gr_Policy (rec_Grant r)) \<noteq> c_TermID c
           \<or> Revision (gr_Policy (rec_Grant r)) \<noteq> c_PolicyRevision c \<or> fmlookup (accounts s) (c_GrantID c) = None)
        \<and> credit_check cs s)"

fun apply_credits :: "'b rate_lib \<Rightarrow> moments \<Rightarrow> Credit list \<Rightarrow> 'b GovStore \<Rightarrow> error option \<times> 'b GovStore" where
  "apply_credits L env [] s = (None, s)"
| "apply_credits L env (c # cs) s =
     (case env (c_GrantID c) of (ctx, now, clk) \<Rightarrow>
      if ctx \<noteq> None then (ctx, s)
      else case fmlookup (accounts s) (c_GrantID c) of
          None \<Rightarrow> (Some ErrGrant, s)
        | Some a \<Rightarrow>
            (case ApplyCredit L gov_persist now clk (c_TermID c) (c_PolicyRevision c) (c_CreditRevision c) (c_CreditCeiling c)
                a (gov_db s) of
               (r, a', d') \<Rightarrow>
                 let s' = s\<lparr>accounts := fmupd (c_GrantID c) a' (accounts s), gov_db := d'\<rparr>
                 in if r \<noteq> None then (r, s') else apply_credits L env cs s'))"

definition ApplyCredit_store :: "'b rate_lib \<Rightarrow> 'u uuid_lib \<Rightarrow> moments \<Rightarrow> Credit list \<Rightarrow> 'b GovStore \<Rightarrow>
    error option \<times> 'b GovStore" where
  "ApplyCredit_store L u env credits s =
     (if ValidateCredits u credits \<noteq> None then (Some ErrGrant, s)
      else if \<not> credit_check credits s then (Some ErrGrant, s)
      else apply_credits L env credits s)"

section \<open>The contract of the backing\<close>

definition saved_policy :: "string \<Rightarrow> GovDB \<Rightarrow> Policy" where
  "saved_policy gid d = gr_Policy (rec_Grant (the (fmlookup (db_grants d) gid)))"

definition saved_reserved :: "string \<Rightarrow> GovDB \<Rightarrow> u64" where
  "saved_reserved gid d = Reserved (the (fmlookup (db_grants d) gid))"

definition saved_label :: "string \<Rightarrow> GovDB \<Rightarrow> string option \<times> (string \<times> bool) option" where
  "saved_label gid d = (db_journal d, map_option (\<lambda>r. (gr_ClientID (rec_Grant r), Suspended r)) (fmlookup (db_grants d) gid))"

text \<open>A grant's book is sound: it is filed under its own valid grant and the backing knows its reservation.\<close>

definition book_ok :: "'u uuid_lib \<Rightarrow> string \<Rightarrow> GovDB \<Rightarrow> bool" where
  "book_ok u gid d \<longleftrightarrow> (\<exists>r. fmlookup (db_grants d) gid = Some r \<and> gr_ID (rec_Grant r) = gid
     \<and> Validate u (rec_Grant r) = None \<and> fmlookup (db_backing d) gid = Some (Reserved r))"

lemmas book_defs = saved_policy_def saved_reserved_def saved_label_def book_ok_def

lemma db_update_cases:
  assumes "db_update f d = (r, d')"
  shows "(\<exists>fs. r \<noteq> None \<and> d' = d\<lparr>db_faults := fs\<rparr>)
    \<or> (\<exists>d1 fs. r = None \<and> f d = Inr d1 \<and> d' = d1\<lparr>db_faults := fs\<rparr>)"
proof (cases "f d")
  case (Inl e)
  then show ?thesis using assms by (intro disjI1 exI [of _ "db_faults d"]) (auto simp: db_update_def)
next
  case (Inr d1)
  show ?thesis
  proof (cases "db_faults d")
    case (Cons x fs)
    then show ?thesis using assms Inr by (cases x) (auto simp: db_update_def)
  next
    case Nil
    then show ?thesis
      using assms Inr by (intro disjI2 exI [of _ d1] exI [of _ "db_faults d1"]) (auto simp: db_update_def)
  qed
qed

lemma faults_only [simp]:
  "saved_policy k (d\<lparr>db_faults := fs\<rparr>) = saved_policy k d" "saved_reserved k (d\<lparr>db_faults := fs\<rparr>) = saved_reserved k d"
  "saved_label k (d\<lparr>db_faults := fs\<rparr>) = saved_label k d" "book_ok u k (d\<lparr>db_faults := fs\<rparr>) = book_ok u k d"
  by (simp_all add: book_defs)

lemma backing_StorePolicy_cases:
  assumes "fmlookup (db_grants d) gid = Some rc" and "backing_StorePolicy gid p d = (r, d')"
  shows "(\<exists>fs. r \<noteq> None \<and> d' = d\<lparr>db_faults := fs\<rparr>)
    \<or> (\<exists>fs. r = None \<and> Term p = Term (gr_Policy (rec_Grant rc)) \<and>
         d' = (save (rc\<lparr>rec_Grant := (rec_Grant rc)\<lparr>gr_Policy := p, RateRevision := if AuthorityRevision p \<noteq> 0
             then AuthorityRevision p else RateRevision (rec_Grant rc)\<rparr>\<rparr>) d)\<lparr>db_faults := fs\<rparr>)"
proof -
  let ?rc = "rc\<lparr>rec_Grant := (rec_Grant rc)\<lparr>gr_Policy := p, RateRevision := if AuthorityRevision p \<noteq> 0
     then AuthorityRevision p else RateRevision (rec_Grant rc)\<rparr>\<rparr>"
  from db_update_cases [OF assms(2) [unfolded backing_StorePolicy_def]] consider
      fs where "r \<noteq> None" "d' = d\<lparr>db_faults := fs\<rparr>"
    | fs where "r = None" "Term p = Term (gr_Policy (rec_Grant rc))" "d' = (save ?rc d)\<lparr>db_faults := fs\<rparr>"
    using assms(1) by (auto simp: load_record_def Let_def split: if_splits)
  then show ?thesis by cases auto
qed

lemma next_reservation_covers:
  assumes "\<not> QuotaUnlimited p \<Longrightarrow> tot \<le> CreditCeiling p"
  shows "tot \<le> next_reservation p tot" "\<not> QuotaUnlimited p \<Longrightarrow> next_reservation p tot \<le> CreditCeiling p"
proof -
  let ?b = "reservationSize p"
  have "tot \<le> (if tot \<le> maxUint64 - ?b then tot + ?b else tot)"
  proof (cases "tot \<le> maxUint64 - ?b")
    case True
    then have "unat ?b + unat tot < 2 ^ 64" using word_fits_iff by blast
    then show ?thesis using True by (simp add: word_le_nat_alt unat_add_fits add.commute)
  qed simp
  then show "tot \<le> next_reservation p tot" "\<not> QuotaUnlimited p \<Longrightarrow> next_reservation p tot \<le> CreditCeiling p"
    using assms by (auto simp: next_reservation_def Let_def)
qed

lemma backing_Reserve_cases:
  assumes rc: "fmlookup (db_grants d) gid = Some rc" and b: "fmlookup (db_backing d) gid = Some (Reserved rc)"
    and "backing_Reserve gid p tot d = (r, d')"
  shows "(\<exists>fs. r \<noteq> None \<and> d' = d\<lparr>db_faults := fs\<rparr>) \<or> (r = None \<and> tot \<le> Reserved rc \<and> d' = d)
    \<or> (\<exists>nx fs. r = None \<and> tot \<le> nx \<and> Reserved rc \<le> nx \<and> \<not> Suspended rc \<and> gr_Policy (rec_Grant rc) = p
         \<and> (\<not> QuotaUnlimited p \<longrightarrow> nx \<le> CreditCeiling p)
         \<and> d' = (save (rc\<lparr>Reserved := nx\<rparr>) d)\<lparr>db_faults := fs, db_backing := fmupd gid nx (db_backing d)\<rparr>)"
proof (cases "tot \<le> Reserved rc")
  case True
  then show ?thesis using assms by (simp add: backing_Reserve_def)
next
  case False
  let ?nx = "next_reservation p tot"
  let ?f = "\<lambda>d. case load_record gid d of
             Inl err \<Rightarrow> Inl err
           | Inr r \<Rightarrow>
               if Suspended r \<or> gr_Policy (rec_Grant r) \<noteq> p \<or> Reserved r > ?nx
                  \<or> \<not> QuotaUnlimited p \<and> tot > CreditCeiling p then Inl ErrGrant
               else Inr (save (r\<lparr>Reserved := ?nx\<rparr>) d)"
  obtain q d1 where q: "db_update ?f d = (q, d1)" by fastforce
  have rd: "r = q" "d' = (if q = None then d1\<lparr>db_backing := fmupd gid ?nx (db_backing d1)\<rparr> else d1)"
    using assms(3) False b q unfolding backing_Reserve_def Let_def by (auto split: option.splits)
  from db_update_cases [OF q] consider fs where "q \<noteq> None" "d1 = d\<lparr>db_faults := fs\<rparr>"
    | d2 fs where "q = None" "?f d = Inr d2" "d1 = d2\<lparr>db_faults := fs\<rparr>" by blast
  then show ?thesis
  proof cases
    case 1
    then show ?thesis using rd by auto
  next
    case (2 d2 fs)
    from 2(2) rc have g: "\<not> Suspended rc" "gr_Policy (rec_Grant rc) = p" "Reserved rc \<le> ?nx"
      "\<not> QuotaUnlimited p \<Longrightarrow> tot \<le> CreditCeiling p" "d2 = save (rc\<lparr>Reserved := ?nx\<rparr>) d"
      by (auto simp: load_record_def split: if_splits)
    show ?thesis
      using g(1-3) next_reservation_covers [OF g(4)] rd 2
      by (intro disjI2 exI [of _ ?nx] exI [of _ fs]) (simp add: g(5) save_def)
  qed
qed

lemma Validate_policy:
  assumes "Validate u g = None" and "validate p = None" and "Term p = Term (gr_Policy g)"
  shows "Validate u (g\<lparr>gr_Policy := p, RateRevision := if AuthorityRevision p \<noteq> 0 then AuthorityRevision p
     else RateRevision g\<rparr>) = None"
  using assms by (auto simp: Validate_def split: if_splits)

interpretation gov: reservation gov_persist "book_ok u" saved_policy saved_reserved saved_label for u
proof
  fix h d p r and d' :: GovDB and n k
  assume ok: "book_ok u h d"
  then obtain rc where rc: "fmlookup (db_grants d) h = Some rc" "gr_ID (rec_Grant rc) = h"
    "Validate u (rec_Grant rc) = None" "fmlookup (db_backing d) h = Some (Reserved rc)" by (auto simp: book_ok_def)
  {
    assume "StorePolicy gov_persist h p d = (r, d')"
    then have st: "backing_StorePolicy h p d = (r, d')" by (simp add: gov_persist_def)
    note c = backing_StorePolicy_cases [OF rc(1) st]
    show "saved_label k d' = saved_label k d
      \<and> (k \<noteq> h \<longrightarrow> book_ok u k d' = book_ok u k d \<and> saved_policy k d' = saved_policy k d \<and> saved_reserved k d' = saved_reserved k d)"
      using c rc by (auto simp: book_defs save_def)
    assume "validate p = None"
    then show "book_ok u h d' \<and> saved_reserved h d' = saved_reserved h d
      \<and> saved_policy h d' = (if r = None then p else saved_policy h d)"
      using c rc ok Validate_policy [OF rc(3), of p] by (elim disjE exE conjE) (auto simp: book_defs save_def)
  next
    assume "Reserve gov_persist h p n d = (r, d')"
    then have st: "backing_Reserve h p n d = (r, d')" by (simp add: gov_persist_def)
    note c = backing_Reserve_cases [OF rc(1,4) st]
    show "saved_label k d' = saved_label k d
      \<and> (k \<noteq> h \<longrightarrow> book_ok u k d' = book_ok u k d \<and> saved_policy k d' = saved_policy k d \<and> saved_reserved k d' = saved_reserved k d)"
      using c rc by (elim disjE exE conjE) (auto simp: book_defs save_def)
    show "book_ok u h d' \<and> saved_policy h d' = saved_policy h d \<and> saved_reserved h d \<le> saved_reserved h d'
      \<and> (r = None \<longrightarrow> n \<le> saved_reserved h d')"
      using c rc ok by (elim disjE exE conjE) (auto simp: book_defs save_def)
  }
qed

section \<open>The invariant of the store\<close>

abbreviation in_book :: "'u uuid_lib \<Rightarrow> string \<Rightarrow> ('b, string) Account \<Rightarrow> GovDB \<Rightarrow> bool" where
  "in_book u \<equiv> synced (book_ok u) saved_policy saved_reserved"

text \<open>The grant \<open>gid\<close> forwards for the client \<open>c\<close>.\<close>

definition forwards :: "'b GovStore \<Rightarrow> string \<Rightarrow> string \<Rightarrow> bool" where
  "forwards s gid c \<longleftrightarrow> (\<exists>a. fmlookup (accounts s) gid = Some a \<and> Enabled (policy a)
     \<and> snd (saved_label gid (gov_db s)) = Some (c, False))"

definition accounts_ok :: "'b rate_lib \<Rightarrow> 'u uuid_lib \<Rightarrow> 'b GovStore \<Rightarrow> bool" where
  "accounts_ok L u s \<longleftrightarrow> (\<forall>gid a. fmlookup (accounts s) gid = Some a \<longrightarrow> account_ok L a \<and> in_book u gid a (gov_db s)
     \<and> snd (the (snd (saved_label gid (gov_db s)))) = quarantined a)"

definition clients_ok :: "'b GovStore \<Rightarrow> bool" where
  "clients_ok s \<longleftrightarrow> (\<forall>c gid. fmlookup (clients s) c = Some gid \<longleftrightarrow> forwards s gid c)"

definition gov_ok :: "'b rate_lib \<Rightarrow> 'u uuid_lib \<Rightarrow> 'b GovStore \<Rightarrow> bool" where
  "gov_ok L u s \<longleftrightarrow> fmdom (accounts s) = fmdom (db_grants (gov_db s)) \<and> accounts_ok L u s \<and> clients_ok s
     \<and> (\<exists>j. db_journal (gov_db s) = Some j \<and> ValidID u j)"

text \<open>What an operation on one account leaves of the rest of the database.\<close>

definition only_book :: "'u uuid_lib \<Rightarrow> string \<Rightarrow> GovDB \<Rightarrow> GovDB \<Rightarrow> bool" where
  "only_book u gid d d' \<longleftrightarrow> (\<forall>k. saved_label k d' = saved_label k d \<and> (k \<noteq> gid \<longrightarrow> book_ok u k d' = book_ok u k d
     \<and> saved_policy k d' = saved_policy k d \<and> saved_reserved k d' = saved_reserved k d))"

lemma only_book_refl [simp]: "only_book u gid d d"
  by (simp add: only_book_def)

lemma label_dom:
  assumes "\<And>k. saved_label k d' = saved_label k d"
  shows "fmdom (db_grants d') = fmdom (db_grants d) \<and> db_journal d' = db_journal d"
proof -
  have "k |\<in>| fmdom (db_grants x) \<longleftrightarrow> snd (saved_label k x) \<noteq> None" for k x
    by (simp add: saved_label_def fmlookup_dom_iff)
  moreover have "db_journal x = fst (saved_label [] x)" for x by (simp add: saved_label_def)
  ultimately show ?thesis using assms by (simp add: fset_eq_iff)
qed

lemma only_book_dom: "only_book u gid d d' \<Longrightarrow> fmdom (db_grants d') = fmdom (db_grants d) \<and> db_journal d' = db_journal d"
  by (rule label_dom) (simp add: only_book_def)

lemma accounts_ok_upd:
  assumes ok: "accounts_ok L u s" and a: "account_ok L a'" "in_book u gid a' d'" and o: "only_book u gid (gov_db s) d'"
    and q: "snd (the (snd (saved_label gid (gov_db s)))) = quarantined a'"
  shows "accounts_ok L u (s\<lparr>accounts := fmupd gid a' (accounts s), gov_db := d'\<rparr>)"
  using assms unfolding accounts_ok_def synced_def only_book_def by auto

lemma forwards_upd:
  assumes "only_book u gid (gov_db s) d'"
  shows "forwards (s\<lparr>accounts := fmupd gid a' (accounts s), gov_db := d'\<rparr>) k c \<longleftrightarrow>
    (if k = gid then Enabled (policy a') \<and> snd (saved_label gid (gov_db s)) = Some (c, False) else forwards s k c)"
  using assms by (auto simp: forwards_def only_book_def)

lemma gov_ok_upd:
  assumes ok: "gov_ok L u s" and m: "fmlookup (accounts s) gid = Some a"
    and a: "account_ok L a'" "in_book u gid a' d'" and o: "only_book u gid (gov_db s) d'"
    and q: "quarantined a' = quarantined a" and e: "Enabled (policy a') = Enabled (policy a)"
  shows "gov_ok L u (s\<lparr>accounts := fmupd gid a' (accounts s), gov_db := d'\<rparr>)"
proof -
  let ?s = "s\<lparr>accounts := fmupd gid a' (accounts s), gov_db := d'\<rparr>"
  have "accounts_ok L u ?s"
    using ok m q by (intro accounts_ok_upd [OF _ a o]) (simp_all add: gov_ok_def accounts_ok_def)
  moreover have "clients_ok ?s"
    using ok m e forwards_upd [OF o, of a'] unfolding clients_ok_def gov_ok_def by (auto simp: forwards_def)
  moreover have "finsert gid (fmdom (accounts s)) = fmdom (accounts s)" using fmdomI [OF m] by auto
  ultimately show ?thesis using ok only_book_dom [OF o] by (simp add: gov_ok_def)
qed

lemma forwards_index [simp]: "forwards (index_client c gid e s) = forwards s"
  "accounts (index_client c gid e s) = accounts s" "gov_db (index_client c gid e s) = gov_db s"
  by (auto simp: index_client_def forwards_def fun_eq_iff)

lemma accounts_ok_index [simp]: "accounts_ok L u (index_client c gid e s) = accounts_ok L u s"
  by (simp add: accounts_ok_def)

lemma clients_index:
  assumes ok: "clients_ok s" and o: "only_book u gid (gov_db s) d'"
    and l: "snd (saved_label gid (gov_db s)) = Some (c, False)"
    and free: "Enabled (policy a') \<Longrightarrow> fmlookup (clients s) c = None \<or> fmlookup (clients s) c = Some gid"
  shows "clients_ok (index_client c gid (Enabled (policy a')) (s\<lparr>accounts := fmupd gid a' (accounts s), gov_db := d'\<rparr>))"
proof -
  have f: "fmlookup (clients s) x = Some k \<longleftrightarrow> forwards s k x" for x k using ok by (simp add: clients_ok_def)
  have own: "forwards s gid x \<Longrightarrow> x = c" for x using l by (auto simp: forwards_def)
  let ?s = "s\<lparr>accounts := fmupd gid a' (accounts s), gov_db := d'\<rparr>"
  have fw: "forwards ?s k x \<longleftrightarrow> (if k = gid then Enabled (policy a') \<and> x = c else fmlookup (clients s) x = Some k)" for k x
    using forwards_upd [OF o, of a'] l f by auto
  have off: "fmlookup (clients s) x = Some gid \<Longrightarrow> x = c" for x using f own by simp
  show ?thesis
  proof (cases "Enabled (policy a')")
    case True
    then show ?thesis
      using free [OF True] off unfolding clients_ok_def forwards_index fw
      by (auto simp: index_client_def split: if_splits)
  next
    case False
    then show ?thesis
      using off unfolding clients_ok_def forwards_index fw
      by (auto simp: index_client_def client_of_def split: option.splits if_splits)
  qed
qed

lemma locked_in_book:
  assumes "in_book u gid a d" and "validate p = None" and "applyLocked L gov_persist now p a d = (r, a', d')"
  shows "in_book u gid a' d'" "only_book u gid d d'" "r = None \<Longrightarrow> policy a' = p"
  using gov.locked_synced [OF assms] by (auto simp: only_book_def)

lemma take_in_book:
  assumes "limiter_ok L" and "account_ok L a" and "0 < n" "n < 2 ^ 63" and "dir \<le> Download"
    and "in_book u gid a d" and "take_once L gov_persist t dir n partial a d = (out, a', d')"
  shows "in_book u gid a' d'" "only_book u gid d d'" "saved_reserved gid d \<le> saved_reserved gid d'"
  using gov.take_synced [OF assms] by (auto simp: only_book_def)

lemma restore_record_ok:
  assumes L: "limiter_ok L" and v: "Validate u (rec_Grant r) = None" and gid: "gr_ID (rec_Grant r) = gid"
    and free: "Enabled (gr_Policy (rec_Grant r)) \<and> \<not> Suspended r \<Longrightarrow> fmlookup (clients s) (gr_ClientID (rec_Grant r)) = None"
    and d: "fmlookup (db_grants (gov_db s)) gid = Some r"
  obtains a where "restore_record L u now r s = (None, s\<lparr>clients := if Enabled (gr_Policy (rec_Grant r)) \<and> \<not> Suspended r
        then fmupd (gr_ClientID (rec_Grant r)) gid (clients s) else clients s, accounts := fmupd gid a (accounts s),
      gov_db := (gov_db s)\<lparr>db_backing := fmupd gid (Reserved r) (db_backing (gov_db s))\<rparr>\<rparr>)"
    "account_ok L a" "policy a = gr_Policy (rec_Grant r)" "spent a = unat (Reserved r)" "quarantined a = Suspended r"
    "persistence a = Some gid"
proof -
  have "validate (gr_Policy (rec_Grant r)) = None" using v by (simp add: Validate_def split: if_splits)
  then obtain b where b: "Restore L now (gr_Policy (rec_Grant r)) (Reserved r) (Some gid) = Inr b"
    by (simp add: Restore_def New_account_def)
  note ok = Restore_ok [OF L b]
  let ?a = "SetClock (gov_clock s) (if Suspended r then Quarantine b else b)"
  have "account_ok L ?a" "policy ?a = gr_Policy (rec_Grant r)" "spent ?a = unat (Reserved r)" "quarantined ?a = Suspended r"
    "persistence ?a = Some gid"
    using ok by (auto simp: SetClock_def Quarantine_def account_ok_def spent_def)
  moreover have "restore_record L u now r s = (None, s\<lparr>clients := if Enabled (gr_Policy (rec_Grant r)) \<and> \<not> Suspended r
        then fmupd (gr_ClientID (rec_Grant r)) gid (clients s) else clients s, accounts := fmupd gid ?a (accounts s),
      gov_db := (gov_db s)\<lparr>db_backing := fmupd gid (Reserved r) (db_backing (gov_db s))\<rparr>\<rparr>)"
  proof (cases "Enabled (gr_Policy (rec_Grant r)) \<and> \<not> Suspended r")
    case True
    then show ?thesis using free [OF True] v b gid by (simp add: restore_record_def Let_def)
  next
    case False
    then show ?thesis using v b gid unfolding restore_record_def Let_def by auto
  qed
  ultimately show thesis using that [of ?a] by blast
qed

lemma restore_keeps:
  assumes L: "limiter_ok L" and v: "Validate u (rec_Grant r) = None" and gid: "gr_ID (rec_Grant r) = gid"
    and free: "Enabled (gr_Policy (rec_Grant r)) \<and> \<not> Suspended r \<Longrightarrow> fmlookup (clients s) (gr_ClientID (rec_Grant r)) = None"
    and d: "fmlookup (db_grants (gov_db s)) gid = Some r"
    and ok: "accounts_ok L u s" "clients_ok s" and new: "fmlookup (accounts s) gid = None"
  obtains s' a where "restore_record L u now r s = (None, s')" "accounts s' = fmupd gid a (accounts s)" "policy a = gr_Policy (rec_Grant r)"
    "spent a = unat (Reserved r)" "accounts_ok L u s'" "clients_ok s'"
    "gov_db s' = (gov_db s)\<lparr>db_backing := fmupd gid (Reserved r) (db_backing (gov_db s))\<rparr>"
proof -
  obtain a where s': "restore_record L u now r s = (None, s\<lparr>clients := if Enabled (gr_Policy (rec_Grant r)) \<and> \<not> Suspended r
        then fmupd (gr_ClientID (rec_Grant r)) gid (clients s) else clients s, accounts := fmupd gid a (accounts s),
      gov_db := (gov_db s)\<lparr>db_backing := fmupd gid (Reserved r) (db_backing (gov_db s))\<rparr>\<rparr>)" (is "_ = (None, ?s)")
    and a: "account_ok L a" "policy a = gr_Policy (rec_Grant r)" "spent a = unat (Reserved r)" "quarantined a = Suspended r"
      "persistence a = Some gid"
    using restore_record_ok [OF L v gid free d] by metis
  have "accounts_ok L u ?s"
    using ok(1) a d v gid new unfolding accounts_ok_def synced_def by (auto simp: book_defs)
  moreover have "clients_ok ?s"
  proof -
    have f: "fmlookup (clients s) x = Some k \<longleftrightarrow> forwards s k x" for x k using ok(2) by (simp add: clients_ok_def)
    have "fmlookup (clients s) x \<noteq> Some gid" for x using f new by (auto simp: forwards_def)
    moreover have "forwards ?s k x \<longleftrightarrow> (if k = gid then Enabled (policy a) \<and> \<not> Suspended r \<and> x = gr_ClientID (rec_Grant r)
        else fmlookup (clients s) x = Some k)" for k x
      using d f by (auto simp: forwards_def saved_label_def)
    ultimately show ?thesis unfolding clients_ok_def using free a(2) by auto
  qed
  ultimately show thesis using that s' a by simp
qed

section \<open>Every operation keeps the invariant\<close>

definition spent_of :: "'b GovStore \<Rightarrow> string \<Rightarrow> nat" where
  "spent_of s gid = (case fmlookup (accounts s) gid of None \<Rightarrow> 0 | Some a \<Rightarrow> spent a)"

definition keeps :: "'b rate_lib \<Rightarrow> 'u uuid_lib \<Rightarrow> 'b GovStore \<Rightarrow> 'b GovStore \<Rightarrow> bool" where
  "keeps L u s s' \<longleftrightarrow> gov_ok L u s' \<and> spent_of s' = spent_of s"

lemma keeps_refl: "gov_ok L u s \<Longrightarrow> keeps L u s s"
  by (simp add: keeps_def)

lemma gov_ok_faults: "gov_ok L u s \<Longrightarrow> gov_ok L u (s\<lparr>gov_db := (gov_db s)\<lparr>db_faults := fs\<rparr>\<rparr>)"
  by (simp add: gov_ok_def accounts_ok_def clients_ok_def forwards_def synced_def)

lemma spent_of_simps [simp]:
  "spent_of (s\<lparr>gov_db := d\<rparr>) = spent_of s" "spent_of (index_client c gid e s) = spent_of s"
  by (simp_all add: spent_of_def fun_eq_iff)

lemma keeps_faults: "gov_ok L u s \<Longrightarrow> keeps L u s (s\<lparr>gov_db := (gov_db s)\<lparr>db_faults := fs\<rparr>\<rparr>)"
  by (simp add: keeps_def gov_ok_faults)

lemma index_client_same:
  assumes ok: "clients_ok s" and a: "fmlookup (accounts s) gid = Some a" and l: "snd (saved_label gid (gov_db s)) = Some (c, False)"
  shows "index_client c gid (Enabled (policy a)) s = s"
proof -
  have f: "fmlookup (clients s) c = Some gid \<longleftrightarrow> Enabled (policy a)" using ok a l by (simp add: clients_ok_def forwards_def)
  show ?thesis
  proof (cases "Enabled (policy a)")
    case True
    with f have "fmupd c gid (clients s) = clients s" by (intro fmap_ext) auto
    with True show ?thesis by (simp add: index_client_def)
  next
    case False
    have "fmdrop c (clients s) = clients s" if "fmlookup (clients s) c = None"
      using that by (intro fmap_ext) auto
    with False f show ?thesis by (auto simp: index_client_def client_of_def split: option.splits)
  qed
qed

lemma gov_ok_record:
  assumes "gov_ok L u s" and "fmlookup (accounts s) gid = Some a"
  obtains rc where "fmlookup (db_grants (gov_db s)) gid = Some rc" "gr_ID (rec_Grant rc) = gid" "Validate u (rec_Grant rc) = None"
    "fmlookup (db_backing (gov_db s)) gid = Some (Reserved rc)" "gr_Policy (rec_Grant rc) = policy a"
    "quarantined a = Suspended rc" "spent a \<le> unat (Reserved rc)" "account_ok L a" "in_book u gid a (gov_db s)"
  using assms by (fastforce simp: gov_ok_def accounts_ok_def synced_def book_defs)

lemma no_client:
  assumes ok: "gov_ok L u s" and nil: "\<not> ValidID u ''''" and "client_of c s = ''''"
  shows "fmlookup (clients s) c = None"
proof (rule ccontr)
  assume "fmlookup (clients s) c \<noteq> None"
  then have "fmlookup (clients s) c = Some ''''" using assms(3) by (auto simp: client_of_def)
  then have "forwards s '''' c" using ok by (simp add: gov_ok_def clients_ok_def)
  then obtain a where "fmlookup (accounts s) '''' = Some a" by (auto simp: forwards_def)
  from gov_ok_record [OF ok this] nil show False by (auto simp: Validate_def split: if_splits)
qed

lemma save_new_keeps:
  assumes L: "limiter_ok L" and ok: "gov_ok L u s" and new: "fmlookup (accounts s) (gr_ID g) = None"
    and v: "Validate u g = None" and nil: "\<not> ValidID u ''''"
    and free: "Enabled (gr_Policy g) \<Longrightarrow> client_of (gr_ClientID g) s = ''''"
    and sv: "save_new L u now g s = (r, s')"
  shows "keeps L u s (if r = None then index_client (gr_ClientID g) (gr_ID g) (Enabled (gr_Policy g)) s' else s')"
proof -
  let ?r = "\<lparr>rec_Grant = g, Reserved = 0, Suspended = False\<rparr>"
  obtain q d1 where q: "db_update (\<lambda>d. Inr (save ?r d)) (gov_db s) = (q, d1)" by fastforce
  show ?thesis
  proof (cases q)
    case (Some e)
    with db_update_cases [OF q] obtain fs where "d1 = (gov_db s)\<lparr>db_faults := fs\<rparr>" by auto
    then show ?thesis using sv Some q keeps_faults [OF ok] by (auto simp: save_new_def Let_def)
  next
    case None
    with db_update_cases [OF q] obtain fs where d1: "d1 = (save ?r (gov_db s))\<lparr>db_faults := fs\<rparr>" by auto
    let ?s = "s\<lparr>gov_db := d1\<rparr>"
    have sv': "restore_record L u now ?r ?s = (r, s')" using sv None q by (simp add: save_new_def Let_def)
    have ac: "accounts_ok L u ?s" using ok new unfolding gov_ok_def accounts_ok_def synced_def
      by (auto simp: d1 save_def book_defs)
    have cl: "clients_ok ?s" using ok new unfolding gov_ok_def clients_ok_def forwards_def
      by (auto simp: d1 save_def saved_label_def)
    have d: "fmlookup (db_grants (gov_db ?s)) (gr_ID g) = Some ?r" by (simp add: d1 save_def)
    have fr: "fmlookup (clients ?s) (gr_ClientID g) = None" if "Enabled (gr_Policy g)"
      using no_client [OF ok nil free [OF that]] by simp
    obtain a where x: "r = None" "accounts s' = fmupd (gr_ID g) a (accounts s)" "policy a = gr_Policy g" "spent a = 0"
      "accounts_ok L u s'" "clients_ok s'" "gov_db s' = d1\<lparr>db_backing := fmupd (gr_ID g) 0 (db_backing d1)\<rparr>"
      by (rule restore_keeps [OF L, of u ?r "gr_ID g" ?s now]) (use sv' v fr d ac cl new in auto)
    have "gov_ok L u s'"
      using x ok by (auto simp: gov_ok_def d1 save_def)
    moreover have "spent_of s' = spent_of s" using x new by (auto simp: spent_of_def fun_eq_iff)
    moreover have "index_client (gr_ClientID g) (gr_ID g) (Enabled (gr_Policy g)) s' = s'"
      using index_client_same [OF x(6), of "gr_ID g" a] x by (simp add: d1 save_def saved_label_def)
    ultimately show ?thesis using x by (simp add: keeps_def)
  qed
qed

abbreviation with_account :: "string \<Rightarrow> ('b, string) Account \<Rightarrow> GovDB \<Rightarrow> 'b GovStore \<Rightarrow> 'b GovStore" where
  "with_account gid a d s \<equiv> s\<lparr>accounts := fmupd gid a (accounts s), gov_db := d\<rparr>"

lemma spent_with: "fmlookup (accounts s) gid = Some a \<Longrightarrow> spent a' = spent a \<Longrightarrow> spent_of (with_account gid a' d s) = spent_of s"
  by (auto simp: spent_of_def fun_eq_iff)

lemma locked_keeps:
  assumes L: "limiter_ok L" and ok: "gov_ok L u s" and m: "fmlookup (accounts s) gid = Some a" and v: "validate p = None"
    and ap: "applyLocked L gov_persist now p a (gov_db s) = (r, a', d')"
  shows "r \<noteq> None \<Longrightarrow> keeps L u s (with_account gid a' d' s)"
    and "Enabled p = Enabled (policy a) \<Longrightarrow> keeps L u s (with_account gid a' d' s)"
    and "r = None \<Longrightarrow> snd (saved_label gid (gov_db s)) = Some (c, False) \<Longrightarrow>
      (Enabled p \<Longrightarrow> fmlookup (clients s) c = None \<or> fmlookup (clients s) c = Some gid) \<Longrightarrow>
      keeps L u s (index_client c gid (Enabled p) (with_account gid a' d' s))"
proof -
  have ao: "account_ok L a" and ib: "in_book u gid a (gov_db s)" using gov_ok_record [OF ok m] by metis+
  note b = locked_in_book [OF ib v ap] and f = locked_fields [OF ap] and ao' = account_ok_apply [OF L ao v ap]
  have sp: "spent_of (with_account gid a' d' s) = spent_of s" using spent_with [OF m] f by simp
  {
    assume "r \<noteq> None"
    then have "a' = a" using applyLocked_cases [OF ap] by simp
    then show "keeps L u s (with_account gid a' d' s)"
      using gov_ok_upd [OF ok m ao' b(1,2)] sp by (simp add: keeps_def)
  } note err = this
  show "keeps L u s (with_account gid a' d' s)" if "Enabled p = Enabled (policy a)"
  proof (cases r)
    case None
    then show ?thesis using gov_ok_upd [OF ok m ao' b(1,2)] sp f b(3) that by (simp add: keeps_def)
  qed (use err in simp)
  assume n: "r = None" and l: "snd (saved_label gid (gov_db s)) = Some (c, False)"
    and free: "Enabled p \<Longrightarrow> fmlookup (clients s) c = None \<or> fmlookup (clients s) c = Some gid"
  have p: "policy a' = p" using b(3) n by simp
  have "clients_ok (index_client c gid (Enabled p) (with_account gid a' d' s))"
    using clients_index [OF _ b(2) l, of a'] ok free unfolding p by (simp add: gov_ok_def)
  moreover have "accounts_ok L u (with_account gid a' d' s)"
    using ok m f by (intro accounts_ok_upd [OF _ ao' b(1,2)]) (simp_all add: gov_ok_def accounts_ok_def)
  moreover have "finsert gid (fmdom (accounts s)) = fmdom (accounts s)" using fmdomI [OF m] by auto
  ultimately show "keeps L u s (index_client c gid (Enabled p) (with_account gid a' d' s))"
    using ok only_book_dom [OF b(2)] sp by (simp add: keeps_def gov_ok_def)
qed

lemma keeps_same: "gov_ok L u s \<Longrightarrow> fmlookup (accounts s) gid = Some a \<Longrightarrow> keeps L u s (with_account gid a (gov_db s) s)"
proof -
  assume ok: "gov_ok L u s" and m: "fmlookup (accounts s) gid = Some a"
  have "fmupd gid a (accounts s) = accounts s" using m by (intro fmap_ext) auto
  then show ?thesis using ok by (simp add: keeps_def)
qed

lemma Validate_valid: "Validate u g = None \<Longrightarrow> validate (gr_Policy g) = None \<and> ValidID u (gr_ID g)"
  by (auto simp: Validate_def split: if_splits)

lemma RetainCredit_enabled: "Enabled (RetainCredit base old) = Enabled base"
proof (cases "base\<lparr>CreditRevision := CreditRevision old, CreditCeiling := CreditCeiling old\<rparr> = old")
  case True
  from arg_cong [OF True, of Enabled] have "Enabled old = Enabled base" by simp
  then show ?thesis by (simp add: RetainCredit_def Let_def)
qed (simp add: RetainCredit_def Let_def)

lemma Apply_store_keeps:
  assumes L: "limiter_ok L" and nil: "\<not> ValidID u ''''" and ok: "gov_ok L u s" and ap: "Apply_store L u now g s = (r, s')"
  shows "keeps L u s s'"
proof (cases "Validate u g \<noteq> None
    \<or> Enabled (gr_Policy g) \<and> client_of (gr_ClientID g) s \<noteq> '''' \<and> client_of (gr_ClientID g) s \<noteq> gr_ID g
    \<or> saved_conflict g (gov_db s)")
  case True
  then show ?thesis using ap keeps_refl [OF ok] by (auto simp: Apply_store_def split: if_splits)
next
  case False
  then have n1: "\<not> Validate u g \<noteq> None"
    and n2: "\<not> (Enabled (gr_Policy g) \<and> client_of (gr_ClientID g) s \<noteq> '''' \<and> client_of (gr_ClientID g) s \<noteq> gr_ID g)"
    and sc: "\<not> saved_conflict g (gov_db s)" by blast+
  note body = ap [unfolded Apply_store_def if_not_P [OF n1] if_not_P [OF n2] if_not_P [OF sc] Let_def]
  have v: "Validate u g = None" and cl: "Enabled (gr_Policy g) \<Longrightarrow> client_of (gr_ClientID g) s = '''' \<or> client_of (gr_ClientID g) s = gr_ID g"
    using n1 n2 by auto
  show ?thesis
  proof (cases "fmlookup (accounts s) (gr_ID g)")
    case None
    have "client_of (gr_ClientID g) s \<noteq> gr_ID g" if "client_of (gr_ClientID g) s \<noteq> ''''"
    proof
      assume "client_of (gr_ClientID g) s = gr_ID g"
      with that have "fmlookup (clients s) (gr_ClientID g) = Some (gr_ID g)" by (auto simp: client_of_def split: option.splits)
      then show False using ok None by (auto simp: gov_ok_def clients_ok_def forwards_def)
    qed
    with cl have free: "client_of (gr_ClientID g) s = ''''" if "Enabled (gr_Policy g)" using that by blast
    obtain q s1 where q: "save_new L u now g s = (q, s1)" by fastforce
    from save_new_keeps [OF L ok None v nil free q] show ?thesis
      using body None q by (cases q) auto
  next
    case (Some a)
    from gov_ok_record [OF ok Some] obtain rc where rc: "fmlookup (db_grants (gov_db s)) (gr_ID g) = Some rc"
      "gr_ID (rec_Grant rc) = gr_ID g" by metis
    let ?p = "RetainCredit (gr_Policy g) (policy a)"
    have en: "Enabled ?p = Enabled (gr_Policy g)" by (rule RetainCredit_enabled)
    have l: "snd (saved_label (gr_ID g) (gov_db s)) = Some (gr_ClientID g, False)"
      using sc rc Validate_valid [OF v] nil by (auto simp: saved_conflict_def saved_label_def)
    have free: "fmlookup (clients s) (gr_ClientID g) = None \<or> fmlookup (clients s) (gr_ClientID g) = Some (gr_ID g)" if "Enabled ?p"
    proof (cases "fmlookup (clients s) (gr_ClientID g)")
      case (Some k)
      then have k: "client_of (gr_ClientID g) s = k" by (simp add: client_of_def)
      have "k \<noteq> ''''" using no_client [OF ok nil, of "gr_ClientID g"] Some k by auto
      then show ?thesis using cl [OF that [unfolded en]] k Some by simp
    qed simp
    obtain q a' d' where q: "Apply L gov_persist now ?p a (gov_db s) = (q, a', d')" by (metis prod_cases3)
    have s': "s' = (if q = None then index_client (gr_ClientID g) (gr_ID g) (Enabled ?p) (with_account (gr_ID g) a' d' s)
        else with_account (gr_ID g) a' d' s)"
      using body Some q by (cases q) auto
    from Apply_locked [OF q] show ?thesis
    proof (elim disjE conjE)
      assume "q \<noteq> None" "a' = a" "d' = gov_db s"
      then show ?thesis using keeps_same [OF ok Some] s' by auto
    next
      assume x: "validate ?p = None" "applyLocked L gov_persist now ?p a (gov_db s) = (q, a', d')"
      show ?thesis
        using locked_keeps(1) [OF L ok Some x] locked_keeps(3) [OF L ok Some x _ l free] s' by (cases q) simp_all
    qed
  qed
qed

definition update_ok :: "'u uuid_lib \<Rightarrow> 'b GovStore \<Rightarrow> PolicyUpdate \<Rightarrow> bool" where
  "update_ok u s x \<longleftrightarrow> Validate u (update_grant x) = None \<and> (case fmlookup (accounts s) (pu_GrantID x) of
      None \<Rightarrow> client_of (pu_ClientID x) s = ''''
    | Some _ \<Rightarrow> snd (saved_label (pu_GrantID x) (gov_db s)) = Some (pu_ClientID x, False))"

lemma update_grant_simps [simp]: "gr_ID (update_grant x) = pu_GrantID x" "gr_ClientID (update_grant x) = pu_ClientID x"
  "gr_Policy (update_grant x) = pu_Policy x"
  by (simp_all add: update_grant_def)

lemma saved_id_account:
  assumes ok: "gov_ok L u s" and nil: "\<not> ValidID u ''''"
  shows "saved_id gid (gov_db s) \<noteq> '''' \<longleftrightarrow> fmlookup (accounts s) gid \<noteq> None"
proof (cases "fmlookup (accounts s) gid")
  case None
  then have "fmlookup (db_grants (gov_db s)) gid = None" using ok by (metis gov_ok_def fmdom_notD fmdom_notI)
  then show ?thesis using None by (simp add: saved_id_def)
next
  case (Some a)
  from gov_ok_record [OF ok Some] nil show ?thesis
    using Some by (metis Validate_valid option.distinct(1) option.simps(5) saved_id_def)
qed

lemma validate_updates_ok:
  assumes ok: "gov_ok L u s" and nil: "\<not> ValidID u ''''"
  shows "validate_updates L u env xs seen seenc s = None \<Longrightarrow>
    list_all (update_ok u s) xs \<and> distinct (map pu_GrantID xs) \<and> distinct (map pu_ClientID xs)
    \<and> fset_of_list (map pu_GrantID xs) |\<inter>| seen = {||} \<and> fset_of_list (map pu_ClientID xs) |\<inter>| seenc = {||}"
proof (induction xs arbitrary: seen seenc)
  case (Cons x xs)
  let ?gid = "pu_GrantID x" and ?c = "pu_ClientID x"
  obtain ctx now clk where env: "env ?gid = (ctx, now, clk)" by (metis prod_cases3)
  have rest: "validate_updates L u env xs (finsert ?gid seen) (finsert ?c seenc) s = None"
    and g: "Validate u (update_grant x) = None" "?gid |\<notin>| seen" "?c |\<notin>| seenc"
    and b: "if saved_id ?gid (gov_db s) \<noteq> '''' then \<not> saved_differs (update_grant x) (gov_db s)
        else client_of ?c s = ''''"
    using Cons.prems by (auto simp: env Let_def split: if_splits option.splits)
  have "update_ok u s x"
  proof (cases "fmlookup (accounts s) ?gid")
    case None
    then show ?thesis using g b saved_id_account [OF ok nil, of ?gid] by (simp add: update_ok_def)
  next
    case (Some a)
    from gov_ok_record [OF ok Some] obtain rc where "fmlookup (db_grants (gov_db s)) ?gid = Some rc" by metis
    then show ?thesis
      using g b Some saved_id_account [OF ok nil, of ?gid] by (simp add: update_ok_def saved_differs_def saved_label_def)
  qed
  moreover have "?gid \<notin> set (map pu_GrantID xs)" "?c \<notin> set (map pu_ClientID xs)"
    using Cons.IH [OF rest] by (auto simp: fset_of_list_elem)
  ultimately show ?case using Cons.IH [OF rest] g by auto
qed simp

lemma index_client_frame: "c' \<noteq> c \<Longrightarrow> fmlookup (clients (index_client c gid e s)) c' = fmlookup (clients s) c'"
  by (simp add: index_client_def)

lemma db_update_frame:
  assumes "db_update (\<lambda>d. Inr (save r d)) d = (q, d')" and "k \<noteq> gr_ID (rec_Grant r)"
  shows "saved_label k d' = saved_label k d"
  using db_update_cases [OF assms(1)] assms(2) by (auto simp: saved_label_def save_def)

lemma restore_record_frame:
  assumes "restore_record L u now r s = (q, s')" and "k \<noteq> gr_ID (rec_Grant r)" and "c \<noteq> gr_ClientID (rec_Grant r)"
  shows "fmlookup (accounts s') k = fmlookup (accounts s) k \<and> saved_label k (gov_db s') = saved_label k (gov_db s)
    \<and> fmlookup (clients s') c = fmlookup (clients s) c"
  using assms unfolding restore_record_def Let_def
  by (auto simp: saved_label_def split: if_splits sum.splits)

lemma save_new_frame:
  assumes "save_new L u now g s = (q, s')" and "k \<noteq> gr_ID g" and "c \<noteq> gr_ClientID g"
  shows "fmlookup (accounts s') k = fmlookup (accounts s) k \<and> saved_label k (gov_db s') = saved_label k (gov_db s)
    \<and> fmlookup (clients s') c = fmlookup (clients s) c"
proof -
  let ?r = "\<lparr>rec_Grant = g, Reserved = 0, Suspended = False\<rparr>"
  obtain p d1 where p: "db_update (\<lambda>d. Inr (save ?r d)) (gov_db s) = (p, d1)" by fastforce
  have l: "saved_label k d1 = saved_label k (gov_db s)" using db_update_frame [OF p] assms(2) by simp
  show ?thesis
  proof (cases p)
    case None
    then have "restore_record L u now ?r (s\<lparr>gov_db := d1\<rparr>) = (q, s')" using assms(1) p by (simp add: save_new_def Let_def)
    from restore_record_frame [OF this] show ?thesis using assms(2,3) l by simp
  qed (use assms(1) p l in \<open>auto simp: save_new_def Let_def\<close>)
qed

lemma apply_update_keeps:
  assumes L: "limiter_ok L" and nil: "\<not> ValidID u ''''" and ok: "gov_ok L u s" and x: "update_ok u s x"
    and ap: "apply_update L u now clk x s = (r, s')"
  shows "keeps L u s s' \<and> (k \<noteq> pu_GrantID x \<longrightarrow> c \<noteq> pu_ClientID x \<longrightarrow> fmlookup (accounts s') k = fmlookup (accounts s) k
    \<and> saved_label k (gov_db s') = saved_label k (gov_db s) \<and> fmlookup (clients s') c = fmlookup (clients s) c)"
proof (cases "fmlookup (accounts s) (pu_GrantID x)")
  case None
  obtain q s1 where q: "save_new L u now (update_grant x) s = (q, s1)" by fastforce
  have v: "Validate u (update_grant x) = None" and free: "client_of (pu_ClientID x) s = ''''"
    using x None by (simp_all add: update_ok_def)
  have s': "s' = (if q = None then index_client (pu_ClientID x) (pu_GrantID x) (Enabled (pu_Policy x)) s1 else s1)"
    using ap None q by (cases q) (auto simp: apply_update_def)
  show ?thesis
    using save_new_keeps [OF L ok _ v nil _ q] None free save_new_frame [OF q, of k c] s'
    by (auto simp: index_client_frame)
next
  case (Some a)
  let ?g = "pu_GrantID x"
  have l: "snd (saved_label ?g (gov_db s)) = Some (pu_ClientID x, False)" using x Some by (simp add: update_ok_def)
  obtain q a' d' where q: "ApplyAuthority L gov_persist now clk (pu_Policy x) a (gov_db s) = (q, a', d')" by (metis prod_cases3)
  have s': "s' = (if q = None then index_client (pu_ClientID x) ?g (Enabled (pu_Policy x)) (with_account ?g a' d' s)
      else with_account ?g a' d' s)"
    using ap Some q by (cases q) (auto simp: apply_update_def)
  from ApplyAuthority_locked [OF q] show ?thesis
  proof (elim disjE conjE exE)
    assume "q \<noteq> None" "a' = a" "d' = gov_db s"
    then show ?thesis using keeps_same [OF ok Some] s' by auto
  next
    fix m assume m: "MergeAuthority (policy a) (pu_Policy x) = Inr m" and lo: "applyLocked L gov_persist now m a (gov_db s) = (q, a', d')"
    have ao: "validate (policy a) = None" and ib: "in_book u ?g a (gov_db s)"
      using gov_ok_record [OF ok Some] by (metis account_ok_def)+
    note mm = MergeAuthority_merged [OF m ao]
    have en: "Enabled m = Enabled (pu_Policy x)" using mm(6) by auto
    have "fmlookup (clients s) (pu_ClientID x) = Some ?g" if "Enabled m"
      using that mm(5) l Some ok by (simp add: gov_ok_def clients_ok_def forwards_def)
    with locked_keeps(1) [OF L ok Some mm(1) lo] locked_keeps(3) [OF L ok Some mm(1) lo _ l]
    have "keeps L u s s'" using s' en by (cases q) auto
    moreover have "saved_label k d' = saved_label k (gov_db s)"
      using locked_in_book(2) [OF ib mm(1) lo] by (simp add: only_book_def)
    ultimately show ?thesis using s' by (auto simp: index_client_frame)
  qed
qed

lemma update_ok_frame:
  assumes "update_ok u s y" and "fmlookup (accounts s') (pu_GrantID y) = None \<longleftrightarrow> fmlookup (accounts s) (pu_GrantID y) = None"
    and "saved_label (pu_GrantID y) (gov_db s') = saved_label (pu_GrantID y) (gov_db s)"
    and "fmlookup (clients s') (pu_ClientID y) = fmlookup (clients s) (pu_ClientID y)"
  shows "update_ok u s' y"
  using assms by (auto simp: update_ok_def client_of_def split: option.splits)

text \<open>The updates of a batch do not get in each other's way.\<close>

definition updates_ok :: "'u uuid_lib \<Rightarrow> PolicyUpdate list \<Rightarrow> 'b GovStore \<Rightarrow> bool" where
  "updates_ok u xs s \<longleftrightarrow> list_all (update_ok u s) xs \<and> distinct (map pu_GrantID xs) \<and> distinct (map pu_ClientID xs)"

lemma validated_updates_ok:
  assumes "gov_ok L u s" and "\<not> ValidID u ''''" and "validateAuthorityLocked L u env xs s = None"
  shows "updates_ok u xs s"
  using validate_updates_ok [OF assms(1,2)] assms(3) by (simp add: validateAuthorityLocked_def updates_ok_def split: if_splits)

lemma apply_update_step:
  assumes L: "limiter_ok L" and nil: "\<not> ValidID u ''''" and ok: "gov_ok L u s" and xs: "updates_ok u (x # xs) s"
    and ap: "apply_update L u now clk x s = (r, s')"
  shows "keeps L u s s'" "updates_ok u xs s'"
proof -
  have x: "update_ok u s x" using xs by (simp add: updates_ok_def)
  note k = apply_update_keeps [OF L nil ok x ap]
  show "keeps L u s s'" using k by (rule conjunct1)
  have "list_all (update_ok u s') xs"
  proof (unfold list_all_iff, intro ballI)
    fix y assume y: "y \<in> set xs"
    have "pu_GrantID x \<notin> pu_GrantID ` set xs" "pu_ClientID x \<notin> pu_ClientID ` set xs" using xs by (simp_all add: updates_ok_def)
    then have "pu_GrantID y \<noteq> pu_GrantID x" "pu_ClientID y \<noteq> pu_ClientID x" using y by (metis imageI)+
    with k [of "pu_GrantID y" "pu_ClientID y"] have
      "fmlookup (accounts s') (pu_GrantID y) = fmlookup (accounts s) (pu_GrantID y)"
      "saved_label (pu_GrantID y) (gov_db s') = saved_label (pu_GrantID y) (gov_db s)"
      "fmlookup (clients s') (pu_ClientID y) = fmlookup (clients s) (pu_ClientID y)" by blast+
    moreover have "update_ok u s y" using xs y by (simp add: updates_ok_def list_all_iff)
    ultimately show "update_ok u s' y" using update_ok_frame [of u s y s'] by simp
  qed
  then show "updates_ok u xs s'" using xs by (simp add: updates_ok_def)
qed

lemma ApplyCredit_keeps:
  assumes L: "limiter_ok L" and ok: "gov_ok L u s" and a: "fmlookup (accounts s) gid = Some a"
    and ap: "ApplyCredit L gov_persist now clk trm prev crev k a (gov_db s) = (r, a', d')"
  shows "keeps L u s (with_account gid a' d' s)"
  using ApplyCredit_locked [OF ap]
proof (elim disjE conjE)
  assume "a' = a" "d' = gov_db s"
  then show ?thesis using keeps_same [OF ok a] by simp
next
  assume x: "\<not> QuotaUnlimited (policy a)"
    "applyLocked L gov_persist now ((policy a)\<lparr>CreditRevision := crev, CreditCeiling := k\<rparr>) a (gov_db s) = (r, a', d')"
  have "validate (policy a) = None" using gov_ok_record [OF ok a] by (metis account_ok_def)
  from locked_keeps(2) [OF L ok a validate_credit [OF this x(1)] x(2)] show ?thesis by simp
qed

lemma suspend_loop_result:
  assumes "\<And>k r. fmlookup (db_grants d) k = Some r \<Longrightarrow> gr_ID (rec_Grant r) = k"
    and "\<And>k. k \<in> set ids \<Longrightarrow> fmlookup (db_grants d) k \<noteq> None"
  shows "\<exists>m. suspend_loop ids wanted d = Inr (d\<lparr>db_grants := m\<rparr>) \<and> (\<forall>k. fmlookup m k =
    (if k \<in> set ids \<and> k |\<notin>| wanted then map_option (Suspended_update (\<lambda>_. True)) (fmlookup (db_grants d) k)
     else fmlookup (db_grants d) k))"
  using assms
proof (induction ids arbitrary: d)
  case Nil
  then show ?case by (intro exI [of _ "db_grants d"]) simp
next
  case (Cons x ids)
  obtain r where r: "fmlookup (db_grants d) x = Some r" using Cons.prems(2) by fastforce
  show ?case
  proof (cases "x |\<in>| wanted")
    case True
    obtain m where "suspend_loop ids wanted d = Inr (d\<lparr>db_grants := m\<rparr>)" "\<forall>k. fmlookup m k =
      (if k \<in> set ids \<and> k |\<notin>| wanted then map_option (Suspended_update (\<lambda>_. True)) (fmlookup (db_grants d) k)
       else fmlookup (db_grants d) k)"
      using Cons.IH [of d] Cons.prems by auto
    then show ?thesis using True by (intro exI [of _ m]) auto
  next
    case False
    let ?d = "save (r\<lparr>Suspended := True\<rparr>) d"
    have x: "gr_ID (rec_Grant r) = x" using Cons.prems(1) r by simp
    have 1: "gr_ID (rec_Grant q) = k" if "fmlookup (db_grants ?d) k = Some q" for k q
      using that Cons.prems(1) x by (auto simp: save_def split: if_splits)
    have 2: "fmlookup (db_grants ?d) k \<noteq> None" if "k \<in> set ids" for k
      using that Cons.prems(2) by (auto simp: save_def)
    obtain m where "suspend_loop ids wanted ?d = Inr (?d\<lparr>db_grants := m\<rparr>)" "\<forall>k. fmlookup m k =
      (if k \<in> set ids \<and> k |\<notin>| wanted then map_option (Suspended_update (\<lambda>_. True)) (fmlookup (db_grants ?d) k)
       else fmlookup (db_grants ?d) k)"
      using Cons.IH [of ?d, OF 1 2] by auto
    then show ?thesis using False r x by (intro exI [of _ m]) (auto simp: load_record_def save_def)
  qed
qed

lemma turns_simps [simp]: "fmlookup (turns f ids m) k = map_option (\<lambda>a. if k |\<in>| ids then f a else a) (fmlookup m k)"
  "fmdom (turns f ids m) = fmdom m" "turns f {||} m = m"
  by (simp_all add: turns_def) (rule fmap_ext, simp add: option.map_ident)

lemma turns_insert: "(\<And>a. f (f a) = f a) \<Longrightarrow> turns f ids (turns f {|k|} m) = turns f (finsert k ids) m"
  by (rule fmap_ext) (auto simp: option.map_comp comp_def intro!: option.map_cong0)

lemma turns_upd: "turns f ids (fmupd k a m) = fmupd k (if k |\<in>| ids then f a else a) (turns f ids m)"
  by (rule fmap_ext) simp

lemma quarantine_simps [simp]: "gov_db (quarantine_in ids s) = gov_db s" "clients (quarantine_in ids s) = clients s"
  "fmlookup (accounts (quarantine_in ids s)) k = map_option (\<lambda>a. if k |\<in>| ids then Quarantine a else a) (fmlookup (accounts s) k)"
  "fmdom (accounts (quarantine_in ids s)) = fmdom (accounts s)"
  by (simp_all add: quarantine_in_def)

lemma drop_simps [simp]: "gov_db (drop_clients w s) = gov_db s" "accounts (drop_clients w s) = accounts s"
  "fmlookup (clients (drop_clients w s)) c = (case fmlookup (clients s) c of None \<Rightarrow> None | Some k \<Rightarrow> if k |\<in>| w then Some k else None)"
  by (auto simp: drop_clients_def split: option.splits)

lemma retire_simps [simp]: "gov_db (retire w s) = gov_db s"
  "fmlookup (accounts (retire w s)) k = map_option (\<lambda>a. if k |\<in>| w then a else Quarantine a) (fmlookup (accounts s) k)"
  "fmlookup (clients (retire w s)) c = (case fmlookup (clients s) c of None \<Rightarrow> None | Some k \<Rightarrow> if k |\<in>| w then Some k else None)"
  "fmdom (accounts (retire w s)) = fmdom (accounts s)"
  by (cases "fmlookup (accounts s) k"; simp add: retire_def unwanted_def fmdom_notI fmdomI)+

lemma Quarantine_simps [simp]: "policy (Quarantine a) = policy a" "spent (Quarantine a) = spent a" "quarantined (Quarantine a)"
  "persistence (Quarantine a) = persistence a" "account_ok L (Quarantine a) = account_ok L a"
  by (auto simp: Quarantine_def spent_def account_ok_def)

lemma retire_keeps:
  assumes ok: "gov_ok L u s"
    and m: "\<And>k. fmlookup m k = (if k |\<in>| fmdom (accounts s) \<and> k |\<notin>| w then
        map_option (Suspended_update (\<lambda>_. True)) (fmlookup (db_grants (gov_db s)) k) else fmlookup (db_grants (gov_db s)) k)"
  shows "keeps L u s (retire w (s\<lparr>gov_db := (gov_db s)\<lparr>db_grants := m, db_faults := fs\<rparr>\<rparr>))" (is "keeps L u s ?s")
proof -
  have dom: "k |\<in>| fmdom (accounts s) \<longleftrightarrow> fmlookup (db_grants (gov_db s)) k \<noteq> None" for k
    using ok by (simp add: gov_ok_def fmlookup_dom_iff)
  have m': "fmlookup m k = (if k |\<in>| w then fmlookup (db_grants (gov_db s)) k
      else map_option (Suspended_update (\<lambda>_. True)) (fmlookup (db_grants (gov_db s)) k))" for k
    using m [of k] dom [of k] by (cases "fmlookup (db_grants (gov_db s)) k") auto
  have "fmdom m = fmdom (db_grants (gov_db s))"
    using m' by (auto simp: fset_eq_iff fmlookup_dom_iff split: if_splits)
  moreover have "accounts_ok L u ?s"
  proof (unfold accounts_ok_def, intro allI impI)
    fix k a assume a: "fmlookup (accounts ?s) k = Some a"
    then obtain b where b: "fmlookup (accounts s) k = Some b" "a = (if k |\<in>| w then b else Quarantine b)" by auto
    from gov_ok_record [OF ok b(1)] obtain rc where "fmlookup (db_grants (gov_db s)) k = Some rc" "gr_ID (rec_Grant rc) = k"
      "Validate u (rec_Grant rc) = None" "fmlookup (db_backing (gov_db s)) k = Some (Reserved rc)" "gr_Policy (rec_Grant rc) = policy b"
      "quarantined b = Suspended rc" "spent b \<le> unat (Reserved rc)" "account_ok L b" "in_book u k b (gov_db s)" by metis
    then show "account_ok L a \<and> in_book u k a (gov_db ?s) \<and> snd (the (snd (saved_label k (gov_db ?s)))) = quarantined a"
      using b m' [of k] by (auto simp: synced_def book_defs)
  qed
  moreover have "clients_ok ?s"
  proof -
    have "forwards s k c \<longleftrightarrow> fmlookup (clients s) c = Some k" for k c using ok by (simp add: gov_ok_def clients_ok_def)
    then have "forwards ?s k c \<longleftrightarrow> k |\<in>| w \<and> fmlookup (clients s) c = Some k" for k c
      using m' [of k] by (auto simp: forwards_def saved_label_def split: if_splits)
    then show ?thesis by (auto simp: clients_ok_def split: option.splits)
  qed
  moreover have "spent_of ?s = spent_of s" by (auto simp: spent_of_def fun_eq_iff split: option.splits)
  ultimately show ?thesis using ok by (simp add: keeps_def gov_ok_def)
qed

lemma suspend_keeps:
  assumes ok: "gov_ok L u s" and tx: "suspend_tx w s = (q, d1)"
  shows "keeps L u s (if q = None then retire w (s\<lparr>gov_db := d1\<rparr>) else s\<lparr>gov_db := d1\<rparr>)"
proof -
  let ?ids = "sorted_list_of_fset (fmdom (accounts s))"
  have q: "db_update (suspend_loop ?ids w) (gov_db s) = (q, d1)" using tx by (simp add: suspend_tx_def)
  show ?thesis
  proof (cases q)
    case None
    have 1: "gr_ID (rec_Grant x) = k" if "fmlookup (db_grants (gov_db s)) k = Some x" for k x
    proof -
      have "k |\<in>| fmdom (accounts s)" using ok that by (simp add: gov_ok_def fmlookup_dom_iff)
      then obtain a where "fmlookup (accounts s) k = Some a" by (auto simp: fmlookup_dom_iff)
      from gov_ok_record [OF ok this] that show ?thesis by (metis option.inject)
    qed
    have 2: "fmlookup (db_grants (gov_db s)) k \<noteq> None" if "k \<in> set ?ids" for k
    proof -
      have "k |\<in>| fmdom (accounts s)" using that by simp
      then have "k |\<in>| fmdom (db_grants (gov_db s))" using ok by (simp add: gov_ok_def)
      then show ?thesis by (simp add: fmlookup_dom_iff)
    qed
    obtain m where m: "suspend_loop ?ids w (gov_db s) = Inr ((gov_db s)\<lparr>db_grants := m\<rparr>)" "\<And>k. fmlookup m k =
        (if k |\<in>| fmdom (accounts s) \<and> k |\<notin>| w then map_option (Suspended_update (\<lambda>_. True)) (fmlookup (db_grants (gov_db s)) k)
         else fmlookup (db_grants (gov_db s)) k)"
      using suspend_loop_result [of "gov_db s" ?ids w, OF 1 2] by auto
    with db_update_cases [OF q] None obtain fs where "d1 = (gov_db s)\<lparr>db_grants := m, db_faults := fs\<rparr>" by auto
    then show ?thesis using retire_keeps [OF ok m(2)] None by simp
  next
    case (Some e)
    with db_update_cases [OF q] obtain fs where "d1 = (gov_db s)\<lparr>db_faults := fs\<rparr>" by auto
    then show ?thesis using Some keeps_faults [OF ok] by simp
  qed
qed

section \<open>Reopening the store\<close>

definition live_record :: "grant_record \<Rightarrow> bool" where
  "live_record r \<longleftrightarrow> Enabled (gr_Policy (rec_Grant r)) \<and> \<not> Suspended r"

text \<open>A database every record of which is valid, and in which no client has two live grants.\<close>

definition grants_ok :: "'u uuid_lib \<Rightarrow> (string, grant_record) fmap \<Rightarrow> bool" where
  "grants_ok u G \<longleftrightarrow>
     (\<forall>k r. fmlookup G k = Some r \<longrightarrow> gr_ID (rec_Grant r) = k \<and> Validate u (rec_Grant r) = None)
     \<and> (\<forall>k k' r r'. fmlookup G k = Some r \<longrightarrow> fmlookup G k' = Some r' \<longrightarrow> live_record r \<longrightarrow> live_record r' \<longrightarrow>
          gr_ClientID (rec_Grant r) = gr_ClientID (rec_Grant r') \<longrightarrow> k = k')"

lemma forwards_record:
  assumes "accounts_ok L u s" and "forwards s k c"
  obtains r where "fmlookup (db_grants (gov_db s)) k = Some r" "live_record r" "gr_ClientID (rec_Grant r) = c"
proof -
  obtain a where a: "fmlookup (accounts s) k = Some a" "Enabled (policy a)" "snd (saved_label k (gov_db s)) = Some (c, False)"
    using assms(2) by (auto simp: forwards_def)
  then have "in_book u k a (gov_db s)" using assms(1) by (simp add: accounts_ok_def)
  then show thesis using a that by (auto simp: synced_def book_defs live_record_def)
qed

lemma open_loop_ok:
  assumes L: "limiter_ok L" and G: "grants_ok u G"
  shows "accounts_ok L u s \<Longrightarrow> clients_ok s \<Longrightarrow> db_grants (gov_db s) = G \<Longrightarrow> distinct ks \<Longrightarrow>
    (\<And>k. k \<in> set ks \<Longrightarrow> k |\<in>| fmdom G \<and> fmlookup (accounts s) k = None) \<Longrightarrow>
    \<exists>s'. open_loop L u now (map (\<lambda>k. (k, the (fmlookup G k))) ks) s = (None, s') \<and> accounts_ok L u s' \<and> clients_ok s'
      \<and> db_grants (gov_db s') = G \<and> db_journal (gov_db s') = db_journal (gov_db s) \<and> db_faults (gov_db s') = db_faults (gov_db s)
      \<and> fmdom (accounts s') = fmdom (accounts s) |\<union>| fset_of_list ks
      \<and> (\<forall>k. spent_of s' k = (if k \<in> set ks then unat (Reserved (the (fmlookup G k))) else spent_of s k))"
proof (induction ks arbitrary: s)
  case Nil
  then show ?case by simp
next
  case (Cons k ks)
  obtain r where r: "fmlookup G k = Some r" and new: "fmlookup (accounts s) k = None"
    using Cons.prems(5) [of k] by (auto simp: fmlookup_dom_iff)
  have v: "gr_ID (rec_Grant r) = k" "Validate u (rec_Grant r) = None" using G r by (auto simp: grants_ok_def)
  have free: "fmlookup (clients s) (gr_ClientID (rec_Grant r)) = None"
    if lv: "Enabled (gr_Policy (rec_Grant r)) \<and> \<not> Suspended r"
  proof (cases "fmlookup (clients s) (gr_ClientID (rec_Grant r))")
    case (Some k')
    then have f: "forwards s k' (gr_ClientID (rec_Grant r))" using Cons.prems(2) by (simp add: clients_ok_def)
    from forwards_record [OF Cons.prems(1) f] obtain r' where r': "fmlookup G k' = Some r'" "live_record r'"
      "gr_ClientID (rec_Grant r') = gr_ClientID (rec_Grant r)" using Cons.prems(3) by metis
    have "live_record r" using lv by (simp add: live_record_def)
    then have "k' = k" using G r r' unfolding grants_ok_def by metis
    then show ?thesis using f new by (simp add: forwards_def)
  qed simp
  have d: "fmlookup (db_grants (gov_db s)) k = Some r" using r Cons.prems(3) by simp
  obtain s1 a where s1: "restore_record L u now r s = (None, s1)" "accounts s1 = fmupd k a (accounts s)" "spent a = unat (Reserved r)"
    "accounts_ok L u s1" "clients_ok s1" "gov_db s1 = (gov_db s)\<lparr>db_backing := fmupd k (Reserved r) (db_backing (gov_db s))\<rparr>"
    by (rule restore_keeps [OF L v(2,1) free d Cons.prems(1,2) new, of now]) metis
  have "\<exists>s'. open_loop L u now (map (\<lambda>k. (k, the (fmlookup G k))) ks) s1 = (None, s') \<and> accounts_ok L u s' \<and> clients_ok s'
      \<and> db_grants (gov_db s') = G \<and> db_journal (gov_db s') = db_journal (gov_db s1) \<and> db_faults (gov_db s') = db_faults (gov_db s1)
      \<and> fmdom (accounts s') = fmdom (accounts s1) |\<union>| fset_of_list ks
      \<and> (\<forall>k. spent_of s' k = (if k \<in> set ks then unat (Reserved (the (fmlookup G k))) else spent_of s1 k))"
    using Cons.prems(3-5) by (intro Cons.IH s1(4,5)) (auto simp: s1(2,6))
  then obtain s' where s': "open_loop L u now (map (\<lambda>k. (k, the (fmlookup G k))) ks) s1 = (None, s')"
    "accounts_ok L u s'" "clients_ok s'" "db_grants (gov_db s') = G" "db_journal (gov_db s') = db_journal (gov_db s1)"
    "db_faults (gov_db s') = db_faults (gov_db s1)" "fmdom (accounts s') = fmdom (accounts s1) |\<union>| fset_of_list ks"
    "\<And>k. spent_of s' k = (if k \<in> set ks then unat (Reserved (the (fmlookup G k))) else spent_of s1 k)" by blast
  have "spent_of s1 j = (if j = k then unat (Reserved r) else spent_of s j)" for j by (simp add: spent_of_def s1)
  moreover have "open_loop L u now (map (\<lambda>k. (k, the (fmlookup G k))) (k # ks)) s = (None, s')"
    using r v s1(1) s'(1) by simp
  ultimately show ?case using s' s1 r by (intro exI [of _ s']) auto
qed

lemma gov_ok_grants: "gov_ok L u s \<Longrightarrow> grants_ok u (db_grants (gov_db s))"
proof -
  assume ok: "gov_ok L u s"
  have a: "\<exists>a. fmlookup (accounts s) k = Some a" if "fmlookup (db_grants (gov_db s)) k = Some r" for k r
    using ok fmdomI [OF that] by (simp add: gov_ok_def fmlookup_dom_iff [symmetric])
  have 1: "gr_ID (rec_Grant r) = k \<and> Validate u (rec_Grant r) = None
      \<and> (live_record r \<longrightarrow> fmlookup (clients s) (gr_ClientID (rec_Grant r)) = Some k)"
    if r: "fmlookup (db_grants (gov_db s)) k = Some r" for k r
  proof -
    from a [OF r] obtain b where b: "fmlookup (accounts s) k = Some b" by auto
    from gov_ok_record [OF ok b] r have x: "gr_ID (rec_Grant r) = k" "Validate u (rec_Grant r) = None"
      "gr_Policy (rec_Grant r) = policy b" by (metis option.inject)+
    then show ?thesis
      using ok r b by (auto simp: gov_ok_def clients_ok_def forwards_def live_record_def saved_label_def)
  qed
  show ?thesis unfolding grants_ok_def using 1 by (metis option.inject)
qed

lemma Open_reopens:
  fixes L :: "'b rate_lib"
  assumes L: "limiter_ok L" and G: "grants_ok u (db_grants d)"
    and j: "case db_journal d of None \<Rightarrow> ValidID u fresh | Some i \<Rightarrow> ValidID u i"
    and f: "db_faults d = [] \<or> hd (db_faults d) = None"
  obtains s where "Open L u now fresh d = Inr s" "gov_ok L u s" "db_grants (gov_db s) = db_grants d"
    "\<And>k. spent_of s k = (case fmlookup (db_grants d) k of None \<Rightarrow> 0 | Some r \<Rightarrow> unat (Reserved r))"
proof -
  let ?d = "d\<lparr>db_backing := fmempty\<rparr>" and ?G = "db_grants d"
  obtain i where i: "open_journal u fresh ?d = Inr i" "ValidID u i" using j by (auto simp: open_journal_def split: option.splits)
  let ?s = "\<lparr>accounts = fmempty, clients = fmempty, journalID = i, gov_clock = False, gov_db = ?d\<lparr>db_journal := Some i\<rparr>\<rparr> :: 'b GovStore"
  let ?ks = "sorted_list_of_fset (fmdom ?G)"
  have e: "accounts_ok L u ?s" "clients_ok ?s" "db_grants (gov_db ?s) = ?G" "distinct ?ks" "\<And>k. spent_of ?s k = 0"
    "\<And>k. k \<in> set ?ks \<Longrightarrow> k |\<in>| fmdom ?G \<and> fmlookup (accounts ?s) k = None"
    by (simp_all add: accounts_ok_def clients_ok_def forwards_def spent_of_def sorted_list_of_fset.rep_eq)
  from open_loop_ok [OF L G e(1-4,6), of now] obtain s where
    s: "open_loop L u now (map (\<lambda>k. (k, the (fmlookup ?G k))) ?ks) ?s = (None, s)" "accounts_ok L u s" "clients_ok s"
    "db_grants (gov_db s) = ?G" "db_journal (gov_db s) = Some i" "fmdom (accounts s) = fset_of_list ?ks"
    "\<And>k. spent_of s k = (if k \<in> set ?ks then unat (Reserved (the (fmlookup ?G k))) else 0)"
    using e(5) by auto
  let ?fs = "tl (db_faults d)"
  let ?s' = "if db_faults d = [] then s else s\<lparr>gov_db := (gov_db s)\<lparr>db_faults := ?fs\<rparr>\<rparr>"
  have "Open L u now fresh d = Inr ?s'"
    using i(1) s(1) f by (cases "db_faults d") (auto simp: Open_def entries_by_key_def Let_def split: option.splits)
  moreover have "fset_of_list ?ks = fmdom ?G" by (simp add: fset_eq_iff fset_of_list_elem)
  then have ok: "gov_ok L u s" using s i by (simp add: gov_ok_def)
  then have "gov_ok L u ?s'" using gov_ok_faults [OF ok] by simp
  moreover have "db_grants (gov_db ?s') = ?G" using s by simp
  moreover have "spent_of ?s' k = (case fmlookup ?G k of None \<Rightarrow> 0 | Some r \<Rightarrow> unat (Reserved r))" for k
    using s(7) [of k] by (auto simp: fmlookup_dom_iff split: option.splits)
  ultimately show thesis using that by metis
qed

section \<open>Runs of the store\<close>

text \<open>What a turn of \<open>take\<close> admits.\<close>

definition admitted :: "take_outcome \<Rightarrow> nat" where
  "admitted out = (case out of Returned (Inr n) \<Rightarrow> nat n | _ \<Rightarrow> 0)"

text \<open>
  The store's mutex keeps its operations apart from each other, but not from the accounts: \<open>take\<close> and
  \<open>Record\<close> lock only the account they work on. A run therefore says how far the operation that holds
  the mutex has come: nothing holds it, \<open>Reconcile\<close> has committed the suspensions for the grants it
  wants and has these accounts left to quarantine, \<open>ApplyAuthority\<close> has validated its batch and has
  these updates left, \<open>ApplyCredit\<close> these credits, \<open>SetClock\<close> these accounts. Maps are walked in any
  order.
\<close>

datatype phase = Idle | Retiring "string fset" "string fset" | Updating "PolicyUpdate list" | Crediting "Credit list"
  | Clocking bool "string fset"

text \<open>
  The states a store can reach from a fresh database through the steps of its operations, the turns of
  its accounts between any two of them and restarts of the process at any moment, with the bytes each
  grant was ever given. The calls of \<open>Apply\<close> at the end of \<open>Reconcile\<close> take the mutex anew, so each is
  an operation of its own. A step ends where the next lock of an account or transaction begins; what it
  still does to the index of clients after its account has been unlocked is seen by no turn of an
  account, and neither is the order of a commit and the account's own checks before it.
\<close>

inductive gov_reach :: "'b rate_lib \<Rightarrow> 'u uuid_lib \<Rightarrow> phase \<Rightarrow> 'b GovStore \<Rightarrow> (string \<Rightarrow> nat) \<Rightarrow> bool" for L u where
  reach_open: "db_grants d = fmempty \<Longrightarrow> db_journal d = None \<Longrightarrow> ValidID u fresh \<Longrightarrow> Open L u now fresh d = Inr s \<Longrightarrow>
    gov_reach L u Idle s (\<lambda>_. 0)"
| reach_apply: "gov_reach L u Idle s given \<Longrightarrow> Apply_store L u now g s = (r, s') \<Longrightarrow> gov_reach L u Idle s' given"
| reach_suspend: "gov_reach L u Idle s given \<Longrightarrow> reconcile_check u gs {||} {||} = Some w \<Longrightarrow> suspend_tx w s = (r, d') \<Longrightarrow>
    gov_reach L u (if r = None then Retiring w (unwanted w s) else Idle) (s\<lparr>gov_db := d'\<rparr>) given"
| reach_quarantine: "gov_reach L u (Retiring w left) s given \<Longrightarrow> gid |\<in>| left \<Longrightarrow>
    gov_reach L u (Retiring w (left |-| {|gid|})) (quarantine_in {|gid|} s) given"
| reach_retired: "gov_reach L u (Retiring w {||}) s given \<Longrightarrow> gov_reach L u Idle (drop_clients w s) given"
| reach_validate: "gov_reach L u Idle s given \<Longrightarrow> validateAuthorityLocked L u env xs s = None \<Longrightarrow> gov_reach L u (Updating xs) s given"
| reach_update: "gov_reach L u (Updating (x # xs)) s given \<Longrightarrow> apply_update L u now clk x s = (r, s') \<Longrightarrow>
    gov_reach L u (if r = None then Updating xs else Idle) s' given"
| reach_updated: "gov_reach L u (Updating xs) s given \<Longrightarrow> gov_reach L u Idle s given"
| reach_check: "gov_reach L u Idle s given \<Longrightarrow> ValidateCredits u cs = None \<Longrightarrow> credit_check cs s \<Longrightarrow> gov_reach L u (Crediting cs) s given"
| reach_credit: "gov_reach L u (Crediting (x # cs)) s given \<Longrightarrow> fmlookup (accounts s) (c_GrantID x) = Some a \<Longrightarrow>
    ApplyCredit L gov_persist now clk (c_TermID x) (c_PolicyRevision x) (c_CreditRevision x) (c_CreditCeiling x) a (gov_db s) = (r, a', d') \<Longrightarrow>
    gov_reach L u (if r = None then Crediting cs else Idle) (with_account (c_GrantID x) a' d' s) given"
| reach_credited: "gov_reach L u (Crediting cs) s given \<Longrightarrow> gov_reach L u Idle s given"
| reach_clock: "gov_reach L u Idle s given \<Longrightarrow> gov_reach L u (Clocking c (fmdom (accounts s))) (s\<lparr>gov_clock := c\<rparr>) given"
| reach_clock_set: "gov_reach L u (Clocking c left) s given \<Longrightarrow> gid |\<in>| left \<Longrightarrow>
    gov_reach L u (Clocking c (left |-| {|gid|})) (clock_in c {|gid|} s) given"
| reach_clocked: "gov_reach L u (Clocking c {||}) s given \<Longrightarrow> gov_reach L u Idle s given"
| reach_record: "gov_reach L u ph s given \<Longrightarrow> fmlookup (accounts s) gid = Some a \<Longrightarrow> n < 2 ^ 63 \<Longrightarrow>
    gov_reach L u ph (with_account gid (Record dir n a) (gov_db s) s) given"
| reach_take: "gov_reach L u ph s given \<Longrightarrow> fmlookup (accounts s) gid = Some a \<Longrightarrow> 0 < n \<Longrightarrow> n < 2 ^ 63 \<Longrightarrow> dir \<le> Download \<Longrightarrow>
    take_once L gov_persist t dir n partial a (gov_db s) = (out, a', d') \<Longrightarrow>
    gov_reach L u ph (with_account gid a' d' s) (given(gid := given gid + admitted out))"
| reach_restart: "gov_reach L u ph s given \<Longrightarrow> ValidID u fresh \<Longrightarrow> Open L u now fresh (gov_db s) = Inr s' \<Longrightarrow> gov_reach L u Idle s' given"

subsection \<open>An operation run without interruption\<close>

text \<open>Run to the end with no other step between, the steps give the operations as they are written above.\<close>

lemma quarantine_in_empty [simp]: "quarantine_in {||} s = s"
  by (simp add: quarantine_in_def)

lemma quarantine_in_insert: "quarantine_in ids (quarantine_in {|gid|} s) = quarantine_in (finsert gid ids) s"
  by (simp add: quarantine_in_def turns_insert Quarantine_def)

lemma reach_quarantine_all: "gov_reach L u (Retiring w left) s given \<Longrightarrow> gov_reach L u (Retiring w {||}) (quarantine_in left s) given"
proof (induction left arbitrary: s)
  case (insert gid left)
  from reach_quarantine [OF insert.prems, of gid] insert.hyps
  have "gov_reach L u (Retiring w left) (quarantine_in {|gid|} s) given" by (simp add: fminus_finsert_absorb)
  from insert.IH [OF this] show ?case by (simp add: quarantine_in_insert)
qed simp

lemma reach_apply_all: "gov_reach L u Idle s given \<Longrightarrow> apply_all L u now gs s = (r, s') \<Longrightarrow> gov_reach L u Idle s' given"
proof (induction gs arbitrary: s)
  case (Cons g gs)
  obtain q s1 where q: "Apply_store L u now g s = (q, s1)" by fastforce
  note k = reach_apply [OF Cons.prems(1) q]
  show ?case using Cons.IH [OF k] Cons.prems(2) k q by (cases q) auto
qed simp

lemma reach_Reconcile:
  assumes "gov_reach L u Idle s given" and "Reconcile L u now gs s = (r, s')"
  shows "gov_reach L u Idle s' given"
proof (cases "reconcile_check u gs {||} {||}")
  case (Some w)
  obtain q d' where q: "suspend_tx w s = (q, d')" by fastforce
  note t = reach_suspend [OF assms(1) Some q]
  show ?thesis
  proof (cases q)
    case None
    with t have "gov_reach L u (Retiring w (unwanted w s)) (s\<lparr>gov_db := d'\<rparr>) given" by simp
    from reach_retired [OF reach_quarantine_all [OF this]] have "gov_reach L u Idle (retire w (s\<lparr>gov_db := d'\<rparr>)) given"
      by (simp add: retire_def unwanted_def)
    from reach_apply_all [OF this] show ?thesis using assms(2) Some q None by (simp add: Reconcile_def)
  qed (use t assms(2) Some q in \<open>simp add: Reconcile_def\<close>)
qed (use assms in \<open>simp add: Reconcile_def\<close>)

lemma reach_apply_updates: "gov_reach L u (Updating xs) s given \<Longrightarrow> apply_updates L u env xs s = (r, s') \<Longrightarrow> gov_reach L u Idle s' given"
proof (induction xs arbitrary: s)
  case Nil
  then show ?case using reach_updated by fastforce
next
  case (Cons x xs)
  obtain ctx now clk where env: "env (pu_GrantID x) = (ctx, now, clk)" by (metis prod_cases3)
  obtain q s1 where q: "apply_update L u now clk x s = (q, s1)" by fastforce
  note k = reach_update [OF Cons.prems(1) q]
  show ?case
  proof (cases "ctx = None")
    case True
    then show ?thesis using Cons.IH [of s1] Cons.prems(2) k q env by (cases q) auto
  qed (use Cons.prems env reach_updated in auto)
qed

lemma reach_ApplyAuthority:
  assumes "gov_reach L u Idle s given" and "ApplyAuthority_store L u env env' xs s = (r, s')"
  shows "gov_reach L u Idle s' given"
proof (cases "validateAuthorityLocked L u env xs s")
  case None
  from reach_apply_updates [OF reach_validate [OF assms(1) None]] show ?thesis
    using assms(2) None by (simp add: ApplyAuthority_store_def)
qed (use assms in \<open>simp add: ApplyAuthority_store_def\<close>)

lemma reach_apply_credits: "gov_reach L u (Crediting cs) s given \<Longrightarrow> apply_credits L env cs s = (r, s') \<Longrightarrow> gov_reach L u Idle s' given"
proof (induction cs arbitrary: s)
  case Nil
  then show ?case using reach_credited by fastforce
next
  case (Cons x cs)
  obtain ctx now clk where env: "env (c_GrantID x) = (ctx, now, clk)" by (metis prod_cases3)
  show ?case
  proof (cases "ctx = None \<and> fmlookup (accounts s) (c_GrantID x) \<noteq> None")
    case True
    then obtain a where a: "fmlookup (accounts s) (c_GrantID x) = Some a" by auto
    obtain q a' d' where q: "ApplyCredit L gov_persist now clk (c_TermID x) (c_PolicyRevision x) (c_CreditRevision x) (c_CreditCeiling x)
        a (gov_db s) = (q, a', d')" by (metis prod_cases3)
    note k = reach_credit [OF Cons.prems(1) a q]
    show ?thesis using Cons.IH [of "with_account (c_GrantID x) a' d' s"] Cons.prems(2) k q env a True by (cases q) auto
  next
    case False
    then have "s' = s" using Cons.prems(2) env by (auto split: option.splits if_splits)
    then show ?thesis using reach_credited [OF Cons.prems(1)] by simp
  qed
qed

lemma reach_ApplyCredit:
  assumes "gov_reach L u Idle s given" and "ApplyCredit_store L u env cs s = (r, s')"
  shows "gov_reach L u Idle s' given"
proof (cases "ValidateCredits u cs = None \<and> credit_check cs s")
  case True
  then have "gov_reach L u (Crediting cs) s given" using reach_check [OF assms(1)] by simp
  from reach_apply_credits [OF this] show ?thesis using assms(2) True by (simp add: ApplyCredit_store_def)
qed (use assms in \<open>auto simp: ApplyCredit_store_def split: if_splits\<close>)

lemma clock_in_empty [simp]: "clock_in c {||} s = s"
  by (simp add: clock_in_def)

lemma clock_in_insert: "clock_in c ids (clock_in c {|gid|} s) = clock_in c (finsert gid ids) s"
  by (simp add: clock_in_def turns_insert SetClock_def)

lemma reach_clock_all: "gov_reach L u (Clocking c left) s given \<Longrightarrow> gov_reach L u (Clocking c {||}) (clock_in c left s) given"
proof (induction left arbitrary: s)
  case (insert gid left)
  from reach_clock_set [OF insert.prems, of gid] insert.hyps
  have "gov_reach L u (Clocking c left) (clock_in c {|gid|} s) given" by (simp add: fminus_finsert_absorb)
  from insert.IH [OF this] show ?case by (simp add: clock_in_insert)
qed simp

lemma reach_SetClock: "gov_reach L u Idle s given \<Longrightarrow> gov_reach L u Idle (SetClock_store c s) given"
  unfolding SetClock_store_def by (rule reach_clocked [OF reach_clock_all [OF reach_clock]])

subsection \<open>The invariant of a run\<close>

text \<open>The grants an unfinished \<open>Reconcile\<close> has suspended but not yet quarantined, and the store once it has.\<close>

definition being_retired :: "phase \<Rightarrow> string \<Rightarrow> bool" where
  "being_retired ph gid = (case ph of Retiring w left \<Rightarrow> gid |\<in>| left | _ \<Rightarrow> False)"

definition settle :: "phase \<Rightarrow> 'b GovStore \<Rightarrow> 'b GovStore" where
  "settle ph s = (case ph of Retiring w left \<Rightarrow> drop_clients w (quarantine_in left s) | _ \<Rightarrow> s)"

definition settle_account :: "phase \<Rightarrow> string \<Rightarrow> ('b, string) Account \<Rightarrow> ('b, string) Account" where
  "settle_account ph gid a = (if being_retired ph gid then Quarantine a else a)"

definition phase_ok :: "'u uuid_lib \<Rightarrow> phase \<Rightarrow> 'b GovStore \<Rightarrow> bool" where
  "phase_ok u ph s = (case ph of Updating xs \<Rightarrow> updates_ok u xs s | _ \<Rightarrow> True)"

definition run_ok :: "'b rate_lib \<Rightarrow> 'u uuid_lib \<Rightarrow> phase \<Rightarrow> 'b GovStore \<Rightarrow> (string \<Rightarrow> nat) \<Rightarrow> bool" where
  "run_ok L u ph s given \<longleftrightarrow> gov_ok L u (settle ph s) \<and> phase_ok u ph s \<and> (\<forall>gid. given gid \<le> spent_of s gid)"

lemma settle_simps [simp]: "settle Idle s = s" "settle (Updating xs) s = s" "settle (Crediting cs) s = s" "settle (Clocking c left) s = s"
  "phase_ok u Idle s" "phase_ok u (Retiring w left) s" "phase_ok u (Crediting cs) s" "phase_ok u (Clocking c left) s"
  "phase_ok u (Updating xs) s = updates_ok u xs s" "\<not> being_retired Idle gid"
  by (simp_all add: settle_def phase_ok_def being_retired_def)

lemma settled [simp]: "gov_db (settle ph s) = gov_db s"
  "fmlookup (accounts (settle ph s)) gid = map_option (settle_account ph gid) (fmlookup (accounts s) gid)"
  by (cases ph; cases "fmlookup (accounts s) gid"; simp add: settle_def settle_account_def being_retired_def)+

lemma settle_account_simps [simp]: "policy (settle_account ph gid a) = policy a" "spent (settle_account ph gid a) = spent a"
  "persistence (settle_account ph gid a) = persistence a" "account_ok L (settle_account ph gid a) = account_ok L a"
  "in_book u gid (settle_account ph gid a) = in_book u gid a"
  "quarantined (settle_account ph gid a) \<longleftrightarrow> being_retired ph gid \<or> quarantined a"
  by (auto simp: settle_account_def synced_def fun_eq_iff)

lemma spent_of_settle [simp]: "spent_of (settle ph s) = spent_of s"
  by (auto simp: spent_of_def fun_eq_iff split: option.splits)

lemma settle_with: "settle ph (with_account gid a d s) = with_account gid (settle_account ph gid a) d (settle ph s)"
proof (cases ph)
  case (Retiring w left)
  then show ?thesis
    by (intro GovStore.equality fmap_ext)
      (simp_all add: settle_def settle_account_def being_retired_def drop_clients_def quarantine_in_def turns_upd fmlookup_filter)
qed (simp_all add: settle_def settle_account_def being_retired_def)

lemma settle_suspended: "settle (Retiring w (unwanted w s)) (s\<lparr>gov_db := d\<rparr>) = retire w (s\<lparr>gov_db := d\<rparr>)"
  by (simp add: settle_def retire_def unwanted_def)

lemma settle_quarantine:
  assumes "gid |\<in>| left"
  shows "settle (Retiring w (left |-| {|gid|})) (quarantine_in {|gid|} s) = settle (Retiring w left) s"
proof -
  have "finsert gid (left |-| {|gid|}) = left" using assms by auto
  then show ?thesis by (simp add: settle_def quarantine_in_insert)
qed

lemma run_record:
  assumes "run_ok L u ph s given" and "fmlookup (accounts s) gid = Some a"
  obtains rc where "fmlookup (db_grants (gov_db s)) gid = Some rc" "gr_ID (rec_Grant rc) = gid" "Validate u (rec_Grant rc) = None"
    "fmlookup (db_backing (gov_db s)) gid = Some (Reserved rc)" "gr_Policy (rec_Grant rc) = policy a"
    "Suspended rc \<longleftrightarrow> being_retired ph gid \<or> quarantined a" "spent a \<le> unat (Reserved rc)" "account_ok L a" "in_book u gid a (gov_db s)"
    "given gid \<le> spent a"
proof -
  have ok: "gov_ok L u (settle ph s)" and le: "given gid \<le> spent_of s gid" using assms(1) by (simp_all add: run_ok_def)
  have m: "fmlookup (accounts (settle ph s)) gid = Some (settle_account ph gid a)" using assms(2) by simp
  have "given gid \<le> spent a" using le assms(2) by (simp add: spent_of_def)
  with gov_ok_record [OF ok m] that show thesis by simp metis
qed

text \<open>A turn of an account leaves the operation under way where it is.\<close>

lemma turn_keeps:
  assumes r: "run_ok L u ph s given" and m: "fmlookup (accounts s) gid = Some a"
    and a: "account_ok L a'" "in_book u gid a' d'" and o: "only_book u gid (gov_db s) d'"
    and q: "quarantined a' = quarantined a" and p: "Enabled (policy a') = Enabled (policy a)" and sp: "spent a' = spent a + n"
  shows "run_ok L u ph (with_account gid a' d' s) (given(gid := given gid + n))"
proof -
  let ?s = "with_account gid a' d' s"
  have ok: "gov_ok L u (settle ph s)" using r by (simp add: run_ok_def)
  have m': "fmlookup (accounts (settle ph s)) gid = Some (settle_account ph gid a)" using m by simp
  have "gov_ok L u (with_account gid (settle_account ph gid a') d' (settle ph s))"
    by (rule gov_ok_upd [OF ok m']) (use a o q p in simp_all)
  then have "gov_ok L u (settle ph ?s)" by (simp add: settle_with)
  moreover have "update_ok u ?s y" if "update_ok u s y" for y
    by (rule update_ok_frame [OF that]) (use m o in \<open>auto simp: only_book_def\<close>)
  then have "updates_ok u xs ?s" if "updates_ok u xs s" for xs using that unfolding updates_ok_def list_all_iff by blast
  then have "phase_ok u ph ?s" using r by (cases ph) (simp_all add: run_ok_def)
  moreover have "(given(gid := given gid + n)) k \<le> spent_of ?s k" for k
  proof -
    have "given k \<le> spent_of s k" using r by (simp add: run_ok_def)
    then show ?thesis using m sp by (auto simp: spent_of_def)
  qed
  ultimately show ?thesis by (simp add: run_ok_def)
qed

lemma take_spent:
  assumes L: "limiter_ok L" and a: "account_ok L a" and n: "0 < n" "n < 2 ^ 63" and dir: "dir \<le> Download"
    and take: "take_once L P t dir n partial a d = (out, a', d')"
  shows "spent a' = spent a + admitted out"
proof (cases "\<exists>m. out = Returned (Inr m)")
  case True
  then obtain m where m: "out = Returned (Inr m)" by auto
  then show ?thesis using take_once_within [OF L a n dir take [unfolded m]] by (simp add: admitted_def)
next
  case False
  with take_once_refused [OF take] obtain m where
    "a' = a \<or> a' = a\<lparr>buckets := used_bucket L (t_now t) m dir (buckets a)\<rparr>" by metis
  moreover have "admitted out = 0" using False by (auto simp: admitted_def split: take_outcome.splits sum.splits)
  ultimately show ?thesis by auto
qed

lemma run_take:
  assumes L: "limiter_ok L" and r: "run_ok L u ph s given" and m: "fmlookup (accounts s) gid = Some a"
    and n: "0 < n" "n < 2 ^ 63" and dir: "dir \<le> Download"
    and take: "take_once L gov_persist t dir n partial a (gov_db s) = (out, a', d')"
  shows "run_ok L u ph (with_account gid a' d' s) (given(gid := given gid + admitted out))"
proof -
  have x: "account_ok L a" "in_book u gid a (gov_db s)" using run_record [OF r m] by metis+
  note b = take_in_book [OF L x(1) n dir x(2) take]
  show ?thesis
    using policy_only_take [OF take] take_fields [OF L x(1) n dir take]
    by (intro turn_keeps [OF r m account_ok_take [OF L x(1) n dir take] b(1,2)] take_spent [OF L x(1) n dir take]) simp_all
qed

lemma run_Record:
  assumes r: "run_ok L u ph s given" and m: "fmlookup (accounts s) gid = Some a" and n: "n < 2 ^ 63"
  shows "run_ok L u ph (with_account gid (Record dir n a) (gov_db s) s) given"
proof -
  have x: "account_ok L a" "in_book u gid a (gov_db s)" using run_record [OF r m] by metis+
  note f = Record_ok [OF x(1) n, of dir]
  have p: "persistence (Record dir n a) = persistence a" "quarantined (Record dir n a) = quarantined a"
    by (simp_all add: Record_def Let_def)
  have "in_book u gid (Record dir n a) (gov_db s)" using x(2) f p by (simp add: synced_def)
  from turn_keeps [OF r m f(1) this, of 0] f p show ?thesis by simp
qed

lemma SetClock_simps [simp]: "policy (SetClock c a) = policy a" "spent (SetClock c a) = spent a"
  "quarantined (SetClock c a) = quarantined a" "persistence (SetClock c a) = persistence a" "account_ok L (SetClock c a) = account_ok L a"
  by (auto simp: SetClock_def spent_def account_ok_def)

lemma clock_in_keeps:
  assumes ok: "gov_ok L u s" shows "keeps L u s (clock_in c ids s)"
proof -
  have "forwards (clock_in c ids s) k x = forwards s k x" for k x
    by (cases "fmlookup (accounts s) k") (simp_all add: forwards_def clock_in_def)
  then show ?thesis
    using ok unfolding keeps_def gov_ok_def clients_ok_def accounts_ok_def synced_def
    by (auto simp: clock_in_def spent_of_def fun_eq_iff split: option.splits)
qed

lemma keeps_clock: "gov_ok L u s \<Longrightarrow> keeps L u s (s\<lparr>gov_clock := c\<rparr>)"
  by (simp add: keeps_def gov_ok_def accounts_ok_def clients_ok_def forwards_def spent_of_def fun_eq_iff)

lemma run_okI: "keeps L u (settle ph s) (settle ph' s') \<Longrightarrow> run_ok L u ph s given \<Longrightarrow> phase_ok u ph' s' \<Longrightarrow> run_ok L u ph' s' given"
  by (simp add: run_ok_def keeps_def)

lemma run_okD: "run_ok L u ph s given \<Longrightarrow> gov_ok L u (settle ph s)" "run_ok L u (Updating xs) s given \<Longrightarrow> updates_ok u xs s"
  by (simp_all add: run_ok_def)

lemma run_reopened:
  assumes L: "limiter_ok L" and r: "run_ok L u ph s given" and f: "db_faults (gov_db s) = [] \<or> hd (db_faults (gov_db s)) = None"
  obtains s' where "Open L u now fresh (gov_db s) = Inr s'" "gov_ok L u s'" "db_grants (gov_db s') = db_grants (gov_db s)"
    "\<And>k. spent_of s' k = (case fmlookup (db_grants (gov_db s)) k of None \<Rightarrow> 0 | Some r \<Rightarrow> unat (Reserved r))"
proof -
  note ok = run_okD(1) [OF r]
  have "case db_journal (gov_db s) of None \<Rightarrow> ValidID u fresh | Some i \<Rightarrow> ValidID u i" using ok by (auto simp: gov_ok_def)
  with Open_reopens [OF L, of u "gov_db s"] gov_ok_grants [OF ok] f that show thesis by simp metis
qed

lemma run_covered:
  assumes "run_ok L u ph s given"
  shows "given gid \<le> (case fmlookup (db_grants (gov_db s)) gid of None \<Rightarrow> 0 | Some r \<Rightarrow> unat (Reserved r))"
proof (cases "fmlookup (accounts s) gid")
  case None
  then show ?thesis using assms by (simp add: run_ok_def spent_of_def) (metis option.simps(4) le_zero_eq zero_le)
next
  case (Some a)
  from run_record [OF assms Some] obtain rc where "fmlookup (db_grants (gov_db s)) gid = Some rc" "spent a \<le> unat (Reserved rc)"
    "given gid \<le> spent a" by metis
  then show ?thesis by simp
qed

lemma Open_faults: "Open L u now fresh d = Inr s \<Longrightarrow> db_faults d = [] \<or> hd (db_faults d) = None"
  by (auto simp: Open_def Let_def split: sum.splits prod.splits option.splits list.splits)

lemma gov_reach_ok:
  assumes L: "limiter_ok L" and nil: "\<not> ValidID u ''''"
  shows "gov_reach L u ph s given \<Longrightarrow> run_ok L u ph s given"
proof (induction rule: gov_reach.induct)
  case (reach_open d fresh now s)
  have "grants_ok u (db_grants d)" using reach_open(1) by (simp add: grants_ok_def)
  from Open_reopens [OF L this _ Open_faults [OF reach_open(4)]] reach_open have "gov_ok L u s" by (metis Inr_inject option.simps(4))
  then show ?case by (simp add: run_ok_def)
next
  case (reach_apply s given now g r s')
  then show ?case using run_okI [OF _ reach_apply(3), of Idle] Apply_store_keeps [OF L nil _ reach_apply(2)] run_okD by fastforce
next
  case (reach_suspend s given gs w r d')
  from suspend_keeps [OF _ reach_suspend(3), of L u] run_okD(1) [OF reach_suspend(4)] show ?case
    by (intro run_okI [OF _ reach_suspend(4)]) (auto simp: settle_suspended)
next
  case (reach_quarantine w left s given gid)
  then show ?case using run_okD(1) [OF reach_quarantine(3)]
    by (intro run_okI [OF _ reach_quarantine(3)]) (simp_all add: settle_quarantine keeps_refl)
next
  case (reach_retired w s given)
  then show ?case using run_okD(1) [OF reach_retired(2)]
    by (intro run_okI [OF _ reach_retired(2)]) (simp_all add: settle_def keeps_refl)
next
  case (reach_validate s given env xs)
  have ok: "gov_ok L u s" using run_okD(1) [OF reach_validate(3)] by simp
  then show ?case using validated_updates_ok [OF ok nil reach_validate(2)]
    by (intro run_okI [OF _ reach_validate(3)]) (simp_all add: keeps_refl)
next
  case (reach_update x xs s given now clk r s')
  have ok: "gov_ok L u s" using run_okD(1) [OF reach_update(3)] by simp
  note st = apply_update_step [OF L nil ok run_okD(2) [OF reach_update(3)] reach_update(2)]
  then show ?case by (intro run_okI [OF _ reach_update(3)]) simp_all
next
  case (reach_credit x cs s given a now clk r a' d')
  have ok: "gov_ok L u s" using run_okD(1) [OF reach_credit(4)] by simp
  from ApplyCredit_keeps [OF L ok reach_credit(2,3)] show ?case by (intro run_okI [OF _ reach_credit(4)]) simp_all
next
  case (reach_take ph s given gid a n dir t partial out a' d')
  show ?case by (rule run_take [OF L reach_take(7,2-6)])
next
  case (reach_record ph s given gid a n dir)
  show ?case by (rule run_Record [OF reach_record(4,2,3)])
next
  case (reach_restart ph s given fresh now s')
  from run_reopened [OF L reach_restart(4) Open_faults [OF reach_restart(3)], of now fresh] reach_restart(3)
  have "gov_ok L u s'" and sp: "\<And>k. spent_of s' k = (case fmlookup (db_grants (gov_db s)) k of None \<Rightarrow> 0 | Some r \<Rightarrow> unat (Reserved r))"
    by (metis Inr_inject)+
  then show ?case using run_covered [OF reach_restart(4)] by (simp add: run_ok_def)
qed (auto simp: run_ok_def clock_in_keeps [unfolded keeps_def] keeps_clock [unfolded keeps_def])

lemma gov_ok_forwards:
  assumes ok: "gov_ok L u s"
  shows "fmlookup (clients s) c = Some k \<longleftrightarrow>
    (\<exists>r. fmlookup (db_grants (gov_db s)) k = Some r \<and> live_record r \<and> gr_ClientID (rec_Grant r) = c)"
proof
  assume "fmlookup (clients s) c = Some k"
  then have "forwards s k c" using ok by (simp add: gov_ok_def clients_ok_def)
  moreover have "accounts_ok L u s" using ok by (simp add: gov_ok_def)
  ultimately show "\<exists>r. fmlookup (db_grants (gov_db s)) k = Some r \<and> live_record r \<and> gr_ClientID (rec_Grant r) = c"
    by (metis forwards_record)
next
  assume "\<exists>r. fmlookup (db_grants (gov_db s)) k = Some r \<and> live_record r \<and> gr_ClientID (rec_Grant r) = c"
  then obtain r where r: "fmlookup (db_grants (gov_db s)) k = Some r" "live_record r" "gr_ClientID (rec_Grant r) = c" by auto
  have "k |\<in>| fmdom (accounts s)" using ok fmdomI [OF r(1)] by (simp add: gov_ok_def)
  then obtain a where a: "fmlookup (accounts s) k = Some a" by (auto simp: fmlookup_dom_iff)
  from gov_ok_record [OF ok a] r(1) have "gr_Policy (rec_Grant r) = policy a" by (metis option.inject)
  then have "forwards s k c" using r a by (simp add: forwards_def live_record_def saved_label_def)
  then show "fmlookup (clients s) c = Some k" using ok by (simp add: gov_ok_def clients_ok_def)
qed

lemma Reserve_decided:
  assumes rc: "fmlookup (db_grants d) gid = Some rc" and b: "fmlookup (db_backing d) gid = Some (Reserved rc)"
    and p: "gr_Policy (rec_Grant rc) = p" and f: "db_faults d = []"
    and c: "\<not> QuotaUnlimited p \<Longrightarrow> tot \<le> CreditCeiling p"
  shows "fst (backing_Reserve gid p tot d) = (if Suspended rc \<and> Reserved rc < tot then Some ErrGrant else None)"
proof (cases "tot \<le> Reserved rc")
  case True
  then show ?thesis using b by (auto simp: backing_Reserve_def)
next
  case False
  have "Reserved rc \<le> next_reservation p tot" using next_reservation_covers(1) [OF c] False by (metis le_cases order_trans)
  then show ?thesis
    using False b rc p f c
    by (auto simp: backing_Reserve_def Let_def load_record_def db_update_def not_less split: prod.splits option.splits)
qed

text \<open>Examples: a database with nothing in it, and a grant for it.\<close>

definition empty_db :: GovDB where
  "empty_db = \<lparr>db_journal = None, db_grants = fmempty, db_backing = fmempty, db_faults = []\<rparr>"

definition sample_grant :: Grant where
  "sample_grant = \<lparr>gr_ID = ''g'', gr_ClientID = ''c'', RateRevision = 1, gr_Policy = sample_policy\<rparr>"

definition opened :: "int GovStore" where
  "opened = \<lparr>accounts = fmempty, clients = fmempty, journalID = ''j'', gov_clock = False, gov_db = empty_db\<lparr>db_journal := Some ''j''\<rparr>\<rparr>"

lemma plain_ValidID [simp]: "ValidID plain_uuid s \<longleftrightarrow> s \<noteq> ''''"
  by (simp add: ValidID_def plain_uuid_def)

lemma Open_empty: "Open open_limiter plain_uuid 0 ''j'' empty_db = Inr opened"
proof -
  have "sorted_list_of_fset (fmdom (fmempty :: (string, grant_record) fmap)) = []" by (simp add: sorted_list_of_fset.rep_eq)
  then show ?thesis by (simp add: Open_def Let_def open_journal_def entries_by_key_def empty_db_def opened_def)
qed

lemma reach_opened: "gov_reach open_limiter plain_uuid Idle opened (\<lambda>_. 0)"
  by (rule reach_open [OF _ _ _ Open_empty]) (simp_all add: empty_db_def)

definition sample_store :: "int GovStore" where
  "sample_store = snd (Apply_store open_limiter plain_uuid 0 sample_grant opened)"

lemma sample_Validate: "Validate plain_uuid sample_grant = None"
  by (simp add: Validate_def sample_grant_def sample_policy_def validate_def validate_rate_def)

lemma sample_store_account:
  obtains a where "fmlookup (accounts sample_store) ''g'' = Some a" "policy a = sample_policy" "\<not> has_clock a" "\<not> quarantined a"
    "spent a = 0" "at_dir Upload (buckets a) = None" "db_faults (gov_db sample_store) = []"
    "Apply_store open_limiter plain_uuid 0 sample_grant opened = (None, sample_store)"
proof -
  have v: "validate sample_policy = None" using sample_Validate by (simp add: Validate_def sample_grant_def split: if_splits)
  show thesis
    by (rule that, (simp add: sample_store_def Apply_store_def sample_Validate client_of_def saved_conflict_def opened_def empty_db_def
        save_new_def Let_def db_update_def save_def restore_record_def Restore_def New_account_def
        sample_Validate [unfolded sample_grant_def] v index_client_def SetClock_def spent_def sample_grant_def)[1])
      (simp_all add: sample_store_def Apply_store_def sample_Validate client_of_def saved_conflict_def opened_def empty_db_def
        save_new_def Let_def db_update_def save_def restore_record_def Restore_def New_account_def
        sample_Validate [unfolded sample_grant_def] v index_client_def SetClock_def spent_def bucket_def drain_def,
       simp_all add: sample_grant_def sample_policy_def v [unfolded sample_policy_def] bucket_def drain_def spent_def)
qed

lemma take_decided:
  assumes r: "run_ok L u ph s given" and a: "fmlookup (accounts s) gid = Some a" and "t_ctx t = None"
    and al: "allowed a (t_now t) (t_clk2 t) dir (word_of_int n) = None"
    and "at_dir dir (buckets a) = None \<or> fst (AllowN L (t_now t) n (the (at_dir dir (buckets a))))"
    and f: "db_faults (gov_db s) = []"
  shows "fst (take_once L gov_persist t dir n False a (gov_db s)) =
    Returned (if being_retired ph gid \<and> saved_reserved gid (gov_db s) < previouslyReserved a + uploaded a + downloaded a + word_of_int n
      then Inl ErrGrant else Inr n)"
proof -
  let ?tot = "previouslyReserved a + uploaded a + downloaded a + word_of_int n"
  from run_record [OF r a] obtain rc where rc: "fmlookup (db_grants (gov_db s)) gid = Some rc"
    "fmlookup (db_backing (gov_db s)) gid = Some (Reserved rc)" "gr_Policy (rec_Grant rc) = policy a"
    "Suspended rc \<longleftrightarrow> being_retired ph gid \<or> quarantined a" "in_book u gid a (gov_db s)" by metis
  note al' = al [unfolded allowed_None]
  have sus: "Suspended rc \<longleftrightarrow> being_retired ph gid" using rc(4) al' by auto
  have tot: "unat ?tot = spent a + unat (word_of_int n :: u64)" using al' by (simp add: spent_def unat_add_fits)
  have "fst (backing_Reserve gid (policy a) ?tot (gov_db s)) =
      (if Suspended rc \<and> Reserved rc < ?tot then Some ErrGrant else None)"
    using rc al' f tot by (intro Reserve_decided [OF rc(1,2)]) (auto simp: word_le_nat_alt)
  then have "fst (reserve_call gov_persist a n (gov_db s)) =
      (if being_retired ph gid \<and> saved_reserved gid (gov_db s) < ?tot then Some ErrGrant else None)"
    unfolding sus using rc(1,5) by (simp add: reserve_call_def synced_def gov_persist_def saved_reserved_def)
  then show ?thesis
    using assms(3-5) unfolding take_once_eq Let_def by (auto split: prod.splits option.splits if_splits)
qed

lemma reach_sample: "gov_reach open_limiter plain_uuid Idle sample_store (\<lambda>_. 0)"
  by (rule sample_store_account, rule reach_apply [OF reach_opened]) assumption

lemma sample_store_grants:
  "db_grants (gov_db sample_store) = fmupd ''g'' \<lparr>rec_Grant = sample_grant, Reserved = 0, Suspended = False\<rparr> fmempty"
proof -
  have v: "validate sample_policy = None" using sample_Validate by (simp add: Validate_def sample_grant_def split: if_splits)
  show ?thesis
    by (simp add: sample_store_def Apply_store_def sample_Validate client_of_def saved_conflict_def opened_def empty_db_def
        save_new_def Let_def db_update_def save_def restore_record_def Restore_def New_account_def
        sample_Validate [unfolded sample_grant_def] v index_client_def)
      (simp add: sample_grant_def v index_client_def client_of_def)
qed

lemma take_faults:
  assumes "db_faults d = []" and "take_once L gov_persist t dir n partial a d = (out, a', d')"
  shows "db_faults d' = []"
proof -
  have "db_faults (snd (backing_Reserve h p tot d)) = []" for h p tot
    using assms(1)
    by (auto simp: backing_Reserve_def db_update_def load_record_def save_def Let_def split: option.splits sum.splits if_splits)
  then have "db_faults (snd (reserve_call gov_persist a m d)) = []" for m
    using assms(1) by (auto simp: reserve_call_def gov_persist_def split: option.splits)
  then show ?thesis
    using assms unfolding take_once_eq Let_def by (auto split: if_splits prod.splits option.splits) (metis snd_conv)+
qed

lemma run_sample: "run_ok open_limiter plain_uuid Idle sample_store (\<lambda>_. 0)"
  by (rule gov_reach_ok [OF open_limiter_ok _ reach_sample]) simp

lemma sample_store_take:
  obtains a a' d' where "fmlookup (accounts sample_store) ''g'' = Some a" "policy a = sample_policy"
    "allowed a 0 (Inr 0) Upload 10 = None" "at_dir Upload (buckets a) = None"
    "take_once open_limiter gov_persist sample_tick Upload 10 False a (gov_db sample_store) = (Returned (Inr 10), a', d')"
    "gov_reach open_limiter plain_uuid Idle (with_account ''g'' a' d' sample_store) (\<lambda>k. if k = ''g'' then 10 else 0)"
proof -
  obtain a where a: "fmlookup (accounts sample_store) ''g'' = Some a" "policy a = sample_policy" "\<not> has_clock a" "\<not> quarantined a"
    "spent a = 0" "at_dir Upload (buckets a) = None" "db_faults (gov_db sample_store) = []" by (rule sample_store_account)
  have al: "allowed a 0 (Inr 0) Upload 10 = None" using a by (auto simp: allowed_None sample_policy_def)
  have "fst (take_once open_limiter gov_persist sample_tick Upload 10 False a (gov_db sample_store)) = Returned (Inr 10)"
    using al a take_decided [OF run_sample a(1), of sample_tick Upload 10] by (simp add: sample_tick_def)
  then obtain a' d' where t: "take_once open_limiter gov_persist sample_tick Upload 10 False a (gov_db sample_store) = (Returned (Inr 10), a', d')"
    by (metis prod.collapse)
  have "(\<lambda>_. 0)(''g'' := 0 + admitted (Returned (Inr 10))) = (\<lambda>k. if k = ''g'' then 10 else 0)" by (auto simp: admitted_def)
  with reach_take [OF reach_sample a(1) _ _ _ t] that [OF a(1,2) al a(6) t] show thesis by simp
qed

text \<open>The store when a \<open>Reconcile\<close> that wants no grants has committed and not yet quarantined.\<close>

lemma reach_suspended:
  obtains a d where "gov_reach open_limiter plain_uuid (Retiring {||} {|''g''|}) (sample_store\<lparr>gov_db := d\<rparr>) (\<lambda>_. 0)"
    "fmlookup (accounts sample_store) ''g'' = Some a" "allowed a 0 (Inr 0) Upload 10 = None" "at_dir Upload (buckets a) = None"
    "db_faults d = []" "saved_reserved ''g'' d = 0" "previouslyReserved a + uploaded a + downloaded a = 0"
proof -
  obtain a where a: "fmlookup (accounts sample_store) ''g'' = Some a" "policy a = sample_policy"
    "spent a = 0" "db_faults (gov_db sample_store) = []" by (rule sample_store_account)
  obtain b where b: "fmlookup (accounts sample_store) ''g'' = Some b" "allowed b 0 (Inr 0) Upload 10 = None" "at_dir Upload (buckets b) = None"
    by (rule sample_store_take)
  from run_record [OF run_sample a(1)] obtain rc where rc: "fmlookup (db_grants (gov_db sample_store)) ''g'' = Some rc" by metis
  have dom: "fmdom (accounts sample_store) = {|''g''|}"
    using sample_store_grants run_okD(1) [OF run_sample] by (simp add: gov_ok_def)
  have ids: "sorted_list_of_fset (fmdom (accounts sample_store)) = [''g'']" by (simp add: dom sorted_list_of_fset.rep_eq)
  have un: "unwanted {||} sample_store = {|''g''|}" by (auto simp: unwanted_def dom)
  let ?d = "save (rc\<lparr>Suspended := True\<rparr>) (gov_db sample_store)"
  have tx: "suspend_tx {||} sample_store = (None, ?d)"
    using a(4) rc by (simp add: suspend_tx_def ids load_record_def db_update_def save_def)
  have r0: "gr_ID (rec_Grant rc) = ''g''" "Reserved rc = 0"
    using sample_store_grants rc by (auto simp: sample_grant_def)
  have "gov_reach open_limiter plain_uuid (Retiring {||} {|''g''|}) (sample_store\<lparr>gov_db := ?d\<rparr>) (\<lambda>_. 0)"
    using reach_suspend [OF reach_sample, of "[]" "{||}", OF _ tx] un by simp
  moreover have "previouslyReserved a + uploaded a + downloaded a = 0" using a(3) by (simp add: spent_def unat_eq_0)
  ultimately show thesis using that a b r0 by (simp add: save_def saved_reserved_def)
qed

text \<open>C21 In any run of a governor store - policies applied, grants reconciled, authority and credit updates,
  with admissions between any two of their steps, failing commits, restarts of the process at any moment - the book of
  every grant reserves at least all bytes the grant was ever given, over all lives of the process. All books are sound
  and agree with the accounts and the index of clients, once a \<open>Reconcile\<close> that has committed its
  suspensions has also quarantined their accounts.\<close>
theorem books_cover_admissions:
  assumes "limiter_ok L" and "\<not> ValidID u ''''" and "gov_reach L u ph s given"
  shows "gov_ok L u (settle ph s) \<and>
    given gid \<le> (case fmlookup (db_grants (gov_db s)) gid of None \<Rightarrow> 0 | Some r \<Rightarrow> unat (Reserved r))"
proof -
  have r: "run_ok L u ph s given" by (rule gov_reach_ok [OF assms])
  show ?thesis using run_okD(1) [OF r] run_covered [OF r] by blast
qed

theorem books_cover_admissions_witness:
  "\<exists>a a' d' s'. fmlookup (accounts sample_store) ''g'' = Some a
    \<and> take_once open_limiter gov_persist sample_tick Upload 10 False a (gov_db sample_store) = (Returned (Inr 10), a', d')
    \<and> Open open_limiter plain_uuid 7 ''k'' d' = Inr s' \<and> gov_ok open_limiter plain_uuid s'
    \<and> 10 \<le> (case fmlookup (db_grants (gov_db s')) ''g'' of None \<Rightarrow> 0 | Some r \<Rightarrow> unat (Reserved r))"
proof -
  obtain a a' d' where a: "fmlookup (accounts sample_store) ''g'' = Some a"
    "take_once open_limiter gov_persist sample_tick Upload 10 False a (gov_db sample_store) = (Returned (Inr 10), a', d')"
    "gov_reach open_limiter plain_uuid Idle (with_account ''g'' a' d' sample_store) (\<lambda>k. if k = ''g'' then 10 else 0)"
    by (rule sample_store_take)
  have nil: "\<not> ValidID plain_uuid ''''" by simp
  have "db_faults d' = []" by (rule take_faults [OF _ a(2)], rule sample_store_account)
  then obtain s' where s': "Open open_limiter plain_uuid 7 ''k'' d' = Inr s'"
    using run_reopened [OF open_limiter_ok gov_reach_ok [OF open_limiter_ok nil a(3)], of 7 "''k''"] by auto
  have "gov_reach open_limiter plain_uuid Idle s' (\<lambda>k. if k = ''g'' then 10 else 0)"
    by (rule reach_restart [OF a(3)]) (use s' in simp_all)
  from books_cover_admissions [OF open_limiter_ok nil this, of "''g''"] a s' show ?thesis by auto
qed

text \<open>C22 No grant with a quota is ever given more than its ceiling: in any run, over all restarts, whenever bytes are
  admitted, those already given and those of the admission at hand stay within the ceiling then in force.\<close>
theorem given_within_ceiling:
  assumes "limiter_ok L" and "\<not> ValidID u ''''" and "gov_reach L u ph s given" and "fmlookup (accounts s) gid = Some a"
    and "0 < requested" and "requested < 2 ^ 63" and "dir \<le> Download"
    and "take_once L gov_persist t dir requested partial a (gov_db s) = (Returned (Inr n), a', d')"
    and "\<not> QuotaUnlimited (policy a)"
  shows "given gid + nat n \<le> unat (CreditCeiling (policy a))"
proof -
  have "given gid \<le> spent a" "account_ok L a" using run_record [OF gov_reach_ok [OF assms(1-3)] assms(4)] by metis+
  then show ?thesis using take_once_within [OF assms(1) _ assms(5-8)] assms(9) by fastforce
qed

theorem given_within_ceiling_witness:
  "\<exists>a. fmlookup (accounts sample_store) ''g'' = Some a \<and> 0 + nat 10 \<le> unat (CreditCeiling (policy a))"
proof -
  obtain a a' d' where a: "fmlookup (accounts sample_store) ''g'' = Some a" "policy a = sample_policy"
    "take_once open_limiter gov_persist sample_tick Upload 10 False a (gov_db sample_store) = (Returned (Inr 10), a', d')"
    by (rule sample_store_take)
  have "\<not> QuotaUnlimited (policy a)" using a by (simp add: sample_policy_def)
  from given_within_ceiling [OF open_limiter_ok _ reach_sample a(1) _ _ _ a(3) this] a(1) show ?thesis by auto
qed

text \<open>C23 A store can always be opened again: after any run, also one cut short in the middle of an operation, when the
  commit does not fail, \<open>Open\<close> finds every record acceptable, serves exactly the same clients with the same grants -
  without those a \<open>Reconcile\<close> under way has suspended - and starts every account with all of its reservation counted as
  spent.\<close>
theorem store_reopens:
  assumes "limiter_ok L" and "\<not> ValidID u ''''" and "gov_reach L u ph s given"
    and "db_faults (gov_db s) = [] \<or> hd (db_faults (gov_db s)) = None"
  shows "\<exists>s'. Open L u now fresh (gov_db s) = Inr s' \<and> clients s' = clients (settle ph s) \<and> db_grants (gov_db s') = db_grants (gov_db s)
    \<and> (\<forall>gid r. fmlookup (db_grants (gov_db s)) gid = Some r \<longrightarrow> (\<exists>a. fmlookup (accounts s') gid = Some a \<and> spent a = unat (Reserved r)))"
proof -
  have r: "run_ok L u ph s given" by (rule gov_reach_ok [OF assms(1-3)])
  from run_reopened [OF assms(1) r assms(4)] obtain s' where
    s': "Open L u now fresh (gov_db s) = Inr s'" "gov_ok L u s'" "db_grants (gov_db s') = db_grants (gov_db s)"
    "\<And>k. spent_of s' k = (case fmlookup (db_grants (gov_db s)) k of None \<Rightarrow> 0 | Some r \<Rightarrow> unat (Reserved r))" by metis
  have "clients s' = clients (settle ph s)"
  proof (rule fmap_ext)
    fix c
    have "fmlookup (clients s') c = Some k \<longleftrightarrow> fmlookup (clients (settle ph s)) c = Some k" for k
      using gov_ok_forwards [OF run_okD(1) [OF r]] gov_ok_forwards [OF s'(2)] s'(3) by simp
    then show "fmlookup (clients s') c = fmlookup (clients (settle ph s)) c" by (metis option.exhaust)
  qed
  moreover have "\<exists>a. fmlookup (accounts s') gid = Some a \<and> spent a = unat (Reserved r)"
    if "fmlookup (db_grants (gov_db s)) gid = Some r" for gid r
  proof -
    have "gid |\<in>| fmdom (accounts s')" using s'(2,3) fmdomI [OF that] by (simp add: gov_ok_def)
    then obtain a where "fmlookup (accounts s') gid = Some a" by (auto simp: fmlookup_dom_iff)
    then show ?thesis using s'(4) [of gid] that by (simp add: spent_of_def)
  qed
  ultimately show ?thesis using s' by blast
qed

theorem store_reopens_witness:
  "\<exists>s'. Open open_limiter plain_uuid 7 ''k'' (gov_db sample_store) = Inr s' \<and> clients s' = clients sample_store"
proof -
  have "db_faults (gov_db sample_store) = []" by (rule sample_store_account)
  then show ?thesis using store_reopens [OF open_limiter_ok _ reach_sample, of 7 "''k''"] by auto
qed



section \<open>Paging through the grants\<close>

text \<open>What a reader does: ask for pages after the last one's \<open>Next\<close> until it is empty.\<close>

fun read_pages :: "nat \<Rightarrow> 'u uuid_lib \<Rightarrow> int \<Rightarrow> int result \<Rightarrow> string \<Rightarrow> int \<Rightarrow> 'b GovStore \<Rightarrow> AuthGrant list result option" where
  "read_pages 0 u now clk after limit s = None"
| "read_pages (Suc f) u now clk after limit s = (case Authority_page u None now clk after limit s of
      Inl err \<Rightarrow> Some (Inl err)
    | Inr p \<Rightarrow> if Next p = '''' then Some (Inr (Grants p))
        else map_option (map_sum (\<lambda>e. e) (\<lambda>gs. Grants p @ gs)) (read_pages f u now clk (Next p) limit s))"

lemma filter_after: "sorted_wrt (<) (xs @ y # ys) \<Longrightarrow> filter ((<) (y :: 'a :: linorder)) (xs @ y # ys) = ys"
  by (induction xs) (auto simp: sorted_wrt_append filter_id_conv)

lemma filter_suffix: "sorted_wrt (<) xs \<Longrightarrow> \<exists>pre. xs = pre @ filter ((<) (a :: 'a :: linorder)) xs"
proof (induction xs)
  case (Cons x xs)
  show ?case
  proof (cases "a < x")
    case True
    then have "filter ((<) a) (x # xs) = x # xs" using Cons.prems by (auto simp: filter_id_conv)
    then show ?thesis by auto
  next
    case False
    obtain pre where "xs = pre @ filter ((<) a) xs" using Cons by auto
    then show ?thesis using False by (intro exI [of _ "x # pre"]) simp
  qed
qed simp

lemma next_page:
  assumes "sorted_wrt (<) (ks :: 'a :: linorder list)" and "0 < l" and "l < length (filter ((<) a) ks)"
  shows "filter ((<) (last (take l (filter ((<) a) ks)))) ks = drop l (filter ((<) a) ks)"
proof -
  let ?r = "filter ((<) a) ks"
  obtain pre where ks: "ks = pre @ ?r" using filter_suffix [OF assms(1)] by metis
  have "length (take l ?r) = l" "?r \<noteq> []" using assms(2,3) by auto
  then have l: "last (take l ?r) = ?r ! (l - 1)"
    using assms(2) last_conv_nth [of "take l ?r"] nth_take [of "l - 1" l ?r] by auto
  have "?r = take (l - 1) ?r @ ?r ! (l - 1) # drop l ?r"
    using id_take_nth_drop [of "l - 1" ?r] assms(2,3) by simp
  with ks have "ks = (pre @ take (l - 1) ?r) @ ?r ! (l - 1) # drop l ?r" by simp
  then show ?thesis using filter_after assms(1) l by metis
qed

lemma page_entry_ok:
  assumes ok: "gov_ok L u s" and a: "fmlookup (accounts s) gid = Some a"
  obtains rc g where "load_record gid (gov_db s) = Inr rc" "page_entry now gid rc (account_snapshot a) = Inr g" "GrantID g = gid"
    "ReservedHighWater g = Reserved rc"
proof -
  from gov_ok_record [OF ok a] obtain rc where rc: "fmlookup (db_grants (gov_db s)) gid = Some rc" "gr_Policy (rec_Grant rc) = policy a"
    "spent a \<le> unat (Reserved rc)" "account_ok L a" by metis
  let ?x = "previouslyReserved a" and ?y = "uploaded a" and ?z = "downloaded a"
  have fit: "unat ?x + unat ?y + unat ?z < 2 ^ 64" using rc(4) by (simp add: account_ok_def spent_def)
  have xy: "unat (?x + ?y) = unat ?x + unat ?y" using fit by (simp add: unat_add_fits)
  have "?x \<le> maxUint64 - ?y" "?x + ?y \<le> maxUint64 - ?z" unfolding word_fits_iff xy using fit by simp_all
  moreover have "?x + ?y + ?z \<le> Reserved rc" using rc(3) fit by (simp add: word_le_nat_alt unat_add_fits spent_def)
  ultimately have "\<not> (?x > maxUint64 - ?y \<or> ?x + ?y > maxUint64 - ?z)" "\<not> ?x + ?y + ?z > Reserved rc" by (simp_all add: not_less)
  then have "\<exists>g. page_entry now gid rc (account_snapshot a) = Inr g \<and> GrantID g = gid \<and> ReservedHighWater g = Reserved rc"
    using rc(2) by (simp add: page_entry_def account_snapshot_def Let_def)
  then show thesis using that rc(1) by (auto simp: load_record_def)
qed

lemma page_loop_ok:
  assumes ok: "gov_ok L u s"
  shows "(\<And>k. k \<in> set ids \<Longrightarrow> fmlookup (accounts s) k \<noteq> None) \<Longrightarrow> \<exists>gs. page_loop now ids s = Inr gs \<and> map GrantID gs = ids"
proof (induction ids)
  case (Cons k ids)
  then obtain gs where gs: "page_loop now ids s = Inr gs" "map GrantID gs = ids" by auto
  obtain a where a: "fmlookup (accounts s) k = Some a" using Cons.prems [of k] by auto
  from page_entry_ok [OF ok a] obtain rc g where "load_record k (gov_db s) = Inr rc"
    "page_entry now k rc (account_snapshot a) = Inr g" "GrantID g = k" by metis
  then show ?case using a gs by (intro exI [of _ "g # gs"]) simp
qed simp

lemma Authority_page_ok:
  assumes ok: "gov_ok L u s" and nil: "\<not> ValidID u ''''" and af: "after = '''' \<or> ValidID u after"
    and lim: "0 < limit" "limit \<le> int MaxEntries" and clk: "gov_clock s \<Longrightarrow> \<exists>t. clk = Inr t"
    and r: "r = filter ((<) after) (sorted_list_of_fset (fmdom (db_grants (gov_db s))))"
  obtains p where "Authority_page u None now clk after limit s = Inr p" "map GrantID (Grants p) = take (nat limit) r"
    "Next p = (if length r > nat limit then last (take (nat limit) r) else '''')"
proof -
  let ?ks = "sorted_list_of_fset (fmdom (db_grants (gov_db s)))"
  have mem: "fmlookup (accounts s) k \<noteq> None \<and> ValidID u k" if "k \<in> set ?ks" for k
  proof -
    have "k |\<in>| fmdom (accounts s)" using that ok by (simp add: gov_ok_def)
    then obtain a where a: "fmlookup (accounts s) k = Some a" by (auto simp: fmlookup_dom_iff)
    from gov_ok_record [OF ok a] a show ?thesis by (metis Validate_valid option.distinct(1))
  qed
  have "filter ((<) '''') ?ks = ?ks" using mem nil by (auto simp: filter_id_conv) (metis neq_Nil_conv Nil_less_Cons)
  then have rest: "(if after = '''' then ?ks else filter (\<lambda>k. after < k) ?ks) = r" using r by simp
  let ?ids = "take (nat limit) r"
  have ids: "k \<in> set ?ids \<Longrightarrow> fmlookup (accounts s) k \<noteq> None" for k using mem r by (auto dest: in_set_takeD)
  obtain t where t: "(if gov_clock s then clk else Inr now) = Inr t" using clk by (cases "gov_clock s") auto
  from page_loop_ok [OF ok, of ?ids t] ids obtain gs where gs: "page_loop t ?ids s = Inr gs" "map GrantID gs = ?ids" by metis
  have "\<not> list_ex (\<lambda>gid. fmlookup (accounts s) gid = None) ?ids" using ids by (auto simp: list_ex_iff)
  moreover have "\<not> (after \<noteq> '''' \<and> \<not> ValidID u after \<or> limit \<le> 0 \<or> limit > int MaxEntries)" using af lim by auto
  ultimately show thesis
    using that gs unfolding Authority_page_def Let_def rest t by auto
qed

lemma read_pages_ok:
  assumes ok: "gov_ok L u s" and nil: "\<not> ValidID u ''''" and lim: "0 < limit" "limit \<le> int MaxEntries"
    and clk: "gov_clock s \<Longrightarrow> \<exists>t. clk = Inr t"
  shows "after = '''' \<or> ValidID u after \<Longrightarrow> length (filter ((<) after) (sorted_list_of_fset (fmdom (db_grants (gov_db s))))) < f \<Longrightarrow>
    \<exists>gs. read_pages f u now clk after limit s = Some (Inr gs)
      \<and> map GrantID gs = filter ((<) after) (sorted_list_of_fset (fmdom (db_grants (gov_db s))))"
proof (induction f arbitrary: after)
  case (Suc f)
  let ?ks = "sorted_list_of_fset (fmdom (db_grants (gov_db s)))" and ?l = "nat limit"
  let ?r = "filter ((<) after) ?ks"
  obtain p where p: "Authority_page u None now clk after limit s = Inr p" "map GrantID (Grants p) = take ?l ?r"
    "Next p = (if length ?r > ?l then last (take ?l ?r) else '''')"
    by (rule Authority_page_ok [OF ok nil Suc.prems(1) lim clk refl])
  show ?case
  proof (cases "length ?r > ?l")
    case False
    then show ?thesis using p by simp
  next
    case True
    have l0: "0 < ?l" using lim by simp
    have srt: "sorted_wrt (<) ?ks" by (simp add: sorted_list_of_fset.rep_eq)
    have nx: "Next p = last (take ?l ?r)" using p True by simp
    have "take ?l ?r \<noteq> []" using True l0 by (cases ?r) auto
    from last_in_set [OF this] have "Next p \<in> set ?r" unfolding nx by (rule in_set_takeD)
    then have "Next p \<in> set ?ks" by simp
    then have "Next p |\<in>| fmdom (accounts s)" using ok by (simp add: gov_ok_def)
    then obtain a where a: "fmlookup (accounts s) (Next p) = Some a" by (auto simp: fmlookup_dom_iff)
    have v: "ValidID u (Next p)" using gov_ok_record [OF ok a] by (metis Validate_valid)
    have rest: "filter ((<) (Next p)) ?ks = drop ?l ?r" using next_page [OF srt l0 True] nx by simp
    have "length (filter ((<) (Next p)) ?ks) < f" using rest True l0 Suc.prems(2) by simp
    from Suc.IH [OF _ this] v obtain gs where "read_pages f u now clk (Next p) limit s = Some (Inr gs)"
      "map GrantID gs = drop ?l ?r" using rest by auto
    moreover have "Next p \<noteq> ''''" using v nil by auto
    ultimately show ?thesis using p by (intro exI [of _ "Grants p @ gs"]) simp
  qed
qed simp

text \<open>C25 Reading the forwarding authority page by page ends, never fails on a store in good order, and lists every
  grant exactly once in the order of their IDs, whatever page size the reader picks.\<close>
theorem paging_complete:
  assumes "limiter_ok L" and "\<not> ValidID u ''''" and "gov_reach L u Idle s given" and "0 < limit" and "limit \<le> int MaxEntries"
    and "\<not> gov_clock s \<or> (\<exists>t. clk = Inr t)" and "fcard (fmdom (db_grants (gov_db s))) < f"
  shows "\<exists>gs. read_pages f u now clk '''' limit s = Some (Inr gs)
    \<and> map GrantID gs = sorted_list_of_fset (fmdom (db_grants (gov_db s)))"
proof -
  let ?ks = "sorted_list_of_fset (fmdom (db_grants (gov_db s)))"
  have ok: "gov_ok L u s" using run_okD(1) [OF gov_reach_ok [OF assms(1-3)]] by simp
  have len: "length ?ks = fcard (fmdom (db_grants (gov_db s)))"
    by (simp add: sorted_list_of_fset.rep_eq fcard.rep_eq)
  have "k \<noteq> ''''" if "k \<in> set ?ks" for k
  proof -
    have "k |\<in>| fmdom (accounts s)" using that ok by (simp add: gov_ok_def)
    then obtain a where a: "fmlookup (accounts s) k = Some a" by (auto simp: fmlookup_dom_iff)
    have "ValidID u k" using gov_ok_record [OF ok a] by (metis Validate_valid)
    then show ?thesis using assms(2) by auto
  qed
  then have all: "filter ((<) '''') ?ks = ?ks" by (auto simp: filter_id_conv) (metis neq_Nil_conv Nil_less_Cons)
  have "gov_clock s \<Longrightarrow> \<exists>t. clk = Inr t" using assms(6) by simp
  from read_pages_ok [OF ok assms(2,4,5) this, of "''''" f now] show ?thesis using all len assms(7) by simp
qed

theorem paging_complete_witness:
  "\<exists>gs. read_pages 2 plain_uuid 0 (Inr 0) '''' 1 sample_store = Some (Inr gs) \<and> map GrantID gs = [''g'']"
proof -
  have d: "fmdom (db_grants (gov_db sample_store)) = {|''g''|}" by (simp add: sample_store_grants)
  have "sorted_list_of_fset {|''g''|} = [''g'']" "fcard {|''g''|} < 2" by (simp_all add: sorted_list_of_fset.rep_eq fcard.rep_eq)
  then show ?thesis
    using paging_complete [OF open_limiter_ok _ reach_sample, of 1 "Inr 0" 2 0] unfolding d by (simp add: MaxEntries_def)
qed

end
