(* ===== verification/NodeState.thy ===== *)
theory NodeState
  imports Governor TrustedTime Counter
begin

text \<open>
  Package \<open>internal/node/state\<close>: the journal of a node (\<open>store.go\<close>, \<open>time.go\<close>,
  \<open>applied_base.go\<close>, \<open>deployments.go\<close>, \<open>material.go\<close>, \<open>agent_journal.go\<close>,
  \<open>runtime_journal.go\<close>). The database is one record: the buckets as finite maps, the entries of
  the bucket \<open>meta\<close> as typed fields, of which the eight-byte ones are the map \<open>n_numbers\<close>. A
  stored protobuf message or JSON value is the value itself; encodings, their sizes and SHA-256
  are the argument \<open>w\<close>. \<open>update_tx\<close> is a transaction of \<open>bbolt\<close>: it installs all of its
  writes or none, and \<open>n_faults\<close> lists the failures of coming commits.
\<close>

section \<open>State\<close>

record Identity =
  id_Node :: string
  id_Installation :: string
  id_ControlPlane :: string

record Deployment =
  dp_NodeId :: string
  dp_ControlPlaneId :: string
  dp_Generation :: u64
  dp_Revision :: u64
  dp_Sha256 :: bytes
  dp_Payload :: bytes

record UsageCheckpoint =
  uc_ClientId :: string
  uc_TermId :: string
  uc_MeterId :: string
  uc_Incarnation :: string
  uc_Uploaded :: u64
  uc_Downloaded :: u64
  uc_Observed :: int
  uc_GrantId :: string

record UsageBatch =
  ub_NodeId :: string
  ub_InstallationId :: string
  ub_Sequence :: u64
  ub_Checkpoints :: "UsageCheckpoint option list"

record NodeDB =
  n_meta :: bool
  n_others :: bool
  n_format :: "u64 option"
  n_identity :: "Identity option"
  n_journal :: "string option"
  n_numbers :: "(string, u64) fmap"
  n_digest :: "bytes option"
  n_clock :: clock_data
  n_cursor :: string
  n_pending :: "AuthorityReport option"
  n_ready :: bool
  n_agent :: "string option"
  n_runtime_journal :: "(string, string) fmap"
  n_runtime_pair :: "(string, RuntimeJournal) fmap"
  n_material :: "(string, bytes) fmap"
  n_deploy :: "(u64, Deployment) fmap"
  n_usage :: "(u64, UsageBatch) fmap"
  n_usage_seq :: u64
  n_meters :: "(string, UsageCheckpoint) fmap"
  n_mutable :: "(string, u64) fmap"
  n_counters :: "(string, CounterCheckpoint) fmap"
  n_counter_digest :: "(string, bytes) fmap"
  n_seen :: "(string, AuthGrant) fmap"
  n_intents :: "(string, AuthorityUpdateBatch) fmap"
  n_intent_clients :: "(string, string) fmap"
  n_faults :: "error option list"

record NodeStore =
  st_identity :: Identity
  st_journalID :: string
  st_db :: NodeDB

record Cursors =
  cur_Desired :: u64
  cur_Applied :: u64
  cur_Authority :: u64
  cur_DurableUsage :: u64
  cur_AccountedUsage :: u64

text \<open>
  What the package uses of \<open>encoding/json\<close>, protobuf and \<open>crypto/sha256\<close>: the key of a meter, sizes
  of encodings, digests.
\<close>

record wire_lib =
  json_strings :: "string list \<Rightarrow> string"
  size_checkpoint :: "UsageCheckpoint \<Rightarrow> nat"
  size_batch :: "UsageBatch \<Rightarrow> nat"
  size_report :: "AuthorityReport \<Rightarrow> nat"
  size_intent :: "AuthorityUpdateBatch \<Rightarrow> nat"
  size_clock :: "clock_data \<Rightarrow> nat"
  size_counter :: "CounterCheckpoint \<Rightarrow> nat"
  sha256 :: "bytes \<Rightarrow> bytes"
  sha256_batch :: "UsageBatch \<Rightarrow> bytes"

definition MaxDeploymentBytes :: nat where [go_defs]: "MaxDeploymentBytes = 33554432"
definition MaxBatchBytes :: nat where [go_defs]: "MaxBatchBytes = 1048576"
definition MaxSpoolBytes :: u64 where [go_defs]: "MaxSpoolBytes = 67108864"
definition StateFormat :: u64 where [go_defs]: "StateFormat = 3"

definition update_tx :: "(NodeDB \<Rightarrow> ('a \<times> NodeDB) result) \<Rightarrow> NodeDB \<Rightarrow> 'a result \<times> NodeDB" where
  "update_tx f d = (case f d of
      Inl err \<Rightarrow> (Inl err, d)
    | Inr (x, d') \<Rightarrow> (case n_faults d of
          [] \<Rightarrow> (Inr x, d')
        | None # fs \<Rightarrow> (Inr x, d'\<lparr>n_faults := fs\<rparr>)
        | Some err # fs \<Rightarrow> (Inl err, d\<lparr>n_faults := fs\<rparr>)))"

definition on_store :: "(NodeDB \<Rightarrow> ('a \<times> NodeDB) result) \<Rightarrow> NodeStore \<Rightarrow> 'a result \<times> NodeStore" where
  "on_store f s = (case update_tx f (st_db s) of (r, d) \<Rightarrow> (r, s\<lparr>st_db := d\<rparr>))"

definition number :: "string \<Rightarrow> NodeDB \<Rightarrow> u64" where
  "number k d = (case fmlookup (n_numbers d) k of None \<Rightarrow> 0 | Some n \<Rightarrow> n)"

definition putNumber :: "string \<Rightarrow> u64 \<Rightarrow> NodeDB \<Rightarrow> NodeDB" where
  "putNumber k n d = d\<lparr>n_numbers := fmupd k n (n_numbers d)\<rparr>"

section \<open>Opening\<close>

definition format_check :: "NodeDB \<Rightarrow> error option" where
  "format_check d =
     (if \<not> n_meta d then (if n_others d then Some ErrStateFormat else None)
      else if n_format d \<noteq> Some StateFormat then Some ErrStateFormat else None)"

definition journal_check :: "'u uuid_lib \<Rightarrow> string \<Rightarrow> NodeDB \<Rightarrow> string result" where
  "journal_check u fresh d = (case n_journal d of
      Some j \<Rightarrow> if ValidID u j then Inr j else Inl ErrIdentity
    | None \<Rightarrow> Inr fresh)"

definition open_tx :: "'u uuid_lib \<Rightarrow> string \<Rightarrow> Identity \<Rightarrow> NodeDB \<Rightarrow> (string \<times> NodeDB) result" where
  "open_tx u fresh identity d = (case format_check d of Some err \<Rightarrow> Inl err | None \<Rightarrow>
     let d1 = d\<lparr>n_meta := True, n_others := True, n_format := Some StateFormat\<rparr>
     in if n_identity d1 \<noteq> None \<and> n_identity d1 \<noteq> Some identity then Inl ErrIdentity
        else case journal_check u fresh d1 of Inl err \<Rightarrow> Inl err | Inr j \<Rightarrow>
          let d2 = d1\<lparr>n_journal := Some j\<rparr>;
              d3 = (if fmlookup (n_numbers d2) ''exposed_usage'' = None then putNumber ''exposed_usage'' (n_usage_seq d2) d2 else d2)
          in if number ''exposed_usage'' d3 > n_usage_seq d3 then Inl ErrUsage
             else Inr (j, d3\<lparr>n_identity := Some identity\<rparr>))"

definition Open_node :: "'u uuid_lib \<Rightarrow> string \<Rightarrow> Identity \<Rightarrow> NodeDB \<Rightarrow> NodeStore result" where
  "Open_node u fresh identity d =
     (if \<not> ValidID u (id_Node identity) \<or> \<not> ValidID u (id_Installation identity) \<or> \<not> ValidID u (id_ControlPlane identity)
      then Inl ErrIdentity
      else case update_tx (open_tx u fresh identity) d of
          (Inl err, _) \<Rightarrow> Inl err
        | (Inr j, d') \<Rightarrow> Inr \<lparr>st_identity = identity, st_journalID = j, st_db = d'\<rparr>)"

definition Cursors_of :: "NodeStore \<Rightarrow> Cursors" where
  "Cursors_of s = (let d = st_db s in \<lparr>cur_Desired = number ''desired'' d, cur_Applied = number ''applied'' d,
     cur_Authority = number ''authority'' d, cur_DurableUsage = number ''durable_usage'' d,
     cur_AccountedUsage = number ''accounted_usage'' d\<rparr>)"

section \<open>Deployments\<close>

record SessionAuthority =
  sa_NodeId :: string
  sa_ControlPlaneId :: string
  sa_Generation :: u64

definition Fence :: "SessionAuthority option \<Rightarrow> NodeStore \<Rightarrow> unit result \<times> NodeStore" where
  "Fence authority s = (case authority of None \<Rightarrow> (Inl ErrIdentity, s) | Some a \<Rightarrow>
     if sa_NodeId a \<noteq> id_Node (st_identity s) \<or> sa_ControlPlaneId a \<noteq> id_ControlPlane (st_identity s) \<or> sa_Generation a = 0
     then (Inl ErrIdentity, s)
     else on_store (\<lambda>d. if sa_Generation a < number ''authority'' d then Inl ErrRevision
                        else Inr ((), putNumber ''authority'' (sa_Generation a) d)) s)"

definition receive_tx :: "Deployment \<Rightarrow> NodeDB \<Rightarrow> (unit \<times> NodeDB) result" where
  "receive_tx x d =
     (if dp_Generation x < number ''authority'' d \<or> dp_Revision x < number ''desired'' d then Inl ErrRevision
      else if (case fmlookup (n_deploy d) (dp_Revision x) of None \<Rightarrow> False
               | Some old \<Rightarrow> dp_Sha256 old \<noteq> dp_Sha256 x \<or> dp_Generation old > dp_Generation x) then Inl ErrRevision
      else let d1 = d\<lparr>n_deploy := fmupd (dp_Revision x) x (n_deploy d)\<rparr>;
               applied = number ''applied'' d1;
               d2 = d1\<lparr>n_deploy := fmfilter (\<lambda>k. k = dp_Revision x \<or> k = applied) (n_deploy d1)\<rparr>
           in Inr ((), putNumber ''authority'' (dp_Generation x) (putNumber ''desired'' (dp_Revision x) d2)))"

definition Receive :: "wire_lib \<Rightarrow> Deployment option \<Rightarrow> NodeStore \<Rightarrow> unit result \<times> NodeStore" where
  "Receive w deployment s = (case deployment of None \<Rightarrow> (Inl ErrIdentity, s) | Some x \<Rightarrow>
     if dp_NodeId x \<noteq> id_Node (st_identity s) \<or> dp_ControlPlaneId x \<noteq> id_ControlPlane (st_identity s) then (Inl ErrIdentity, s)
     else if dp_Revision x = 0 \<or> dp_Generation x = 0 \<or> dp_Payload x = [] \<or> length (dp_Payload x) > MaxDeploymentBytes
       then (Inl ErrRevision, s)
     else if sha256 w (dp_Payload x) \<noteq> dp_Sha256 x then (Inl ErrDigest, s)
     else on_store (receive_tx x) s)"

definition Desired :: "NodeStore \<Rightarrow> Deployment option result" where
  "Desired s = (let d = st_db s; revision = number ''desired'' d
     in if revision = 0 then Inr None
        else case fmlookup (n_deploy d) revision of None \<Rightarrow> Inl ErrRevision | Some x \<Rightarrow> Inr (Some x))"

definition applied_tx :: "u64 \<Rightarrow> u64 \<Rightarrow> bytes \<Rightarrow> NodeDB \<Rightarrow> (unit \<times> NodeDB) result" where
  "applied_tx generation revision digest d =
     (if generation \<noteq> number ''authority'' d \<or> revision \<noteq> number ''desired'' d \<or> revision < number ''applied'' d
      then Inl ErrRevision
      else case fmlookup (n_deploy d) revision of None \<Rightarrow> Inl ErrRevision | Some x \<Rightarrow>
        if dp_Generation x \<noteq> generation \<or> dp_Sha256 x \<noteq> digest then Inl ErrRevision
        else let d1 = (putNumber ''applied'' revision d)\<lparr>n_digest := Some digest\<rparr>
             in Inr ((), d1\<lparr>n_deploy := fmfilter (\<lambda>k. \<not> k < revision) (n_deploy d1)\<rparr>))"

definition Applied :: "u64 \<Rightarrow> u64 \<Rightarrow> bytes \<Rightarrow> NodeStore \<Rightarrow> unit result \<times> NodeStore" where
  "Applied generation revision digest s = on_store (applied_tx generation revision digest) s"

definition AppliedBase :: "NodeStore \<Rightarrow> (u64 \<times> bytes) result" where
  "AppliedBase s = (let d = st_db s; revision = number ''applied'' d
     in case n_digest d of
          None \<Rightarrow> Inl ErrRevision
        | Some digest \<Rightarrow>
            if revision = 0 \<or> revision \<noteq> number ''desired'' d \<or> length digest \<noteq> 32 then Inl ErrRevision
            else Inr (revision, digest))"

definition RetainedDeployments :: "NodeStore \<Rightarrow> Deployment list result" where
  "RetainedDeployments s = (let xs = map snd (entries_by_key (n_deploy (st_db s)))
     in if length xs > 2 then Inl ErrRevision else Inr xs)"

section \<open>The trusted clock, material and journals\<close>

definition ReadClock_store :: "NodeStore \<Rightarrow> clock_data result" where
  "ReadClock_store s = Inr (n_clock (st_db s))"

definition WriteClock_store :: "wire_lib \<Rightarrow> clock_data \<Rightarrow> NodeStore \<Rightarrow> error option \<times> NodeStore" where
  "WriteClock_store w data s =
     (if data = NoData \<or> size_clock w data > 1024 then (Some ErrIdentity, s)
      else case on_store (\<lambda>d. Inr ((), d\<lparr>n_clock := data\<rparr>)) s of
          (Inl err, s') \<Rightarrow> (Some err, s')
        | (Inr _, s') \<Rightarrow> (None, s'))"

definition materialName :: "string \<Rightarrow> bool" where
  "materialName s = (case s of [] \<Rightarrow> False | c # cs \<Rightarrow> lower c \<and> length cs \<le> 95 \<and> list_all name_char cs)"

definition MaterialDigest :: "string \<Rightarrow> NodeStore \<Rightarrow> bytes option result" where
  "MaterialDigest name s =
     (if \<not> materialName name then Inl ErrIdentity
      else case fmlookup (n_material (st_db s)) name of
          None \<Rightarrow> Inr None
        | Some digest \<Rightarrow> if length digest \<noteq> 32 then Inl ErrIdentity else Inr (Some digest))"

definition BindMaterial :: "string \<Rightarrow> bytes \<Rightarrow> NodeStore \<Rightarrow> unit result \<times> NodeStore" where
  "BindMaterial name digest s =
     (if \<not> materialName name \<or> length digest \<noteq> 32 then (Inl ErrIdentity, s)
      else on_store (\<lambda>d. if fmlookup (n_material d) name \<noteq> None \<and> fmlookup (n_material d) name \<noteq> Some digest then Inl ErrIdentity
                         else Inr ((), d\<lparr>n_material := fmupd name digest (n_material d)\<rparr>)) s)"

text \<open>The bytes under a key, none where there is nothing.\<close>

definition text_of :: "string option \<Rightarrow> string" where
  "text_of x = (case x of None \<Rightarrow> [] | Some t \<Rightarrow> t)"

definition CheckAgentJournal :: "'u uuid_lib \<Rightarrow> string \<Rightarrow> NodeStore \<Rightarrow> error option" where
  "CheckAgentJournal u j s =
     (if \<not> ValidID u j \<or> j = st_journalID s then Some ErrIdentity
      else if n_agent (st_db s) \<noteq> None \<and> n_agent (st_db s) \<noteq> Some j then Some ErrIdentity else None)"

definition RequireAgentJournal :: "'u uuid_lib \<Rightarrow> string \<Rightarrow> NodeStore \<Rightarrow> error option" where
  "RequireAgentJournal u j s =
     (if \<not> ValidID u j \<or> j = st_journalID s then Some ErrIdentity
      else if text_of (n_agent (st_db s)) \<noteq> j then Some ErrIdentity else None)"

definition BindAgentJournal :: "'u uuid_lib \<Rightarrow> string \<Rightarrow> NodeStore \<Rightarrow> unit result \<times> NodeStore" where
  "BindAgentJournal u j s =
     (if \<not> ValidID u j \<or> j = st_journalID s then (Inl ErrIdentity, s)
      else on_store (\<lambda>d. if number ''desired'' d = 0 then Inl ErrRevision
                         else if n_agent d \<noteq> None \<and> n_agent d \<noteq> Some j then Inl ErrIdentity
                         else Inr ((), d\<lparr>n_agent := Some j\<rparr>)) s)"

definition BindRuntimeJournal :: "'u uuid_lib \<Rightarrow> string \<Rightarrow> string \<Rightarrow> NodeStore \<Rightarrow> unit result \<times> NodeStore" where
  "BindRuntimeJournal u runtime j s =
     (if \<not> runtimeName runtime \<or> \<not> ValidID u j then (Inl ErrIdentity, s)
      else on_store (\<lambda>d. if fmlookup (n_runtime_journal d) runtime \<noteq> None \<and> fmlookup (n_runtime_journal d) runtime \<noteq> Some j
                         then Inl ErrIdentity
                         else Inr ((), d\<lparr>n_runtime_journal := fmupd runtime j (n_runtime_journal d)\<rparr>)) s)"

fun journals_check :: "'u uuid_lib \<Rightarrow> RuntimeJournal option list \<Rightarrow> string fset \<Rightarrow> bool" where
  "journals_check u [] seen = True"
| "journals_check u (r # rs) seen = (case r of None \<Rightarrow> False | Some j \<Rightarrow>
     \<not> (\<not> runtimeName (RuntimeId j) \<or> RuntimeId j |\<in>| seen \<or> \<not> runtimeName (CoreId j) \<or> \<not> ValidID u (StateJournalId j)
        \<or> \<not> ValidID u (CreditJournalId j)) \<and> journals_check u rs (finsert (RuntimeId j) seen))"

fun bind_pairs :: "RuntimeJournal list \<Rightarrow> NodeDB \<Rightarrow> (unit \<times> NodeDB) result" where
  "bind_pairs [] d = Inr ((), d)"
| "bind_pairs (j # js) d =
     (if fmlookup (n_runtime_pair d) (RuntimeId j) \<noteq> None \<and> fmlookup (n_runtime_pair d) (RuntimeId j) \<noteq> Some j then Inl ErrIdentity
      else bind_pairs js (d\<lparr>n_runtime_pair := fmupd (RuntimeId j) j (n_runtime_pair d)\<rparr>))"

definition BindRuntimeJournals :: "'u uuid_lib \<Rightarrow> RuntimeJournal option list \<Rightarrow> NodeStore \<Rightarrow> unit result \<times> NodeStore" where
  "BindRuntimeJournals u rs s =
     (if rs = [] \<or> length rs > 32 then (Inl ErrIdentity, s)
      else if \<not> journals_check u rs {||} then (Inl ErrIdentity, s)
      else let js = map the rs
           in if list_all (\<lambda>j. fmlookup (n_runtime_pair (st_db s)) (RuntimeId j) = Some j) js then (Inr (), s)
              else on_store (bind_pairs js) s)"

section \<open>Transactions: lemmas\<close>

lemma update_tx_cases:
  assumes "update_tx f d = (r, d')"
  shows "(\<exists>e fs. r = Inl e \<and> d' = d\<lparr>n_faults := fs\<rparr>) \<or> (\<exists>x d1 fs. r = Inr x \<and> f d = Inr (x, d1) \<and> d' = d1\<lparr>n_faults := fs\<rparr>)"
proof (cases "f d")
  case (Inl e)
  then show ?thesis using assms by (intro disjI1 exI [of _ e] exI [of _ "n_faults d"]) (simp add: update_tx_def)
next
  case (Inr xd)
  obtain x d1 where x: "xd = (x, d1)" by fastforce
  show ?thesis
  proof (cases "n_faults d")
    case Nil
    then show ?thesis
      using assms Inr x by (intro disjI2 exI [of _ x] exI [of _ d1] exI [of _ "n_faults d1"]) (simp add: update_tx_def)
  next
    case (Cons y fs)
    then show ?thesis using assms Inr x by (cases y) (auto simp: update_tx_def)
  qed
qed

lemma on_store_cases:
  assumes "on_store f s = (r, s')"
  shows "st_identity s' = st_identity s \<and> st_journalID s' = st_journalID s \<and>
    ((\<exists>e fs. r = Inl e \<and> st_db s' = (st_db s)\<lparr>n_faults := fs\<rparr>)
     \<or> (\<exists>x d1 fs. r = Inr x \<and> f (st_db s) = Inr (x, d1) \<and> st_db s' = d1\<lparr>n_faults := fs\<rparr>))"
proof -
  obtain q d where q: "update_tx f (st_db s) = (q, d)" by fastforce
  then have "r = q" "s' = s\<lparr>st_db := d\<rparr>" using assms by (simp_all add: on_store_def)
  then show ?thesis using update_tx_cases [OF q] by simp
qed

lemma number_put [simp]: "number k (putNumber j n d) = (if k = j then n else number k d)"
  by (simp add: number_def putNumber_def)

lemma put_fields [simp]: "n_deploy (putNumber k n d) = n_deploy d" "n_clock (putNumber k n d) = n_clock d"
  "n_usage (putNumber k n d) = n_usage d" "n_usage_seq (putNumber k n d) = n_usage_seq d" "n_meters (putNumber k n d) = n_meters d"
  "n_mutable (putNumber k n d) = n_mutable d" "n_digest (putNumber k n d) = n_digest d" "n_pending (putNumber k n d) = n_pending d"
  "n_seen (putNumber k n d) = n_seen d" "n_counters (putNumber k n d) = n_counters d" "n_counter_digest (putNumber k n d) = n_counter_digest d"
  "n_faults (putNumber k n d) = n_faults d" "n_identity (putNumber k n d) = n_identity d"
  by (simp_all add: putNumber_def)

lemma number_fields [simp]: "number k (d\<lparr>n_faults := fs\<rparr>) = number k d" "number k (d\<lparr>n_deploy := m\<rparr>) = number k d"
  "number k (d\<lparr>n_digest := g\<rparr>) = number k d" "number k (d\<lparr>n_usage := q\<rparr>) = number k d" "number k (d\<lparr>n_usage_seq := sq\<rparr>) = number k d"
  "number k (d\<lparr>n_meters := ms\<rparr>) = number k d" "number k (d\<lparr>n_mutable := mu\<rparr>) = number k d" "number k (d\<lparr>n_pending := p\<rparr>) = number k d"
  "number k (d\<lparr>n_seen := se\<rparr>) = number k d" "number k (d\<lparr>n_ready := re\<rparr>) = number k d" "number k (d\<lparr>n_cursor := cu\<rparr>) = number k d"
  "number k (d\<lparr>n_counters := co\<rparr>) = number k d" "number k (d\<lparr>n_counter_digest := cd\<rparr>) = number k d"
  "number k (d\<lparr>n_identity := i\<rparr>) = number k d" "number k (d\<lparr>n_journal := j\<rparr>) = number k d"
  "number k (d\<lparr>n_meta := me, n_others := ot, n_format := fo\<rparr>) = number k d"
  by (simp_all add: number_def)

section \<open>The clock over the journal\<close>

interpretation node_clock: clock_storage ReadClock_store "WriteClock_store w" for w
proof
  fix d s s' e
  show "ReadClock_store s' = Inr d" if "WriteClock_store w d s = (None, s')"
  proof -
    obtain r s1 where r: "on_store (\<lambda>x. Inr ((), x\<lparr>n_clock := d\<rparr>)) s = (r, s1)" by fastforce
    with that have "s1 = s'" "\<exists>x. r = Inr x" by (auto simp: WriteClock_store_def split: if_splits sum.splits)
    then show ?thesis using on_store_cases [OF r] by (auto simp: ReadClock_store_def)
  qed
  show "ReadClock_store s' = ReadClock_store s" if "WriteClock_store w d s = (Some e, s')"
  proof -
    obtain r s1 where r: "on_store (\<lambda>x. Inr ((), x\<lparr>n_clock := d\<rparr>)) s = (r, s1)" by fastforce
    with that have "s' = s \<or> s1 = s' \<and> (\<exists>x. r = Inl x)" by (auto simp: WriteClock_store_def split: if_splits sum.splits)
    then show ?thesis using on_store_cases [OF r] by (auto simp: ReadClock_store_def)
  qed
qed

text \<open>C28 Trusted time over the node's journal is sound: from a journal that never held a clock, through any
  requests, replies of the master, failing writes and restarts, the time the node enforces limits
  with is never before the master's true time, and the time it puts in requests is never after it.\<close>
theorem trusted_time_brackets:
  assumes "New_clock u ReadClock_store s0 = Inr c0" and "n_clock (st_db s0) = NoData"
    and "(clock_step u ReadClock_store (WriteClock_store w) base)\<^sup>*\<^sup>* (c0, s0) (c, s)"
    and "\<And>b n. n \<le> maxInt64 \<Longrightarrow> (base b + n) div Millisecond \<le> maxInt64" and "Nano at \<le> maxInt64"
  shows "(\<forall>v. Now (Inr at) c = Inr v \<longrightarrow> true_milli base at \<le> v) \<and> (\<forall>v. RequestTime (Inr at) c = Inr v \<longrightarrow> v \<le> true_milli base at)"
proof -
  have c0: "clk_saved c0 = None" "clk_request c0 = None" "Nano (clk_started c0) = 0"
    using New_clock_cases [OF assms(1)] assms(2) by (auto simp: ReadClock_store_def)
  have d: "node_clock.durable c0 s0" using c0 assms(2) by (simp add: node_clock.durable_def ReadClock_store_def)
  have "clock_sound base c0" using c0 by (simp add: clock_sound_def)
  with node_clock.run_sound [OF assms(3) _ _ assms(4)] d have "clock_sound base c" by simp
  then show ?thesis using Now_bound RequestTime_bound assms(5) by blast
qed

text \<open>Examples: an empty journal, encodings of one byte and a digest that is the data.\<close>

definition empty_node :: NodeDB where
  "empty_node = \<lparr>n_meta = False, n_others = False, n_format = None, n_identity = None, n_journal = None, n_numbers = fmempty, n_digest = None,
     n_clock = NoData, n_cursor = '''', n_pending = None, n_ready = False, n_agent = None, n_runtime_journal = fmempty, n_runtime_pair = fmempty,
     n_material = fmempty, n_deploy = fmempty, n_usage = fmempty, n_usage_seq = 0, n_meters = fmempty, n_mutable = fmempty, n_counters = fmempty,
     n_counter_digest = fmempty, n_seen = fmempty, n_intents = fmempty, n_intent_clients = fmempty, n_faults = []\<rparr>"

definition sample_identity :: Identity where
  "sample_identity = \<lparr>id_Node = ''n'', id_Installation = ''i'', id_ControlPlane = ''p''\<rparr>"

definition sample_wire :: wire_lib where
  "sample_wire = \<lparr>json_strings = \<lambda>xs. concat (map (\<lambda>x. x @ '','') xs), size_checkpoint = \<lambda>_. 10,
     size_batch = \<lambda>b. 4 + 12 * length (ub_Checkpoints b), size_report = \<lambda>_. 1, size_intent = \<lambda>_. 1, size_clock = \<lambda>_. 1, size_counter = \<lambda>_. 1,
     sha256 = \<lambda>x. x, sha256_batch = \<lambda>_. []\<rparr>"

definition sample_node :: NodeStore where
  "sample_node = \<lparr>st_identity = sample_identity, st_journalID = ''j'', st_db = empty_node\<lparr>n_meta := True, n_others := True,
     n_format := Some 3, n_journal := Some ''j'', n_numbers := fmupd ''exposed_usage'' 0 fmempty, n_identity := Some sample_identity\<rparr>\<rparr>"

lemma Open_node_empty: "Open_node plain_uuid ''j'' sample_identity empty_node = Inr sample_node"
  by (simp add: Open_node_def sample_identity_def update_tx_def open_tx_def format_check_def journal_check_def empty_node_def
      putNumber_def number_def StateFormat_def sample_node_def)

theorem trusted_time_brackets_witness:
  "\<exists>c0 c s. New_clock plain_uuid ReadClock_store sample_node = Inr c0
    \<and> (clock_step plain_uuid ReadClock_store (WriteClock_store sample_wire) (\<lambda>_. 0))\<^sup>*\<^sup>* (c0, sample_node) (c, s)
    \<and> Now (Inr \<lparr>Boot = ''b'', Nano = 5000000\<rparr>) c = Inr 6 \<and> true_milli (\<lambda>_. 0) \<lparr>Boot = ''b'', Nano = 5000000\<rparr> \<le> 6"
proof -
  let ?c0 = "\<lparr>clk_saved = None, clk_request = None, clk_nonce = '''', clk_started = \<lparr>Boot = '''', Nano = 0\<rparr>\<rparr>"
  let ?c1 = "?c0\<lparr>clk_nonce := ''n'', clk_started := \<lparr>Boot = ''b'', Nano = 0\<rparr>\<rparr>"
  let ?at = "\<lparr>Boot = ''b'', Nano = 2000000\<rparr>" and ?fin = "\<lparr>Boot = ''b'', Nano = 5000000\<rparr>"
  let ?a = "\<lparr>a_Version = 1, a_Boot = ''b'', a_Nano = 2000000, a_UnixMilli = 3\<rparr>"
  let ?c2 = "?c1\<lparr>clk_nonce := '''', clk_saved := Some ?a, clk_request := Some (?a\<lparr>a_UnixMilli := 1\<rparr>)\<rparr>"
  let ?s = "sample_node\<lparr>st_db := (st_db sample_node)\<lparr>n_clock := Encoded ?a\<rparr>\<rparr>"
  let ?step = "clock_step plain_uuid ReadClock_store (WriteClock_store sample_wire) (\<lambda>_. 0)"
  have new: "New_clock plain_uuid ReadClock_store sample_node = Inr ?c0"
    by (simp add: New_clock_def ReadClock_store_def sample_node_def empty_node_def)
  have 1: "?step (?c0, sample_node) (?c1, sample_node)"
    by (rule begins [of "Inr \<lparr>Boot = ''b'', Nano = 0\<rparr>" _ "''n''"]) (simp_all add: instant_ok_def maxInt64_def Begin_def validBoot_def plain_uuid_def)
  have w: "WriteClock_store sample_wire (Encoded ?a) sample_node = (None, ?s)"
    by (simp add: WriteClock_store_def sample_wire_def on_store_def update_tx_def sample_node_def empty_node_def)
  have 2: "?step (?c1, sample_node) (?c2, ?s)"
  proof (rule accepts [of "Inr ?at" "''n''"])
    show "Accept (WriteClock_store sample_wire) ''n'' 1 (Inr ?at) ?c1 sample_node = (None, ?c2, ?s)"
      by (simp add: Accept_def Let_def stamp_floor_def now_def Millisecond_def MaxRoundTrip_def maxInt64_def w)
    fix at assume "Inr ?at = Inr at"
    then show "\<exists>m\<ge>Nano (clk_started ?c1). m \<le> Nano at \<and> (1 :: int) = (0 + m) div Millisecond"
      by (intro exI [of _ 1000000]) (auto simp: Millisecond_def)
  qed (simp_all add: instant_ok_def maxInt64_def)
  have run: "?step\<^sup>*\<^sup>* (?c0, sample_node) (?c2, ?s)" using 1 2 by (meson r_into_rtranclp rtranclp_trans)
  have now: "Now (Inr ?fin) ?c2 = Inr 6" by (simp add: Now_def now_def Let_def Millisecond_def maxInt64_def)
  have le: "(0 + n) div Millisecond \<le> maxInt64" if "n \<le> maxInt64" for n
    using that div_le_dividend by (auto simp: Millisecond_def maxInt64_def)
  have "n_clock (st_db sample_node) = NoData" "Nano ?fin \<le> maxInt64" by (simp_all add: sample_node_def empty_node_def maxInt64_def)
  from trusted_time_brackets [OF new this(1) run le this(2)] now have "true_milli (\<lambda>_. 0) ?fin \<le> 6" by blast
  then show ?thesis using new run now by blast
qed

declare fmfilter_cong [cong del]

section \<open>Deployments: what every run keeps\<close>

text \<open>
  A step of the journal as far as deployments go: the three operations that write them, a
  restart, and anything that leaves what they read alone.
\<close>

definition same_deployments :: "NodeStore \<Rightarrow> NodeStore \<Rightarrow> bool" where
  "same_deployments s s' \<longleftrightarrow> st_identity s' = st_identity s \<and> n_deploy (st_db s') = n_deploy (st_db s) \<and> n_digest (st_db s') = n_digest (st_db s)
     \<and> (\<forall>k \<in> {''desired'', ''applied'', ''authority''}. number k (st_db s') = number k (st_db s))"

inductive deploy_step :: "'u uuid_lib \<Rightarrow> wire_lib \<Rightarrow> NodeStore \<Rightarrow> NodeStore \<Rightarrow> bool" for u w where
  fences: "Fence a s = (r, s') \<Longrightarrow> deploy_step u w s s'"
| receives: "Receive w x s = (r, s') \<Longrightarrow> deploy_step u w s s'"
| applies: "Applied g v dg s = (r, s') \<Longrightarrow> deploy_step u w s s'"
| reopens: "Open_node u fresh (st_identity s) (st_db s) = Inr s' \<Longrightarrow> deploy_step u w s s'"
| others: "same_deployments s s' \<Longrightarrow> deploy_step u w s s'"

definition deploy_ok :: "wire_lib \<Rightarrow> NodeStore \<Rightarrow> bool" where
  "deploy_ok w s \<longleftrightarrow> (let d = st_db s; v = number ''desired'' d in
     number ''applied'' d \<le> v \<and> fset (fmdom (n_deploy d)) \<subseteq> {v, number ''applied'' d}
     \<and> (v \<noteq> 0 \<longrightarrow> (\<exists>x. fmlookup (n_deploy d) v = Some x \<and> dp_Revision x = v \<and> dp_NodeId x = id_Node (st_identity s)
          \<and> sha256 w (dp_Payload x) = dp_Sha256 x \<and> dp_Generation x \<le> number ''authority'' d
          \<and> (number ''applied'' d = v \<longrightarrow> n_digest d = Some (dp_Sha256 x)))))"

lemma on_store_same:
  assumes "on_store f s = (r, s')" and "\<exists>e. r = Inl e"
  shows "same_deployments s s'"
  using on_store_cases [OF assms(1)] assms(2) by (auto simp: same_deployments_def)

lemma same_deployments_refl: "same_deployments s s"
  by (simp add: same_deployments_def)

lemma deploy_ok_same: "same_deployments s s' \<Longrightarrow> deploy_ok w s = deploy_ok w s'"
  by (simp add: same_deployments_def deploy_ok_def Let_def)

text \<open>How far a run of these operations is.\<close>

definition cursors_le :: "NodeStore \<Rightarrow> NodeStore \<Rightarrow> bool" where
  "cursors_le s s' \<longleftrightarrow> (\<forall>k \<in> {''desired'', ''applied'', ''authority''}. number k (st_db s) \<le> number k (st_db s'))"

lemma same_cursors: "same_deployments s s' \<Longrightarrow> cursors_le s s'"
  by (simp add: same_deployments_def cursors_le_def)

lemma Fence_step:
  assumes "Fence a s = (r, s')" and "deploy_ok w s"
  shows "deploy_ok w s' \<and> cursors_le s s'"
proof (cases r)
  case (Inl e)
  have "s' = s \<or> (\<exists>f :: NodeDB \<Rightarrow> (unit \<times> NodeDB) result. on_store f s = (r, s'))"
    using assms(1) by (auto simp: Fence_def split: option.splits if_splits)
  then have "same_deployments s s'" using on_store_same Inl same_deployments_refl by blast
  then show ?thesis using assms(2) deploy_ok_same same_cursors by blast
next
  case (Inr x)
  then obtain b where a: "a = Some b" using assms(1) by (cases a) (auto simp: Fence_def)
  have b: "on_store (\<lambda>d. if sa_Generation b < number ''authority'' d then Inl ErrRevision
      else Inr ((), putNumber ''authority'' (sa_Generation b) d)) s = (r, s')"
    using assms(1) Inr a by (auto simp: Fence_def split: if_splits)
  from on_store_cases [OF b] Inr assms(2) show ?thesis
    by (auto simp: deploy_ok_def cursors_le_def Let_def split: if_splits intro: order_trans)
qed

lemma receive_tx_ok:
  assumes "receive_tx x d = Inr (y, d')"
  shows "number ''authority'' d \<le> dp_Generation x" "number ''desired'' d \<le> dp_Revision x"
    "fmlookup (n_deploy d) (dp_Revision x) = Some old \<Longrightarrow> dp_Sha256 old = dp_Sha256 x"
    "d' = putNumber ''authority'' (dp_Generation x) (putNumber ''desired'' (dp_Revision x) (d\<lparr>n_deploy :=
       fmfilter (\<lambda>k. k = dp_Revision x \<or> k = number ''applied'' d) (fmupd (dp_Revision x) x (n_deploy d))\<rparr>))"
  using assms by (auto simp: receive_tx_def Let_def not_less split: if_splits option.splits)

lemma Receive_step:
  assumes "Receive w x s = (r, s')" and ok: "deploy_ok w s"
  shows "deploy_ok w s' \<and> cursors_le s s'"
proof (cases r)
  case (Inl e)
  have "s' = s \<or> (\<exists>f :: NodeDB \<Rightarrow> (unit \<times> NodeDB) result. on_store f s = (r, s'))"
    using assms(1) by (auto simp: Receive_def split: option.splits if_splits)
  then have "same_deployments s s'" using on_store_same Inl same_deployments_refl by blast
  then show ?thesis using ok deploy_ok_same same_cursors by blast
next
  case (Inr z)
  then obtain y where y: "on_store (receive_tx y) s = (r, s')" "dp_NodeId y = id_Node (st_identity s)" "dp_Revision y \<noteq> 0"
    "sha256 w (dp_Payload y) = dp_Sha256 y"
    using assms(1) by (auto simp: Receive_def split: option.splits if_splits)
  let ?d = "st_db s"
  obtain d1 fs where t: "receive_tx y ?d = Inr (z, d1)" "st_db s' = d1\<lparr>n_faults := fs\<rparr>" "st_identity s' = st_identity s"
    using on_store_cases [OF y(1)] Inr by auto
  note rt = receive_tx_ok [OF t(1)]
  have "number ''applied'' ?d \<le> number ''desired'' ?d" using ok by (simp add: deploy_ok_def Let_def)
  then have le: "number ''applied'' ?d \<le> dp_Revision y" using rt(2) by (rule order_trans)
  have dg: "n_digest ?d = Some (dp_Sha256 y)" if eq: "number ''applied'' ?d = dp_Revision y"
  proof -
    have v: "number ''desired'' ?d = dp_Revision y" using eq le rt(2) ok by (simp add: deploy_ok_def Let_def)
    then obtain old where "fmlookup (n_deploy ?d) (dp_Revision y) = Some old" "n_digest ?d = Some (dp_Sha256 old)"
      using ok y(3) eq by (auto simp: deploy_ok_def Let_def)
    then show ?thesis using rt(3) by simp
  qed
  show ?thesis
    using t(2,3) rt(1,2) le y dg
    by (auto simp: rt(4) deploy_ok_def cursors_le_def Let_def fmlookup_dom_iff split: if_splits)
qed

lemma Applied_step:
  assumes "Applied g v dg s = (r, s')" and ok: "deploy_ok w s"
  shows "deploy_ok w s' \<and> cursors_le s s'"
proof (cases r)
  case (Inl e)
  then show ?thesis
    using on_store_same [OF assms(1) [unfolded Applied_def]] ok deploy_ok_same same_cursors by blast
next
  case (Inr z)
  let ?d = "st_db s"
  obtain d1 fs where t: "applied_tx g v dg ?d = Inr (z, d1)" "st_db s' = d1\<lparr>n_faults := fs\<rparr>" "st_identity s' = st_identity s"
    using on_store_cases [OF assms(1) [unfolded Applied_def]] Inr by auto
  obtain x where x: "v = number ''desired'' ?d" "number ''applied'' ?d \<le> v" "fmlookup (n_deploy ?d) v = Some x" "dp_Sha256 x = dg"
    "n_deploy d1 = fmfilter (\<lambda>k. \<not> k < v) (n_deploy ?d)" "n_digest d1 = Some dg"
    "\<And>k. number k d1 = (if k = ''applied'' then v else number k ?d)"
    using t(1) by (auto simp: applied_tx_def Let_def not_less split: if_splits option.splits)
  have dom: "k = v" if "k |\<in>| fmdom (n_deploy ?d)" "\<not> k < v" for k
    using ok that x(1,2) by (auto simp: deploy_ok_def Let_def not_less)
  show ?thesis
    using ok t(2,3) x dom by (auto simp: deploy_ok_def cursors_le_def Let_def fmlookup_dom_iff)
qed

lemma Open_node_same:
  assumes "Open_node u fresh (st_identity s) (st_db s) = Inr s'"
  shows "same_deployments s s'"
proof -
  obtain j d where q: "update_tx (open_tx u fresh (st_identity s)) (st_db s) = (Inr j, d)" "s' = \<lparr>st_identity = st_identity s, st_journalID = j, st_db = d\<rparr>"
    using assms by (auto simp: Open_node_def split: if_splits prod.splits sum.splits)
  then obtain d1 fs where "open_tx u fresh (st_identity s) (st_db s) = Inr (j, d1)" "d = d1\<lparr>n_faults := fs\<rparr>"
    using update_tx_cases [OF q(1)] by auto
  then show ?thesis
    using q(2) by (auto simp: open_tx_def Let_def same_deployments_def split: if_splits option.splits sum.splits)
qed

lemma deploy_step_ok:
  assumes "deploy_step u w s s'" and "deploy_ok w s"
  shows "deploy_ok w s' \<and> cursors_le s s'"
  using assms(1)
proof cases
  case (reopens fresh)
  then show ?thesis using Open_node_same assms(2) deploy_ok_same same_cursors by blast
next
  case others
  then show ?thesis using assms(2) deploy_ok_same same_cursors by blast
qed (use assms(2) Fence_step Receive_step Applied_step in blast)+

lemma cursors_trans: "cursors_le a b \<Longrightarrow> cursors_le b c \<Longrightarrow> cursors_le a c"
  unfolding cursors_le_def by (auto intro: order_trans)

lemma deploy_run_ok:
  assumes "(deploy_step u w)\<^sup>*\<^sup>* s s'" and "deploy_ok w s"
  shows "deploy_ok w s' \<and> cursors_le s s'"
  using assms(1)
proof (induction rule: rtranclp_induct)
  case base
  show ?case using assms(2) by (simp add: cursors_le_def)
next
  case (step y z)
  have y: "deploy_ok w y" "cursors_le s y" using step.IH by simp_all
  note z = deploy_step_ok [OF step.hyps(2) y(1)]
  show ?case using z cursors_trans [OF y(2)] by simp
qed

lemma retained_small:
  assumes "fset (fmdom m) \<subseteq> {a, b}"
  shows "length (entries_by_key m) \<le> 2"
proof -
  have "length (entries_by_key m) = card (fset (fmdom m))"
    by (simp add: entries_by_key_def sorted_list_of_fset.rep_eq)
  also have "\<dots> \<le> card {a, b}" using assms by (intro card_mono) auto
  also have "\<dots> \<le> 2" by (simp add: card_insert_if)
  finally show ?thesis .
qed

lemma fresh_deploy_ok: "n_deploy (st_db s) = fmempty \<Longrightarrow> (\<And>k. k \<in> {''desired'', ''applied'', ''authority''} \<Longrightarrow> number k (st_db s) = 0) \<Longrightarrow>
    deploy_ok w s"
  by (simp add: deploy_ok_def)

text \<open>C26 Through any run of fences, received and applied deployments, restarts and failing commits, the
  journal hands out exactly the deployment of its desired revision, for this node and with a payload
  that matches its digest; the applied revision is never ahead; at most two deployments are kept,
  so listing them never fails; and an applied base names the digest of the deployment it applied.\<close>
theorem deployments_consistent:
  assumes "n_deploy (st_db s0) = fmempty" and "\<And>k. k \<in> {''desired'', ''applied'', ''authority''} \<Longrightarrow> number k (st_db s0) = 0"
    and "(deploy_step u w)\<^sup>*\<^sup>* s0 s"
  shows "(cur_Desired (Cursors_of s) = 0 \<and> Desired s = Inr None
      \<or> (\<exists>x. Desired s = Inr (Some x) \<and> dp_Revision x = cur_Desired (Cursors_of s) \<and> dp_NodeId x = id_Node (st_identity s)
           \<and> sha256 w (dp_Payload x) = dp_Sha256 x
           \<and> (\<forall>v g. AppliedBase s = Inr (v, g) \<longrightarrow> v = dp_Revision x \<and> g = dp_Sha256 x)))
    \<and> cur_Applied (Cursors_of s) \<le> cur_Desired (Cursors_of s) \<and> (\<exists>xs. RetainedDeployments s = Inr xs)"
proof -
  have ok: "deploy_ok w s" using deploy_run_ok [OF assms(3) fresh_deploy_ok [OF assms(1,2)]] by simp
  have "fset (fmdom (n_deploy (st_db s))) \<subseteq> {number ''desired'' (st_db s), number ''applied'' (st_db s)}"
    using ok by (simp add: deploy_ok_def Let_def)
  then have "length (entries_by_key (n_deploy (st_db s))) \<le> 2" by (rule retained_small)
  then have "\<exists>xs. RetainedDeployments s = Inr xs" by (auto simp: RetainedDeployments_def Let_def)
  moreover have "cur_Applied (Cursors_of s) \<le> cur_Desired (Cursors_of s)" using ok by (simp add: deploy_ok_def Cursors_of_def Let_def)
  moreover have "cur_Desired (Cursors_of s) = 0 \<and> Desired s = Inr None
      \<or> (\<exists>x. Desired s = Inr (Some x) \<and> dp_Revision x = cur_Desired (Cursors_of s) \<and> dp_NodeId x = id_Node (st_identity s)
           \<and> sha256 w (dp_Payload x) = dp_Sha256 x
           \<and> (\<forall>v g. AppliedBase s = Inr (v, g) \<longrightarrow> v = dp_Revision x \<and> g = dp_Sha256 x))"
  proof (cases "number ''desired'' (st_db s) = 0")
    case True
    then show ?thesis by (simp add: Cursors_of_def Desired_def Let_def)
  next
    case False
    then obtain x where x: "fmlookup (n_deploy (st_db s)) (number ''desired'' (st_db s)) = Some x"
      "dp_Revision x = number ''desired'' (st_db s)" "dp_NodeId x = id_Node (st_identity s)" "sha256 w (dp_Payload x) = dp_Sha256 x"
      "number ''applied'' (st_db s) = number ''desired'' (st_db s) \<longrightarrow> n_digest (st_db s) = Some (dp_Sha256 x)"
      using ok by (auto simp: deploy_ok_def Let_def)
    have "\<forall>v g. AppliedBase s = Inr (v, g) \<longrightarrow> v = dp_Revision x \<and> g = dp_Sha256 x"
      using x by (auto simp: AppliedBase_def Let_def split: option.splits if_splits)
    then show ?thesis using x False by (auto simp: Cursors_of_def Desired_def Let_def)
  qed
  ultimately show ?thesis by blast
qed

definition sample_deployment :: Deployment where
  "sample_deployment = \<lparr>dp_NodeId = ''n'', dp_ControlPlaneId = ''p'', dp_Generation = 4, dp_Revision = 2, dp_Sha256 = [7], dp_Payload = [7]\<rparr>"

definition deployed_node :: NodeStore where
  "deployed_node = snd (Receive sample_wire (Some sample_deployment) sample_node)"

lemma sample_received: "Receive sample_wire (Some sample_deployment) sample_node = (Inr (), deployed_node)"
  by (simp add: deployed_node_def Receive_def sample_deployment_def sample_wire_def sample_node_def sample_identity_def MaxDeploymentBytes_def
      on_store_def update_tx_def receive_tx_def empty_node_def number_def putNumber_def Let_def)

lemma sample_node_fresh: "n_deploy (st_db sample_node) = fmempty" "k \<in> {''desired'', ''applied'', ''authority''} \<Longrightarrow> number k (st_db sample_node) = 0"
  by (auto simp: sample_node_def empty_node_def number_def)

lemma sample_run: "(deploy_step plain_uuid sample_wire)\<^sup>*\<^sup>* sample_node deployed_node"
  by (rule r_into_rtranclp, rule receives, rule sample_received)

theorem deployments_consistent_witness:
  "cur_Applied (Cursors_of deployed_node) \<le> cur_Desired (Cursors_of deployed_node) \<and> (\<exists>xs. RetainedDeployments deployed_node = Inr xs)"
  using deployments_consistent [OF sample_node_fresh sample_run] by blast

text \<open>C27 The cursors of the journal only move forward, and a fenced master stays fenced: after any run from a
  state that knows authority generation \<open>g\<close> and revision \<open>v\<close>, a session or deployment of an older generation, a
  deployment of an older revision, and an apply report of another generation are refused and change nothing
  of the deployments.\<close>
theorem stale_master_refused:
  assumes "deploy_ok w s" and "(deploy_step u w)\<^sup>*\<^sup>* s s'"
  shows "cursors_le s s'
    \<and> (sa_Generation a < number ''authority'' (st_db s) \<longrightarrow> (\<exists>e t. Fence (Some a) s' = (Inl e, t) \<and> same_deployments s' t))
    \<and> (dp_Generation x < number ''authority'' (st_db s) \<or> dp_Revision x < number ''desired'' (st_db s) \<longrightarrow>
        (\<exists>e t. Receive w (Some x) s' = (Inl e, t) \<and> same_deployments s' t))
    \<and> (g < number ''authority'' (st_db s) \<or> v < number ''desired'' (st_db s) \<longrightarrow>
        (\<exists>e t. Applied g v dg s' = (Inl e, t) \<and> same_deployments s' t))"
proof -
  have le: "cursors_le s s'" using deploy_run_ok [OF assms(2,1)] by simp
  then have c: "number ''authority'' (st_db s) \<le> number ''authority'' (st_db s')" "number ''desired'' (st_db s) \<le> number ''desired'' (st_db s')"
    by (simp_all add: cursors_le_def)
  have refuse: "\<exists>t. on_store f s' = (Inl e, t) \<and> same_deployments s' t"
    if "f (st_db s') = Inl e" for f :: "NodeDB \<Rightarrow> (unit \<times> NodeDB) result" and e
    using that by (simp add: on_store_def update_tx_def same_deployments_def)
  have "\<exists>e t. Fence (Some a) s' = (Inl e, t) \<and> same_deployments s' t" if "sa_Generation a < number ''authority'' (st_db s)"
  proof -
    let ?f = "\<lambda>d. if sa_Generation a < number ''authority'' d then Inl ErrRevision else Inr ((), putNumber ''authority'' (sa_Generation a) d)"
    have "?f (st_db s') = Inl ErrRevision" using that c(1) by auto
    then show ?thesis using refuse [of ?f] same_deployments_refl by (auto simp: Fence_def)
  qed
  moreover have "\<exists>e t. Receive w (Some x) s' = (Inl e, t) \<and> same_deployments s' t"
    if "dp_Generation x < number ''authority'' (st_db s) \<or> dp_Revision x < number ''desired'' (st_db s)"
  proof -
    have "receive_tx x (st_db s') = Inl ErrRevision" using that c by (auto simp: receive_tx_def)
    then show ?thesis using refuse [of "receive_tx x"] same_deployments_refl by (auto simp: Receive_def)
  qed
  moreover have "\<exists>e t. Applied g v dg s' = (Inl e, t) \<and> same_deployments s' t"
    if "g < number ''authority'' (st_db s) \<or> v < number ''desired'' (st_db s)"
  proof -
    have "applied_tx g v dg (st_db s') = Inl ErrRevision" using that c by (auto simp: applied_tx_def)
    then show ?thesis using refuse [of "applied_tx g v dg"] by (auto simp: Applied_def)
  qed
  ultimately show ?thesis using le by blast
qed

theorem stale_master_refused_witness:
  "\<exists>e t. Receive sample_wire (Some (sample_deployment\<lparr>dp_Generation := 3\<rparr>)) deployed_node = (Inl e, t)"
proof -
  have "deploy_ok sample_wire deployed_node"
    using Receive_step [OF sample_received fresh_deploy_ok [OF sample_node_fresh]] by simp
  moreover have "number ''authority'' (st_db deployed_node) = 4"
    by (simp add: deployed_node_def Receive_def sample_deployment_def sample_wire_def sample_node_def sample_identity_def MaxDeploymentBytes_def
      on_store_def update_tx_def receive_tx_def empty_node_def number_def putNumber_def Let_def)
  ultimately show ?thesis
    using stale_master_refused [of sample_wire deployed_node plain_uuid deployed_node "\<lparr>sa_NodeId = ''n'', sa_ControlPlaneId = ''p'', sa_Generation = 1\<rparr>" "sample_deployment\<lparr>dp_Generation := 3\<rparr>" 0 0 "[]"]
    by auto
qed

end
