(* ===== verification/UsageQueue.thy ===== *)
theory UsageQueue
  imports NodeState
begin

text \<open>
  The usage half of \<open>internal/node/state\<close>: the checkpoints of meters and the spool of batches
  that wait for the control plane (\<open>store.go\<close> from \<open>meterKey\<close>, \<open>usage_queue.go\<close>), and the
  counters whose deltas are committed into it (\<open>counters.go\<close>).
\<close>

section \<open>Meters\<close>

definition meterKey :: "'u uuid_lib \<Rightarrow> wire_lib \<Rightarrow> UsageCheckpoint option \<Rightarrow> string result" where
  "meterKey u w cp = (case cp of None \<Rightarrow> Inl ErrUsage | Some c \<Rightarrow>
     if \<not> ValidID u (uc_GrantId c) \<or> \<not> ValidID u (uc_ClientId c) \<or> \<not> ValidID u (uc_TermId c) \<or> \<not> ValidID u (uc_Incarnation c)
        \<or> uc_MeterId c = '''' \<or> length (uc_MeterId c) > 128 \<or> uc_Observed c \<le> 0 \<or> size_checkpoint w c > 4096
     then Inl ErrUsage
     else Inr (json_strings w [uc_GrantId c, uc_ClientId c, uc_TermId c, uc_MeterId c, uc_Incarnation c]))"

text \<open>The loop of \<open>appendUsage\<close> over the checkpoints, over \<open>seen\<close> and the bucket of meters.\<close>

fun append_loop :: "'u uuid_lib \<Rightarrow> wire_lib \<Rightarrow> UsageCheckpoint option list \<Rightarrow> string fset \<Rightarrow>
    (string, UsageCheckpoint) fmap \<Rightarrow> (string, UsageCheckpoint) fmap result" where
  "append_loop u w [] seen meters = Inr meters"
| "append_loop u w (c # cs) seen meters = (case meterKey u w c of Inl err \<Rightarrow> Inl err | Inr k \<Rightarrow>
     if k |\<in>| seen then Inl ErrUsage
     else if (case fmlookup meters k of None \<Rightarrow> False
              | Some old \<Rightarrow> uc_Uploaded (the c) < uc_Uploaded old \<or> uc_Downloaded (the c) < uc_Downloaded old) then Inl ErrUsage
     else append_loop u w cs (finsert k seen) (fmupd k (the c) meters))"

section \<open>The queue\<close>

record usageEdit =
  e_batch :: UsageBatch
  e_indices :: "(string, nat) fmap"
  e_size :: int
  e_previous :: nat

text \<open>The size of a varint of \<open>n\<close> and of a field of the given length, tag of one byte included.\<close>

fun size_varint :: "nat \<Rightarrow> nat" where
  "size_varint n = (if n < 128 then 1 else 1 + size_varint (n div 128))"

definition checkpointSize :: "wire_lib \<Rightarrow> UsageCheckpoint \<Rightarrow> int" where
  "checkpointSize w c = (let n = size_checkpoint w c in int (1 + size_varint n + n))"

text \<open>The loop of \<open>load\<close> that indexes the checkpoints of a batch.\<close>

fun index_loop :: "'u uuid_lib \<Rightarrow> wire_lib \<Rightarrow> UsageCheckpoint option list \<Rightarrow> nat \<Rightarrow> (string, nat) fmap \<Rightarrow> (string, nat) fmap result" where
  "index_loop u w [] i m = Inr m"
| "index_loop u w (c # cs) i m = (case meterKey u w c of Inl err \<Rightarrow> Inl err | Inr k \<Rightarrow>
     if fmlookup m k \<noteq> None then Inl ErrUsage else index_loop u w cs (i + 1) (fmupd k i m))"

type_synonym edits = "(u64, usageEdit) fmap"

definition load_edit :: "'u uuid_lib \<Rightarrow> wire_lib \<Rightarrow> UsageBatch \<Rightarrow> u64 \<Rightarrow> edits \<Rightarrow> NodeDB \<Rightarrow> (usageEdit \<times> edits) result" where
  "load_edit u w incoming q es d = (case fmlookup es q of Some e \<Rightarrow> Inr (e, es) | None \<Rightarrow>
     case fmlookup (n_usage d) q of None \<Rightarrow> Inl ErrUsage | Some b \<Rightarrow>
       if ub_Sequence b \<noteq> q \<or> ub_NodeId b \<noteq> ub_NodeId incoming \<or> ub_InstallationId b \<noteq> ub_InstallationId incoming
       then Inl ErrIdentity
       else case index_loop u w (ub_Checkpoints b) 0 fmempty of Inl err \<Rightarrow> Inl err | Inr m \<Rightarrow>
         let e = \<lparr>e_batch = b, e_indices = m, e_size = int (size_batch w b), e_previous = size_batch w b\<rparr>
         in Inr (e, fmupd q e es))"

definition newBatch :: "wire_lib \<Rightarrow> UsageBatch \<Rightarrow> edits \<Rightarrow> NodeDB \<Rightarrow> (usageEdit \<times> edits \<times> NodeDB) result" where
  "newBatch w incoming es d = (let q = n_usage_seq d + 1
     in if q = 0 then Inl ErrUsage
        else let b = \<lparr>ub_NodeId = ub_NodeId incoming, ub_InstallationId = ub_InstallationId incoming, ub_Sequence = q, ub_Checkpoints = []\<rparr>;
                 e = \<lparr>e_batch = b, e_indices = fmempty, e_size = int (size_batch w b), e_previous = 0\<rparr>
             in Inr (e, fmupd q e es, d\<lparr>n_usage_seq := q\<rparr>))"

text \<open>The two arms of the loop of \<open>queueUsage\<close>: a checkpoint replaces the one that is still waiting, or joins the tail.\<close>

definition replace_checkpoint :: "'u uuid_lib \<Rightarrow> wire_lib \<Rightarrow> UsageBatch \<Rightarrow> string \<Rightarrow> u64 \<Rightarrow> UsageCheckpoint \<Rightarrow> edits \<Rightarrow> NodeDB \<Rightarrow>
    (edits \<times> NodeDB) result" where
  "replace_checkpoint u w incoming meter previous c es d = (case load_edit u w incoming previous es d of Inl err \<Rightarrow> Inl err | Inr (e, es') \<Rightarrow>
     case fmlookup (e_indices e) meter of None \<Rightarrow> Inl ErrUsage | Some pos \<Rightarrow>
       let sz = e_size e + (checkpointSize w c - checkpointSize w (the (ub_Checkpoints (e_batch e) ! pos)))
       in if sz > int MaxBatchBytes then Inl ErrUsage
          else Inr (fmupd previous (e\<lparr>e_size := sz, e_batch := (e_batch e)\<lparr>ub_Checkpoints := (ub_Checkpoints (e_batch e))[pos := Some c]\<rparr>\<rparr>) es', d))"

definition tail_edit :: "'u uuid_lib \<Rightarrow> wire_lib \<Rightarrow> UsageBatch \<Rightarrow> u64 \<Rightarrow> UsageCheckpoint \<Rightarrow> edits \<Rightarrow> NodeDB \<Rightarrow>
    (usageEdit \<times> edits \<times> NodeDB) result" where
  "tail_edit u w incoming exposed c es d =
     (if n_usage_seq d > exposed then
        (case load_edit u w incoming (n_usage_seq d) es d of Inl err \<Rightarrow> Inl err | Inr (e, es') \<Rightarrow>
           if length (ub_Checkpoints (e_batch e)) \<ge> 4096 \<or> e_size e + checkpointSize w c > int (MaxBatchBytes div 2)
           then newBatch w incoming es' d else Inr (e, es', d))
      else newBatch w incoming es d)"

definition append_checkpoint :: "'u uuid_lib \<Rightarrow> wire_lib \<Rightarrow> UsageBatch \<Rightarrow> string \<Rightarrow> u64 \<Rightarrow> UsageCheckpoint \<Rightarrow> edits \<Rightarrow> NodeDB \<Rightarrow>
    (edits \<times> NodeDB) result" where
  "append_checkpoint u w incoming meter exposed c es d = (case tail_edit u w incoming exposed c es d of Inl err \<Rightarrow> Inl err | Inr (e, es', d') \<Rightarrow>
     let q = ub_Sequence (e_batch e);
         e' = e\<lparr>e_indices := fmupd meter (length (ub_Checkpoints (e_batch e))) (e_indices e), e_size := e_size e + checkpointSize w c,
                e_batch := (e_batch e)\<lparr>ub_Checkpoints := ub_Checkpoints (e_batch e) @ [Some c]\<rparr>\<rparr>
     in Inr (fmupd q e' es', d'\<lparr>n_mutable := fmupd meter q (n_mutable d')\<rparr>))"

fun queue_loop :: "'u uuid_lib \<Rightarrow> wire_lib \<Rightarrow> UsageBatch \<Rightarrow> u64 \<Rightarrow> UsageCheckpoint option list \<Rightarrow> edits \<Rightarrow> NodeDB \<Rightarrow> (edits \<times> NodeDB) result" where
  "queue_loop u w incoming exposed [] es d = Inr (es, d)"
| "queue_loop u w incoming exposed (c # cs) es d = (case meterKey u w c of Inl err \<Rightarrow> Inl err | Inr meter \<Rightarrow>
     let previous = (case fmlookup (n_mutable d) meter of None \<Rightarrow> 0 | Some q \<Rightarrow> q)
     in case (if previous > exposed then replace_checkpoint u w incoming meter previous (the c) es d
              else append_checkpoint u w incoming meter exposed (the c) es d) of
          Inl err \<Rightarrow> Inl err
        | Inr (es', d') \<Rightarrow> queue_loop u w incoming exposed cs es' d')"

text \<open>
  The rest of \<open>queueUsage\<close>. The loops over \<open>edits\<close> only add up sizes and write distinct keys,
  so their order does not matter; sums of sizes are kept in \<open>uint64\<close>.
\<close>

definition sum_u64 :: "nat list \<Rightarrow> u64" where
  "sum_u64 ns = foldr (\<lambda>n acc. word_of_nat n + acc) ns 0"

definition spool_edits :: "wire_lib \<Rightarrow> edits \<Rightarrow> NodeDB \<Rightarrow> (u64 \<times> NodeDB) result" where
  "spool_edits w es d =
     (let spooled = number ''spooled_bytes'' d; all = map snd (entries_by_key es);
          replaced = sum_u64 (map e_previous all); added = sum_u64 (map (\<lambda>e. size_batch w (e_batch e)) all)
      in if spooled > MaxSpoolBytes then Inl ErrSpoolFull
         else if list_ex (\<lambda>e. size_batch w (e_batch e) > MaxBatchBytes) all then Inl ErrUsage
         else if replaced > spooled then Inl ErrUsage
         else if added > MaxSpoolBytes - (spooled - replaced) then Inl ErrSpoolFull
         else let d1 = d\<lparr>n_usage := n_usage d ++\<^sub>f fmmap e_batch es\<rparr>
              in Inr (n_usage_seq d1, putNumber ''spooled_bytes'' (spooled - replaced + added) d1))"

definition queueUsage :: "'u uuid_lib \<Rightarrow> wire_lib \<Rightarrow> UsageBatch \<Rightarrow> NodeDB \<Rightarrow> (u64 \<times> NodeDB) result" where
  "queueUsage u w incoming d =
     (case queue_loop u w incoming (number ''exposed_usage'' d) (ub_Checkpoints incoming) fmempty d of
        Inl err \<Rightarrow> Inl err
      | Inr (es, d') \<Rightarrow> spool_edits w es d')"

definition appendUsage :: "'u uuid_lib \<Rightarrow> wire_lib \<Rightarrow> UsageBatch \<Rightarrow> NodeDB \<Rightarrow> (u64 \<times> NodeDB) result" where
  "appendUsage u w batch d =
     (if ub_Checkpoints batch = [] \<or> length (ub_Checkpoints batch) > 4096 \<or> size_batch w batch > MaxBatchBytes - 16 then Inl ErrUsage
      else case append_loop u w (ub_Checkpoints batch) {||} (n_meters d) of
          Inl err \<Rightarrow> Inl err
        | Inr meters \<Rightarrow> queueUsage u w batch (d\<lparr>n_meters := meters\<rparr>))"

definition batch_of :: "NodeStore \<Rightarrow> UsageCheckpoint option list \<Rightarrow> UsageBatch" where
  "batch_of s cs = \<lparr>ub_NodeId = id_Node (st_identity s), ub_InstallationId = id_Installation (st_identity s),
     ub_Sequence = 0, ub_Checkpoints = cs\<rparr>"

definition AppendUsage :: "'u uuid_lib \<Rightarrow> wire_lib \<Rightarrow> UsageCheckpoint option list \<Rightarrow> NodeStore \<Rightarrow> u64 result \<times> NodeStore" where
  "AppendUsage u w checkpoints s = on_store (appendUsage u w (batch_of s checkpoints)) s"

text \<open>The closure \<open>read\<close> of \<open>PendingUsage\<close>: the first batches by sequence.\<close>

definition read_pending :: "NodeStore \<Rightarrow> nat \<Rightarrow> NodeDB \<Rightarrow> UsageBatch list result" where
  "read_pending s limit d = (let es = take limit (entries_by_key (n_usage d))
     in if list_ex (\<lambda>(k, b). ub_Sequence b \<noteq> k \<or> ub_NodeId b \<noteq> id_Node (st_identity s)
            \<or> ub_InstallationId b \<noteq> id_Installation (st_identity s)) es
        then Inl ErrUsage else Inr (map snd es))"

definition freeze_tx :: "NodeStore \<Rightarrow> nat \<Rightarrow> NodeDB \<Rightarrow> (UsageBatch list \<times> NodeDB) result" where
  "freeze_tx s limit d = (case read_pending s limit d of Inl err \<Rightarrow> Inl err | Inr bs \<Rightarrow>
     if bs = [] then Inr (bs, d)
     else Inr (bs, putNumber ''exposed_usage'' (max (number ''exposed_usage'' d) (ub_Sequence (last bs))) d))"

definition PendingUsage :: "int \<Rightarrow> NodeStore \<Rightarrow> UsageBatch list result \<times> NodeStore" where
  "PendingUsage limit s =
     (if limit < 1 \<or> limit > 128 then (Inl ErrUsage, s)
      else case read_pending s (nat limit) (st_db s) of
          Inl err \<Rightarrow> (Inl err, s)
        | Inr bs \<Rightarrow>
            if bs = [] \<or> ub_Sequence (last bs) \<le> number ''exposed_usage'' (st_db s) then (Inr bs, s)
            else on_store (freeze_tx s (nat limit)) s)"

record UsageReceipt =
  DurableSequence :: u64
  AccountedSequence :: u64

definition acknowledge_tx :: "wire_lib \<Rightarrow> UsageReceipt \<Rightarrow> NodeDB \<Rightarrow> (unit \<times> NodeDB) result" where
  "acknowledge_tx w r d =
     (if DurableSequence r > n_usage_seq d then Inl ErrUsage
      else if DurableSequence r > number ''exposed_usage'' d then Inl ErrUsage
      else let durable = max (DurableSequence r) (number ''durable_usage'' d);
               accounted = max (AccountedSequence r) (number ''accounted_usage'' d);
               gone = filter (\<lambda>(k, b). k \<le> durable) (entries_by_key (n_usage d));
               reclaimed = sum_u64 (map (\<lambda>(k, b). size_batch w b) gone);
               d1 = d\<lparr>n_usage := fmfilter (\<lambda>k. \<not> k \<le> durable) (n_usage d)\<rparr>;
               spooled = number ''spooled_bytes'' d
           in if reclaimed > spooled then Inl ErrUsage
              else Inr ((), putNumber ''accounted_usage'' accounted (putNumber ''durable_usage'' durable
                     (putNumber ''spooled_bytes'' (spooled - reclaimed) d1))))"

definition Acknowledge :: "wire_lib \<Rightarrow> UsageReceipt option \<Rightarrow> NodeStore \<Rightarrow> unit result \<times> NodeStore" where
  "Acknowledge w receipt s = (case receipt of None \<Rightarrow> (Inl ErrUsage, s) | Some r \<Rightarrow>
     if AccountedSequence r > DurableSequence r then (Inl ErrUsage, s) else on_store (acknowledge_tx w r) s)"

section \<open>Counters\<close>

record MeterDelta =
  md_Identity :: "UsageCheckpoint option"
  md_Uploaded :: u64
  md_Downloaded :: u64

definition validCounterSource :: "string \<Rightarrow> bool" where
  "validCounterSource source \<longleftrightarrow> source \<noteq> '''' \<and> length source \<le> 128 \<and> CHR 0x00 \<notin> set source"

definition empty_checkpoint :: CounterCheckpoint where
  "empty_checkpoint = \<lparr>cp_Epoch = '''', cp_Primed = False, cp_Last = fmempty, cp_Absent = fmempty\<rparr>"

definition LoadCounter :: "string \<Rightarrow> NodeStore \<Rightarrow> Counter result" where
  "LoadCounter source s =
     (if \<not> validCounterSource source then Inl ErrCounterCheckpoint
      else CounterFromCheckpoint (case fmlookup (n_counters (st_db s)) source of None \<Rightarrow> empty_checkpoint | Some cp \<Rightarrow> cp))"

definition encodeCheckpoint :: "wire_lib \<Rightarrow> CounterCheckpoint \<Rightarrow> CounterCheckpoint result" where
  "encodeCheckpoint w cp = (case CounterFromCheckpoint cp of Inl err \<Rightarrow> Inl err | Inr c \<Rightarrow>
     let encoded = checkpoint c
     in if size_counter w encoded > MaxDeploymentBytes then Inl ErrCounterCheckpoint else Inr encoded)"

fun delta_checkpoints :: "'u uuid_lib \<Rightarrow> wire_lib \<Rightarrow> MeterDelta list \<Rightarrow> UsageCheckpoint option list result" where
  "delta_checkpoints u w [] = Inr []"
| "delta_checkpoints u w (x # xs) = (case meterKey u w (md_Identity x) of Inl err \<Rightarrow> Inl err | Inr _ \<Rightarrow>
     let i = the (md_Identity x)
     in if uc_Uploaded i \<noteq> 0 \<or> uc_Downloaded i \<noteq> 0 then Inl ErrUsage
        else case delta_checkpoints u w xs of Inl err \<Rightarrow> Inl err
          | Inr cs \<Rightarrow> Inr (Some (i\<lparr>uc_Observed := 1, uc_Uploaded := md_Uploaded x, uc_Downloaded := md_Downloaded x\<rparr>) # cs))"

definition sort_meter :: "'u uuid_lib \<Rightarrow> wire_lib \<Rightarrow> UsageCheckpoint option \<Rightarrow> string" where
  "sort_meter u w c = (case meterKey u w c of Inl _ \<Rightarrow> '''' | Inr k \<Rightarrow> k)"

fun adjacent_equal :: "'a list \<Rightarrow> bool" where
  "adjacent_equal (x # y # zs) = (x = y \<or> adjacent_equal (y # zs))"
| "adjacent_equal _ = False"

definition deltaDigest :: "'u uuid_lib \<Rightarrow> wire_lib \<Rightarrow> MeterDelta list \<Rightarrow> bytes result" where
  "deltaDigest u w deltas = (case delta_checkpoints u w deltas of Inl err \<Rightarrow> Inl err | Inr cs \<Rightarrow>
     let sorted = sort_key (sort_meter u w) cs;
         b = \<lparr>ub_NodeId = '''', ub_InstallationId = '''', ub_Sequence = 0, ub_Checkpoints = sorted\<rparr>
     in if adjacent_equal (map (sort_meter u w) sorted) then Inl ErrUsage
        else if size_batch w b > MaxDeploymentBytes then Inl ErrUsage
        else Inr (sha256_batch w b))"

text \<open>The loop of \<open>CommitCounterUsage\<close> that adds the deltas to the saved totals of their meters.\<close>

fun cumulate :: "'u uuid_lib \<Rightarrow> wire_lib \<Rightarrow> (string, UsageCheckpoint) fmap \<Rightarrow> MeterDelta list \<Rightarrow> UsageCheckpoint option list result" where
  "cumulate u w meters [] = Inr []"
| "cumulate u w meters (x # xs) = (case meterKey u w (md_Identity x) of Inl err \<Rightarrow> Inl err | Inr k \<Rightarrow>
     let i = the (md_Identity x)
     in if uc_Uploaded i \<noteq> 0 \<or> uc_Downloaded i \<noteq> 0 then Inl ErrUsage
        else let c = (case fmlookup meters k of None \<Rightarrow> i
                      | Some p \<Rightarrow> i\<lparr>uc_Uploaded := uc_Uploaded p, uc_Downloaded := uc_Downloaded p\<rparr>)
        in if md_Uploaded x > maxUint64 - uc_Uploaded c \<or> md_Downloaded x > maxUint64 - uc_Downloaded c then Inl ErrUsage
           else case cumulate u w meters xs of Inl err \<Rightarrow> Inl err
             | Inr cs \<Rightarrow> Inr (Some (c\<lparr>uc_Uploaded := uc_Uploaded c + md_Uploaded x,
                                      uc_Downloaded := uc_Downloaded c + md_Downloaded x\<rparr>) # cs))"

text \<open>The loop that appends the totals in batches of at most 1024.\<close>

fun append_chunks :: "'u uuid_lib \<Rightarrow> wire_lib \<Rightarrow> NodeStore \<Rightarrow> UsageCheckpoint option list \<Rightarrow> NodeDB \<Rightarrow> NodeDB result" where
  "append_chunks u w s cs d =
     (if cs = [] then Inr d
      else case appendUsage u w (batch_of s (take 1024 cs)) d of
          Inl err \<Rightarrow> Inl err
        | Inr (_, d') \<Rightarrow> append_chunks u w s (drop 1024 cs) d')"

definition commit_tx :: "'u uuid_lib \<Rightarrow> wire_lib \<Rightarrow> NodeStore \<Rightarrow> string \<Rightarrow> CounterCheckpoint \<Rightarrow> CounterCheckpoint \<Rightarrow> bytes \<Rightarrow>
    MeterDelta list \<Rightarrow> NodeDB \<Rightarrow> (unit \<times> NodeDB) result" where
  "commit_tx u w s source prior encoded digest deltas d =
     (let current = (case fmlookup (n_counters d) source of None \<Rightarrow> empty_checkpoint | Some cp \<Rightarrow> cp)
      in if current = encoded then
           (if deltas = [] \<or> fmlookup (n_counter_digest d) source = Some digest then Inr ((), d) else Inl ErrCounterCheckpoint)
         else if current \<noteq> prior then Inl ErrCounterCheckpoint
         else case cumulate u w (n_meters d) deltas of Inl err \<Rightarrow> Inl err | Inr cs \<Rightarrow>
           (case append_chunks u w s cs d of Inl err \<Rightarrow> Inl err | Inr d1 \<Rightarrow>
              Inr ((), d1\<lparr>n_counters := fmupd source encoded (n_counters d1),
                          n_counter_digest := fmupd source digest (n_counter_digest d1)\<rparr>)))"

definition CommitCounterUsage :: "'u uuid_lib \<Rightarrow> wire_lib \<Rightarrow> string \<Rightarrow> CounterCheckpoint \<Rightarrow> CounterCheckpoint \<Rightarrow> MeterDelta list \<Rightarrow>
    NodeStore \<Rightarrow> unit result \<times> NodeStore" where
  "CommitCounterUsage u w source previous next deltas s =
     (if \<not> validCounterSource source \<or> length deltas > 131072 then (Inl ErrCounterCheckpoint, s)
      else case encodeCheckpoint w previous of Inl err \<Rightarrow> (Inl err, s) | Inr prior \<Rightarrow>
        case encodeCheckpoint w next of Inl err \<Rightarrow> (Inl err, s) | Inr encoded \<Rightarrow>
        case deltaDigest u w deltas of Inl err \<Rightarrow> (Inl err, s) | Inr digest \<Rightarrow>
          on_store (commit_tx u w s source prior encoded digest deltas) s)"

section \<open>The content of a batch\<close>

definition keys_ok :: "'u uuid_lib \<Rightarrow> wire_lib \<Rightarrow> UsageCheckpoint option list \<Rightarrow> bool" where
  "keys_ok u w cs \<longleftrightarrow> (\<forall>c \<in> set cs. \<exists>k. meterKey u w c = Inr k) \<and> distinct (map (meterKey u w) cs)"

text \<open>The checkpoint of the meter \<open>k\<close> in a batch.\<close>

definition entry :: "'u uuid_lib \<Rightarrow> wire_lib \<Rightarrow> UsageCheckpoint option list \<Rightarrow> string \<Rightarrow> UsageCheckpoint option" where
  "entry u w cs k = (case find (\<lambda>c. meterKey u w c = Inr k) cs of None \<Rightarrow> None | Some c \<Rightarrow> c)"

lemma meterKey_None [simp]: "meterKey u w None = Inl ErrUsage"
  by (simp add: meterKey_def)

lemma entry_Nil [simp]: "entry u w [] k = None"
  by (simp add: entry_def)

lemma entry_Cons: "entry u w (c # cs) k = (if meterKey u w c = Inr k then c else entry u w cs k)"
  by (simp add: entry_def)

lemma entry_None_iff: "entry u w cs k = None \<longleftrightarrow> (\<forall>c \<in> set cs. meterKey u w c \<noteq> Inr k)"
proof (induction cs)
  case (Cons c cs)
  then show ?case by (cases c) (auto simp: entry_Cons)
qed simp

lemma entry_nth:
  assumes "keys_ok u w cs" and "i < length cs" and "meterKey u w (cs ! i) = Inr k"
  shows "entry u w cs k = cs ! i"
  using assms
proof (induction cs arbitrary: i)
  case (Cons c cs)
  have d: "meterKey u w c \<notin> meterKey u w ` set cs" using Cons.prems(1) by (simp add: keys_ok_def)
  show ?case
  proof (cases i)
    case (Suc j)
    then have "meterKey u w c \<noteq> Inr k" using Cons.prems(2,3) d by (metis imageI length_Cons not_less_eq nth_Cons_Suc nth_mem)
    moreover have "keys_ok u w cs" using Cons.prems(1) by (simp add: keys_ok_def)
    ultimately show ?thesis using Cons.IH Cons.prems Suc by (simp add: entry_Cons)
  qed (use Cons.prems in \<open>simp add: entry_Cons\<close>)
qed simp

lemma entry_append:
  assumes "keys_ok u w cs" and "entry u w cs k = None" and "meterKey u w (Some c) = Inr k"
  shows "keys_ok u w (cs @ [Some c])" "entry u w (cs @ [Some c]) = (entry u w cs)(k := Some c)"
proof -
  show "keys_ok u w (cs @ [Some c])" using assms by (auto simp: keys_ok_def entry_None_iff)
  show "entry u w (cs @ [Some c]) = (entry u w cs)(k := Some c)"
  proof
    fix j
    show "entry u w (cs @ [Some c]) j = ((entry u w cs)(k := Some c)) j"
      using assms(2,3) by (induction cs) (auto simp: entry_Cons)
  qed
qed

lemma entry_update:
  assumes "keys_ok u w cs" and "i < length cs" and "meterKey u w (cs ! i) = Inr k" and "meterKey u w (Some c) = Inr k"
  shows "keys_ok u w (cs[i := Some c])" "entry u w (cs[i := Some c]) = (entry u w cs)(k := Some c)"
proof -
  have m: "map (meterKey u w) (cs[i := Some c]) = map (meterKey u w) cs"
    using assms(2-4) by (simp add: map_update list_update_same_conv)
  have s: "meterKey u w ` set (cs[i := Some c]) = meterKey u w ` set cs" using m by (metis set_map)
  show ok: "keys_ok u w (cs[i := Some c])"
  proof -
    have "\<forall>x \<in> meterKey u w ` set cs. \<exists>j. x = Inr j" using assms(1) by (auto simp: keys_ok_def)
    then show ?thesis using assms(1) unfolding keys_ok_def m s [symmetric] by auto
  qed
  show "entry u w (cs[i := Some c]) = (entry u w cs)(k := Some c)"
  proof
    fix j
    show "entry u w (cs[i := Some c]) j = ((entry u w cs)(k := Some c)) j"
    proof (cases "j = k")
      case True
      then show ?thesis using entry_nth [OF ok, of i k] assms(2,4) by simp
    next
      case False
      show ?thesis
        using False assms(2,3,4)
      proof (induction cs arbitrary: i)
        case (Cons x cs)
        then show ?case by (cases i) (auto simp: entry_Cons)
      qed simp
    qed
  qed
qed

lemma index_loop_spec:
  assumes "index_loop u w cs i m = Inr m'"
  shows "keys_ok u w cs" "\<And>c k. c \<in> set cs \<Longrightarrow> meterKey u w c = Inr k \<Longrightarrow> fmlookup m k = None"
    "fmlookup m' k = Some p \<longleftrightarrow> fmlookup m k = Some p \<or> (\<exists>j < length cs. p = i + j \<and> meterKey u w (cs ! j) = Inr k)"
proof -
  have "keys_ok u w cs \<and> (\<forall>c k. c \<in> set cs \<longrightarrow> meterKey u w c = Inr k \<longrightarrow> fmlookup m k = None)
    \<and> (\<forall>k p. fmlookup m' k = Some p \<longleftrightarrow> fmlookup m k = Some p \<or> (\<exists>j < length cs. p = i + j \<and> meterKey u w (cs ! j) = Inr k))"
    using assms
  proof (induction cs arbitrary: i m)
    case Nil
    then show ?case by (simp add: keys_ok_def)
  next
    case (Cons c cs)
    then obtain k where k: "meterKey u w c = Inr k" "fmlookup m k = None" "index_loop u w cs (i + 1) (fmupd k i m) = Inr m'"
      by (auto split: sum.splits if_splits)
    note ih = Cons.IH [OF k(3)]
    have new: "meterKey u w x \<noteq> Inr k" if "x \<in> set cs" for x
      using ih that by (metis fmupd_lookup option.distinct(1))
    have 1: "keys_ok u w (c # cs)" using ih new k(1) by (auto simp: keys_ok_def)
    have 2: "fmlookup m j = None" if "x \<in> set (c # cs)" "meterKey u w x = Inr j" for x j
    proof (cases "x = c")
      case True
      then show ?thesis using that k by simp
    next
      case False
      then have "fmlookup (fmupd k i m) j = None" using ih that by simp
      then show ?thesis by (simp split: if_splits)
    qed
    have 3: "fmlookup m' j = Some p \<longleftrightarrow> fmlookup m j = Some p \<or> (\<exists>n < length (c # cs). p = i + n \<and> meterKey u w ((c # cs) ! n) = Inr j)" for j p
    proof -
      have ex: "(\<exists>n < length (c # cs). p = i + n \<and> meterKey u w ((c # cs) ! n) = Inr j) \<longleftrightarrow>
          (p = i \<and> j = k) \<or> (\<exists>n < length cs. p = i + 1 + n \<and> meterKey u w (cs ! n) = Inr j)"
        using k(1) by (auto simp: less_Suc_eq_0_disj)
      show ?thesis unfolding ex using ih k(2) by auto
    qed
    show ?case using 1 2 3 by blast
  qed
  then show "keys_ok u w cs" "\<And>c k. c \<in> set cs \<Longrightarrow> meterKey u w c = Inr k \<Longrightarrow> fmlookup m k = None"
    "fmlookup m' k = Some p \<longleftrightarrow> fmlookup m k = Some p \<or> (\<exists>j < length cs. p = i + j \<and> meterKey u w (cs ! j) = Inr k)"
    by blast+
qed

section \<open>The queue as a transaction sees it\<close>

type_synonym queue = "u64 \<Rightarrow> UsageBatch option"

definition queue_view :: "edits \<Rightarrow> NodeDB \<Rightarrow> queue" where
  "queue_view es d q = (case fmlookup es q of Some e \<Rightarrow> Some (e_batch e) | None \<Rightarrow> fmlookup (n_usage d) q)"

definition content :: "'u uuid_lib \<Rightarrow> wire_lib \<Rightarrow> queue \<Rightarrow> u64 \<Rightarrow> string \<Rightarrow> UsageCheckpoint option" where
  "content u w V q = (case V q of None \<Rightarrow> Map.empty | Some b \<Rightarrow> entry u w (ub_Checkpoints b))"

definition batches_ok :: "'u uuid_lib \<Rightarrow> wire_lib \<Rightarrow> Identity \<Rightarrow> u64 \<Rightarrow> queue \<Rightarrow> bool" where
  "batches_ok u w i sq V \<longleftrightarrow> (\<forall>q b. V q = Some b \<longrightarrow> q \<le> sq \<and> ub_Sequence b = q \<and> ub_NodeId b = id_Node i
     \<and> ub_InstallationId b = id_Installation i \<and> keys_ok u w (ub_Checkpoints b))"

text \<open>
  What the index of the newest batch of a meter means. \<open>A\<close> is what the batches that left the
  queue have told of each meter, \<open>M\<close> what all batches should tell.
\<close>

definition index_ok :: "'u uuid_lib \<Rightarrow> wire_lib \<Rightarrow> (string \<Rightarrow> UsageCheckpoint option) \<Rightarrow> (string \<Rightarrow> UsageCheckpoint option) \<Rightarrow> u64 \<Rightarrow>
    queue \<Rightarrow> u64 option \<Rightarrow> string \<Rightarrow> bool" where
  "index_ok u w A M exposed V idx k = (case idx of
      None \<Rightarrow> (\<forall>q. content u w V q k = None) \<and> M k = A k
    | Some q \<Rightarrow> (\<forall>q' > q. content u w V q' k = None) \<and> (exposed < q \<longrightarrow> content u w V q k \<noteq> None)
        \<and> (content u w V q k = None \<longrightarrow> (\<forall>q'. content u w V q' k = None) \<and> M k = A k)
        \<and> (content u w V q k \<noteq> None \<longrightarrow> M k = content u w V q k))"

definition edit_ok :: "'u uuid_lib \<Rightarrow> wire_lib \<Rightarrow> u64 \<Rightarrow> u64 \<Rightarrow> usageEdit \<Rightarrow> bool" where
  "edit_ok u w exposed q e \<longleftrightarrow> exposed < q \<and> ub_Sequence (e_batch e) = q \<and> keys_ok u w (ub_Checkpoints (e_batch e))
     \<and> (\<forall>k p. fmlookup (e_indices e) k = Some p \<longleftrightarrow>
          p < length (ub_Checkpoints (e_batch e)) \<and> meterKey u w (ub_Checkpoints (e_batch e) ! p) = Inr k)"

definition loop_ok :: "'u uuid_lib \<Rightarrow> wire_lib \<Rightarrow> Identity \<Rightarrow> (string \<Rightarrow> UsageCheckpoint option) \<Rightarrow> (string \<Rightarrow> UsageCheckpoint option) \<Rightarrow>
    u64 \<Rightarrow> edits \<Rightarrow> NodeDB \<Rightarrow> bool" where
  "loop_ok u w i A M exposed es d \<longleftrightarrow> exposed \<le> n_usage_seq d \<and> (\<forall>q e. fmlookup es q = Some e \<longrightarrow> edit_ok u w exposed q e)
     \<and> batches_ok u w i (n_usage_seq d) (queue_view es d)
     \<and> (\<forall>k. index_ok u w A M exposed (queue_view es d) (fmlookup (n_mutable d) k) k)"

abbreviation of_node :: "Identity \<Rightarrow> UsageBatch \<Rightarrow> bool" where
  "of_node i b \<equiv> ub_NodeId b = id_Node i \<and> ub_InstallationId b = id_Installation i"

lemma load_edit_ok:
  assumes "load_edit u w inc q es d = Inr (e, es')" and ok: "loop_ok u w i A M exposed es d" and q: "exposed < q"
  shows "loop_ok u w i A M exposed es' d" "fmlookup es' q = Some e" "edit_ok u w exposed q e" "queue_view es' d = queue_view es d"
proof -
  have "loop_ok u w i A M exposed es' d \<and> fmlookup es' q = Some e \<and> edit_ok u w exposed q e \<and> queue_view es' d = queue_view es d"
  proof (cases "fmlookup es q")
    case (Some x)
    then show ?thesis using assms by (auto simp: load_edit_def loop_ok_def)
  next
    case None
    then obtain b m where b: "fmlookup (n_usage d) q = Some b" "ub_Sequence b = q" "index_loop u w (ub_Checkpoints b) 0 fmempty = Inr m"
      "e = \<lparr>e_batch = b, e_indices = m, e_size = int (size_batch w b), e_previous = size_batch w b\<rparr>" "es' = fmupd q e es"
      using assms(1) by (auto simp: load_edit_def Let_def split: option.splits if_splits sum.splits)
    note ix = index_loop_spec [OF b(3)]
    have e: "edit_ok u w exposed q e" using q b ix(1,3) by (simp add: edit_ok_def)
    have v: "queue_view es' d = queue_view es d" using None b by (auto simp: queue_view_def fun_eq_iff)
    have "loop_ok u w i A M exposed es' d" using ok e unfolding loop_ok_def v by (auto simp: b(5))
    then show ?thesis using e v b(5) by simp
  qed
  then show "loop_ok u w i A M exposed es' d" "fmlookup es' q = Some e" "edit_ok u w exposed q e" "queue_view es' d = queue_view es d" by blast+
qed

text \<open>Writing one checkpoint into a batch of the view.\<close>

lemma view_upd:
  "queue_view (fmupd q e es) d = (queue_view es d)(q := Some (e_batch e))"
  by (auto simp: queue_view_def fun_eq_iff)

lemma content_upd:
  "content u w (V(q := Some b)) q' = (if q' = q then entry u w (ub_Checkpoints b) else content u w V q')"
  by (simp add: content_def)

lemma index_ok_other:
  assumes "index_ok u w A M exposed V idx j" and "j \<noteq> k" and "\<And>q. content u w V' q j = content u w V q j"
  shows "index_ok u w A (M(k := x)) exposed V' idx j"
  using assms by (simp add: index_ok_def split: option.splits)

lemma replace_ok:
  assumes rp: "replace_checkpoint u w inc k q c es d = Inr (es', d')" and ok: "loop_ok u w i A M exposed es d"
    and q: "exposed < q" "fmlookup (n_mutable d) k = Some q" and c: "meterKey u w (Some c) = Inr k"
  shows "loop_ok u w i A (M(k := Some c)) exposed es' d'"
proof -
  obtain e es1 where l: "load_edit u w inc q es d = Inr (e, es1)" using rp by (auto simp: replace_checkpoint_def split: sum.splits)
  note lo = load_edit_ok [OF l ok q(1)]
  let ?cs = "ub_Checkpoints (e_batch e)"
  obtain p sz where p: "fmlookup (e_indices e) k = Some p" "d' = d"
    "es' = fmupd q (e\<lparr>e_size := sz, e_batch := (e_batch e)\<lparr>ub_Checkpoints := ?cs[p := Some c]\<rparr>\<rparr>) es1" (is "es' = fmupd q ?e es1")
    using rp l by (auto simp: replace_checkpoint_def Let_def split: option.splits if_splits)
  have pos: "p < length ?cs" "meterKey u w (?cs ! p) = Inr k" and ks: "keys_ok u w ?cs" and sq: "ub_Sequence (e_batch e) = q"
    using lo(3) p(1) by (auto simp: edit_ok_def)
  note eu = entry_update [OF ks pos c]
  let ?V = "queue_view es1 d"
  have Vq: "?V q = Some (e_batch e)" using lo(2) by (simp add: queue_view_def)
  have V': "queue_view es' d = ?V(q := Some (e_batch ?e))" unfolding p(3) by (rule view_upd)
  have cont: "content u w (queue_view es' d) q' = (if q' = q then (content u w ?V q)(k := Some c) else content u w ?V q')" for q'
    unfolding V' content_upd using Vq eu(2) by (simp add: content_def)
  have key: "meterKey u w (?cs[p := Some c] ! j) = meterKey u w (?cs ! j)" for j
    using pos c by (cases "j = p") simp_all
  have eo: "edit_ok u w exposed q ?e"
    using lo(3) eu(1) by (simp add: edit_ok_def key)
  have bo: "batches_ok u w i (n_usage_seq d) (queue_view es' d)"
    using lo(1) Vq sq eu(1) unfolding V' by (auto simp: loop_ok_def batches_ok_def)
  have ix: "index_ok u w A (M(k := Some c)) exposed (queue_view es' d) (fmlookup (n_mutable d) j) j" for j
  proof (cases "j = k")
    case True
    have "index_ok u w A M exposed ?V (Some q) k" using lo(1) q(2) by (metis loop_ok_def)
    then show ?thesis using True q cont by (auto simp: index_ok_def)
  next
    case False
    have "index_ok u w A M exposed ?V (fmlookup (n_mutable d) j) j" using lo(1) by (simp add: loop_ok_def)
    then show ?thesis by (rule index_ok_other) (use False cont in auto)
  qed
  show ?thesis using lo(1) eo bo ix unfolding loop_ok_def by (auto simp: p(2,3))
qed

lemma index_ok_cong:
  assumes "\<And>q. content u w V' q k = content u w V q k"
  shows "index_ok u w A M exposed V' idx k = index_ok u w A M exposed V idx k"
  using assms by (simp add: index_ok_def split: option.splits)

lemma next_sequence: "(q :: u64) + 1 \<noteq> 0 \<Longrightarrow> q < q + 1"
  using unatSuc [of q] by (simp add: word_less_nat_alt add.commute)

lemma newBatch_ok:
  assumes nb: "newBatch w inc es d = Inr (e, es', d')" and ok: "loop_ok u w i A M exposed es d" and i: "of_node i inc"
  shows "loop_ok u w i A M exposed es' d'" "fmlookup es' (n_usage_seq d') = Some e" "edit_ok u w exposed (n_usage_seq d') e"
    "\<And>q. content u w (queue_view es' d') q = content u w (queue_view es d) q" "d' = d\<lparr>n_usage_seq := n_usage_seq d'\<rparr>"
proof -
  let ?q = "n_usage_seq d + 1"
  let ?b = "\<lparr>ub_NodeId = ub_NodeId inc, ub_InstallationId = ub_InstallationId inc, ub_Sequence = ?q, ub_Checkpoints = []\<rparr>"
  have x: "?q \<noteq> 0" "e = \<lparr>e_batch = ?b, e_indices = fmempty, e_size = int (size_batch w ?b), e_previous = 0\<rparr>"
    "es' = fmupd ?q e es" "d' = d\<lparr>n_usage_seq := ?q\<rparr>"
    using nb by (auto simp: newBatch_def Let_def split: if_splits)
  have lt: "n_usage_seq d < ?q" by (rule next_sequence [OF x(1)])
  have ex: "exposed < ?q" using ok lt by (auto simp: loop_ok_def)
  have V: "queue_view es' d' = (queue_view es d)(?q := Some ?b)" by (auto simp: x queue_view_def fun_eq_iff split: option.splits)
  have none: "queue_view es d ?q = None"
  proof (rule ccontr)
    assume "queue_view es d ?q \<noteq> None"
    then have "?q \<le> n_usage_seq d" using ok by (auto simp: loop_ok_def batches_ok_def)
    then show False using lt by simp
  qed
  show cont: "content u w (queue_view es' d') q = content u w (queue_view es d) q" for q
    unfolding V content_upd using none by (auto simp: content_def fun_eq_iff)
  show eo: "edit_ok u w exposed (n_usage_seq d') e" using ex by (simp add: x edit_ok_def keys_ok_def)
  show "fmlookup es' (n_usage_seq d') = Some e" "d' = d\<lparr>n_usage_seq := n_usage_seq d'\<rparr>" by (simp_all add: x)
  have up: "q \<le> n_usage_seq d \<Longrightarrow> q \<le> ?q" for q using lt by (metis less_imp_le order_trans)
  have "batches_ok u w i (n_usage_seq d') (queue_view es' d')"
    using ok i up unfolding V by (auto simp: loop_ok_def batches_ok_def x keys_ok_def)
  moreover have "index_ok u w A M exposed (queue_view es' d') (fmlookup (n_mutable d') k) k" for k
    using ok index_ok_cong [of u w "queue_view es' d'" k "queue_view es d"] cont by (simp add: loop_ok_def x(4))
  ultimately show "loop_ok u w i A M exposed es' d'"
    using ok eo up unfolding loop_ok_def by (auto simp: x(3,4))
qed

lemma tail_edit_ok:
  assumes te: "tail_edit u w inc exposed c es d = Inr (e, es', d')" and ok: "loop_ok u w i A M exposed es d" and i: "of_node i inc"
  shows "loop_ok u w i A M exposed es' d' \<and> fmlookup es' (n_usage_seq d') = Some e \<and> edit_ok u w exposed (n_usage_seq d') e
    \<and> (\<forall>q. content u w (queue_view es' d') q = content u w (queue_view es d) q) \<and> d' = d\<lparr>n_usage_seq := n_usage_seq d'\<rparr>"
proof (cases "n_usage_seq d > exposed")
  case False
  then have nb: "newBatch w inc es d = Inr (e, es', d')" using te by (simp add: tail_edit_def)
  show ?thesis using newBatch_ok [OF nb ok i] by blast
next
  case True
  then obtain e0 es0 where l: "load_edit u w inc (n_usage_seq d) es d = Inr (e0, es0)"
    using te by (auto simp: tail_edit_def split: sum.splits)
  note lo = load_edit_ok [OF l ok True]
  show ?thesis
  proof (cases "length (ub_Checkpoints (e_batch e0)) \<ge> 4096 \<or> e_size e0 + checkpointSize w c > int (MaxBatchBytes div 2)")
    case True
    then have nb: "newBatch w inc es0 d = Inr (e, es', d')" using te l \<open>n_usage_seq d > exposed\<close> by (auto simp: tail_edit_def)
    show ?thesis using newBatch_ok [OF nb lo(1) i] lo(4) by simp
  next
    case False
    then have "e = e0" "es' = es0" "d' = d" using te l \<open>n_usage_seq d > exposed\<close> by (auto simp: tail_edit_def)
    then show ?thesis using lo by simp
  qed
qed

lemma append_ok:
  assumes ap: "append_checkpoint u w inc k exposed c es d = Inr (es', d')" and ok: "loop_ok u w i A M exposed es d" and i: "of_node i inc"
    and k: "case fmlookup (n_mutable d) k of None \<Rightarrow> True | Some q \<Rightarrow> \<not> exposed < q" and c: "meterKey u w (Some c) = Inr k"
  shows "loop_ok u w i A (M(k := Some c)) exposed es' d'"
proof -
  obtain e es1 d1 where te: "tail_edit u w inc exposed c es d = Inr (e, es1, d1)"
    using ap by (auto simp: append_checkpoint_def split: sum.splits)
  note t = tail_edit_ok [OF te ok i]
  let ?q = "n_usage_seq d1" and ?cs = "ub_Checkpoints (e_batch e)"
  have eo: "edit_ok u w exposed ?q e" and lk: "fmlookup es1 ?q = Some e" using t by simp_all
  then have sq: "ub_Sequence (e_batch e) = ?q" "exposed < ?q" and ks: "keys_ok u w ?cs" by (auto simp: edit_ok_def)
  let ?e = "e\<lparr>e_indices := fmupd k (length ?cs) (e_indices e), e_size := e_size e + checkpointSize w c,
                e_batch := (e_batch e)\<lparr>ub_Checkpoints := ?cs @ [Some c]\<rparr>\<rparr>"
  have x: "es' = fmupd ?q ?e es1" "d' = d1\<lparr>n_mutable := fmupd k ?q (n_mutable d1)\<rparr>"
    using ap te sq by (auto simp: append_checkpoint_def Let_def)
  have mu: "n_mutable d1 = n_mutable d"
  proof -
    have "d1 = d\<lparr>n_usage_seq := ?q\<rparr>" using t by blast
    then show ?thesis by (metis NodeDB.select_convs(20) NodeDB.surjective NodeDB.update_convs(18))
  qed
  let ?V = "queue_view es1 d1"
  have Vq: "?V ?q = Some (e_batch e)" using lk by (simp add: queue_view_def)
  have ixk: "index_ok u w A M exposed ?V (fmlookup (n_mutable d) k) k" using t mu by (metis loop_ok_def)
  have none: "entry u w ?cs k = None"
  proof -
    have "content u w ?V ?q k = None"
      using ixk k sq(2) by (auto simp: index_ok_def not_less split: option.splits)
    then show ?thesis using Vq by (simp add: content_def)
  qed
  note ea = entry_append [OF ks none c]
  have V': "queue_view es' d' = ?V(?q := Some (e_batch ?e))" by (auto simp: x queue_view_def fun_eq_iff split: option.splits)
  have cont: "content u w (queue_view es' d') q' = (if q' = ?q then (content u w ?V ?q)(k := Some c) else content u w ?V q')" for q'
    unfolding V' content_upd using Vq ea(2) by (simp add: content_def)
  have no: "meterKey u w (?cs ! p) \<noteq> Inr k" if "p < length ?cs" for p using none that by (auto simp: entry_None_iff)
  have eo': "edit_ok u w exposed ?q ?e"
    using eo ea(1) c no by (auto simp: edit_ok_def nth_append less_Suc_eq)
  have bo: "batches_ok u w i (n_usage_seq d') (queue_view es' d')"
    using t Vq sq ea(1) unfolding V' by (auto simp: loop_ok_def batches_ok_def x(2))
  have top: "content u w ?V q' k = None" if "q' > ?q" for q'
  proof -
    have "?V q' = None" using t that by (auto simp: loop_ok_def batches_ok_def) (metis leD option.exhaust)
    then show ?thesis by (simp add: content_def)
  qed
  have ix: "index_ok u w A (M(k := Some c)) exposed (queue_view es' d') (fmlookup (n_mutable d') j) j" for j
  proof (cases "j = k")
    case True
    then show ?thesis using sq(2) top cont by (auto simp: index_ok_def x(2))
  next
    case False
    have "index_ok u w A M exposed ?V (fmlookup (n_mutable d1) j) j" using t by (metis loop_ok_def)
    then have "index_ok u w A (M(k := Some c)) exposed (queue_view es' d') (fmlookup (n_mutable d1) j) j"
      by (rule index_ok_other) (use False cont in auto)
    then show ?thesis using False by (simp add: x(2))
  qed
  show ?thesis using t eo' bo ix unfolding loop_ok_def by (auto simp: x)
qed

section \<open>Appending\<close>

text \<open>What a reader that keeps the last checkpoint of every meter knows after a batch.\<close>

primrec tell :: "'u uuid_lib \<Rightarrow> wire_lib \<Rightarrow> UsageCheckpoint option list \<Rightarrow> (string \<Rightarrow> UsageCheckpoint option) \<Rightarrow> string \<Rightarrow> UsageCheckpoint option" where
  "tell u w [] M = M"
| "tell u w (c # cs) M = tell u w cs (case meterKey u w c of Inl _ \<Rightarrow> M | Inr k \<Rightarrow> M(k := c))"

text \<open>What the loop over the checkpoints leaves alone.\<close>

definition queue_only :: "NodeDB \<Rightarrow> NodeDB \<Rightarrow> bool" where
  "queue_only d d' \<longleftrightarrow> n_usage d' = n_usage d \<and> n_numbers d' = n_numbers d \<and> n_meters d' = n_meters d \<and> n_counters d' = n_counters d
    \<and> n_counter_digest d' = n_counter_digest d \<and> n_faults d' = n_faults d"

lemma queue_step_only:
  "replace_checkpoint u w inc k q c es d = Inr (es', d') \<Longrightarrow> queue_only d d'"
  "append_checkpoint u w inc k exposed c es d = Inr (es', d') \<Longrightarrow> queue_only d d'"
  by (auto simp: replace_checkpoint_def append_checkpoint_def tail_edit_def newBatch_def queue_only_def Let_def
      split: sum.splits option.splits if_splits)

lemma queue_only_trans: "queue_only a b \<Longrightarrow> queue_only b c \<Longrightarrow> queue_only a c"
  by (simp add: queue_only_def)

lemma queue_loop_ok:
  assumes "queue_loop u w inc exposed cs es d = Inr (es', d')" and "loop_ok u w i A M exposed es d" and i: "of_node i inc"
  shows "loop_ok u w i A (tell u w cs M) exposed es' d' \<and> queue_only d d'"
  using assms(1,2)
proof (induction cs arbitrary: es d M)
  case Nil
  then show ?case by (simp add: queue_only_def)
next
  case (Cons c cs)
  obtain k where k: "meterKey u w c = Inr k" using Cons.prems(1) by (auto split: sum.splits)
  then obtain x where c: "c = Some x" by (cases c) auto
  let ?prev = "case fmlookup (n_mutable d) k of None \<Rightarrow> 0 | Some q \<Rightarrow> q"
  obtain es1 d1 where st: "(if ?prev > exposed then replace_checkpoint u w inc k ?prev (the c) es d
      else append_checkpoint u w inc k exposed (the c) es d) = Inr (es1, d1)"
    and rest: "queue_loop u w inc exposed cs es1 d1 = Inr (es', d')"
    using Cons.prems(1) k by (auto simp: Let_def split: sum.splits)
  have "loop_ok u w i A (M(k := c)) exposed es1 d1 \<and> queue_only d d1"
  proof (cases "?prev > exposed")
    case True
    then obtain q where q: "fmlookup (n_mutable d) k = Some q" "exposed < q" by (cases "fmlookup (n_mutable d) k") auto
    then have r: "replace_checkpoint u w inc k q x es d = Inr (es1, d1)" using st c by simp
    show ?thesis using replace_ok [OF r Cons.prems(2) q(2,1)] k c queue_step_only(1) [OF r] by simp
  next
    case False
    then have r: "append_checkpoint u w inc k exposed x es d = Inr (es1, d1)" using st c by simp
    have "case fmlookup (n_mutable d) k of None \<Rightarrow> True | Some q \<Rightarrow> \<not> exposed < q" using False by (auto split: option.splits)
    from append_ok [OF r Cons.prems(2) i this] k c queue_step_only(2) [OF r] show ?thesis by simp
  qed
  then have s1: "loop_ok u w i A (M(k := c)) exposed es1 d1" "queue_only d d1" by simp_all
  show ?case using Cons.IH [OF rest s1(1)] k queue_only_trans [OF s1(2)] by (simp add: fun_upd_def)
qed

lemma append_loop_spec:
  assumes "append_loop u w cs seen m = Inr m'"
  shows "fmlookup m' = tell u w cs (fmlookup m)"
  using assms
proof (induction cs arbitrary: seen m)
  case (Cons c cs)
  then obtain k where k: "meterKey u w c = Inr k" "append_loop u w cs (finsert k seen) (fmupd k (the c) m) = Inr m'"
    by (auto split: sum.splits if_splits)
  then have "c \<noteq> None" by (cases c) simp_all
  then have "fmlookup (fmupd k (the c) m) = (fmlookup m)(k := c)" by auto
  then show ?case using Cons.IH [OF k(2)] k(1) by (simp add: fun_upd_def)
qed simp

text \<open>The queue of a database, \<open>A\<close> being what the batches that left it have told.\<close>

definition spool_ok :: "'u uuid_lib \<Rightarrow> wire_lib \<Rightarrow> Identity \<Rightarrow> (string \<Rightarrow> UsageCheckpoint option) \<Rightarrow> NodeDB \<Rightarrow> bool" where
  "spool_ok u w i A d \<longleftrightarrow> number ''durable_usage'' d \<le> number ''exposed_usage'' d \<and> number ''exposed_usage'' d \<le> n_usage_seq d
     \<and> fmlookup (n_numbers d) ''exposed_usage'' \<noteq> None
     \<and> batches_ok u w i (n_usage_seq d) (fmlookup (n_usage d))
     \<and> (\<forall>k. index_ok u w A (fmlookup (n_meters d)) (number ''exposed_usage'' d) (fmlookup (n_usage d)) (fmlookup (n_mutable d) k) k)"

lemma view_empty: "queue_view fmempty d = fmlookup (n_usage d)"
  by (simp add: queue_view_def fun_eq_iff)

lemma spool_edits_cases:
  assumes "spool_edits w es d = Inr (sq, d')"
  shows "sq = n_usage_seq d \<and> (\<exists>n. d' = putNumber ''spooled_bytes'' n (d\<lparr>n_usage := n_usage d ++\<^sub>f fmmap e_batch es\<rparr>))"
  using assms unfolding spool_edits_def Let_def by (auto split: if_splits)

lemma view_spooled: "fmlookup (n_usage d ++\<^sub>f fmmap e_batch es) = queue_view es d"
  by (auto simp: queue_view_def fun_eq_iff fmlookup_add fmlookup_dom_iff split: option.splits)

lemma appendUsage_ok:
  assumes ap: "appendUsage u w b d = Inr (sq, d')" and ok: "spool_ok u w i A d" and i: "of_node i b"
  shows "spool_ok u w i A d'" "fmlookup (n_meters d') = tell u w (ub_Checkpoints b) (fmlookup (n_meters d))"
    "q \<le> number ''exposed_usage'' d \<Longrightarrow> fmlookup (n_usage d') q = fmlookup (n_usage d) q"
    "n_counters d' = n_counters d" "n_counter_digest d' = n_counter_digest d" "n_faults d' = n_faults d"
    "number ''exposed_usage'' d' = number ''exposed_usage'' d" "number ''durable_usage'' d' = number ''durable_usage'' d"
proof -
  let ?x = "number ''exposed_usage'' d" and ?cs = "ub_Checkpoints b"
  obtain m es d1 where m: "append_loop u w ?cs {||} (n_meters d) = Inr m"
    and ql: "queue_loop u w b ?x ?cs fmempty (d\<lparr>n_meters := m\<rparr>) = Inr (es, d1)" and sp: "spool_edits w es d1 = Inr (sq, d')"
    using ap by (auto simp: appendUsage_def queueUsage_def split: if_splits sum.splits)
  let ?d = "d\<lparr>n_meters := m\<rparr>"
  have "loop_ok u w i A (fmlookup (n_meters d)) ?x fmempty ?d"
    using ok by (simp add: loop_ok_def spool_ok_def view_empty)
  from queue_loop_ok [OF ql this i] have lo: "loop_ok u w i A (tell u w ?cs (fmlookup (n_meters d))) ?x es d1" and qo: "queue_only ?d d1" by simp_all
  note qf = qo [unfolded queue_only_def]
  obtain n where d': "d' = putNumber ''spooled_bytes'' n (d1\<lparr>n_usage := n_usage d1 ++\<^sub>f fmmap e_batch es\<rparr>)"
    using spool_edits_cases [OF sp] by blast
  have V: "fmlookup (n_usage d') = queue_view es d1" by (simp add: d' view_spooled)
  have nums: "number k d1 = number k d" for k using qf by (simp add: number_def)
  have me: "fmlookup (n_meters d') = tell u w ?cs (fmlookup (n_meters d))"
    using append_loop_spec [OF m] qf by (simp add: d')
  show "fmlookup (n_meters d') = tell u w ?cs (fmlookup (n_meters d))" by (fact me)
  have num: "number ''durable_usage'' d' = number ''durable_usage'' d" "number ''exposed_usage'' d' = ?x" by (simp_all add: d' nums)
  then show "number ''exposed_usage'' d' = ?x" "number ''durable_usage'' d' = number ''durable_usage'' d" by simp_all
  have ex: "fmlookup (n_numbers d') ''exposed_usage'' \<noteq> None" using ok qf by (simp add: d' putNumber_def spool_ok_def)
  have sq: "n_usage_seq d' = n_usage_seq d1" "n_mutable d' = n_mutable d1" by (simp_all add: d')
  note lf = lo [unfolded loop_ok_def]
  have "?x \<le> n_usage_seq d1" "batches_ok u w i (n_usage_seq d1) (queue_view es d1)" using lf by (rule conjunct1, blast)
  moreover have "index_ok u w A (tell u w ?cs (fmlookup (n_meters d))) ?x (queue_view es d1) (fmlookup (n_mutable d1) k) k" for k
    using lf by blast
  moreover have "number ''durable_usage'' d \<le> ?x" using ok by (simp add: spool_ok_def)
  ultimately show "spool_ok u w i A d'" unfolding spool_ok_def num me V sq using ex by blast
  show "fmlookup (n_usage d') q = fmlookup (n_usage d) q" if "q \<le> ?x"
  proof -
    have "fmlookup es q = None"
    proof (cases "fmlookup es q")
      case (Some e)
      then have "edit_ok u w ?x q e" using lf by blast
      then have "?x < q" by (simp add: edit_ok_def)
      with that show ?thesis by simp
    qed
    moreover have "n_usage d1 = n_usage d" using qf by simp
    ultimately show ?thesis unfolding V by (simp add: queue_view_def)
  qed
  show "n_counters d' = n_counters d" "n_counter_digest d' = n_counter_digest d" "n_faults d' = n_faults d" using qf by (simp_all add: d')
qed

section \<open>The size of the spool\<close>

definition spool_total :: "wire_lib \<Rightarrow> (u64, UsageBatch) fmap \<Rightarrow> nat" where
  "spool_total w m = (\<Sum>q \<in> fset (fmdom m). size_batch w (the (fmlookup m q)))"

lemma entries_sum: "sum_list (map f (entries_by_key m)) = (\<Sum>q \<in> fset (fmdom m). f (q, the (fmlookup m q)))" for f :: "_ \<Rightarrow> nat"
  by (simp add: entries_by_key_def comp_def sum_list_distinct_conv_sum_set sorted_list_of_fset.rep_eq)

lemma sum_u64_nat: "sum_list ns < 2 ^ 64 \<Longrightarrow> unat (sum_u64 ns) = sum_list ns"
proof (induction ns)
  case (Cons n ns)
  then have "unat (sum_u64 ns) = sum_list ns" "unat (word_of_nat n :: u64) = n" by (simp_all add: unat_of_nat take_bit_nat_eq_self)
  moreover have "sum_u64 (n # ns) = word_of_nat n + sum_u64 ns" by (simp add: sum_u64_def)
  ultimately show ?case using Cons.prems by (simp add: unat_word_ariths)
qed (simp add: sum_u64_def)

text \<open>An edit remembers the size its batch has in the bucket.\<close>

definition previous_ok :: "wire_lib \<Rightarrow> edits \<Rightarrow> NodeDB \<Rightarrow> bool" where
  "previous_ok w es d \<longleftrightarrow> (\<forall>q e. fmlookup es q = Some e \<longrightarrow>
     e_previous e = (case fmlookup (n_usage d) q of None \<Rightarrow> 0 | Some b \<Rightarrow> size_batch w b))"

abbreviation edit_count :: "edits \<Rightarrow> nat" where
  "edit_count es \<equiv> fcard (fmdom es)"

lemma edit_count_upd: "edit_count (fmupd q e es) \<le> edit_count es + 1" "fmlookup es q \<noteq> None \<Longrightarrow> edit_count (fmupd q e es) = edit_count es"
proof -
  show "edit_count (fmupd q e es) \<le> edit_count es + 1" by (simp add: fcard_finsert_if)
  show "edit_count (fmupd q e es) = edit_count es" if "fmlookup es q \<noteq> None"
    using that by (simp add: fmlookup_dom_iff finsert_absorb option.collapse)
qed

lemma load_previous:
  assumes "load_edit u w inc q es d = Inr (e, es')" and "previous_ok w es d"
  shows "previous_ok w es' d" "edit_count es' \<le> edit_count es + 1"
proof -
  have c: "es' = es \<or> (\<exists>b. fmlookup (n_usage d) q = Some b \<and> e_previous e = size_batch w b \<and> es' = fmupd q e es)"
    using assms(1) by (auto simp: load_edit_def Let_def split: option.splits if_splits sum.splits)
  then show "previous_ok w es' d" using assms(2) by (auto simp: previous_ok_def split: if_splits)
  show "edit_count es' \<le> edit_count es + 1" using c edit_count_upd(1) by auto
qed

lemma new_previous:
  assumes "newBatch w inc es d = Inr (e, es', d')" and "previous_ok w es d" and "loop_ok u w i A M exposed es d"
  shows "previous_ok w es' d' \<and> edit_count es' \<le> edit_count es + 1 \<and> e_previous e = 0 \<and> fmlookup (n_usage d') (ub_Sequence (e_batch e)) = None"
proof -
  let ?q = "n_usage_seq d + 1"
  have nb: "?q \<noteq> 0" "es' = fmupd ?q e es" "e_previous e = 0" "n_usage d' = n_usage d" "ub_Sequence (e_batch e) = ?q"
    using assms(1) by (auto simp: newBatch_def Let_def split: if_splits)
  have "\<not> ?q \<le> n_usage_seq d" using next_sequence [OF nb(1)] by simp
  moreover have "batches_ok u w i (n_usage_seq d) (queue_view es d)" using assms(3) by (simp add: loop_ok_def)
  ultimately have "queue_view es d ?q = None" unfolding batches_ok_def by (cases "queue_view es d ?q") blast+
  then have "fmlookup (n_usage d) ?q = None" by (simp add: queue_view_def split: option.splits)
  then show ?thesis using nb assms(2) edit_count_upd(1) [of ?q e es] by (auto simp: previous_ok_def split: if_splits)
qed

lemma previous_upd:
  assumes "previous_ok w es d" and "fmlookup es q = Some e" and "e_previous e' = e_previous e"
  shows "previous_ok w (fmupd q e' es) d \<and> edit_count (fmupd q e' es) = edit_count es"
  using assms edit_count_upd(2) [of es q e'] by (auto simp: previous_ok_def split: if_splits)

lemma replace_previous:
  assumes rp: "replace_checkpoint u w inc k q c es d = Inr (es', d')" and lo: "loop_ok u w i A M exposed es d"
    and q: "exposed < q" and pr: "previous_ok w es d"
  shows "previous_ok w es' d' \<and> edit_count es' \<le> edit_count es + 2"
proof -
  obtain e es1 e' where ld: "load_edit u w inc q es d = Inr (e, es1)" and es': "es' = fmupd q e' es1"
    and e': "e_previous e' = e_previous e" and d': "d' = d"
    using rp by (auto simp: replace_checkpoint_def Let_def split: sum.splits option.splits if_splits)
  show ?thesis using previous_upd [OF load_previous(1) [OF ld pr] load_edit_ok(2) [OF ld lo q] e'] load_previous(2) [OF ld pr] es' d' by simp
qed

lemma tail_previous:
  assumes te: "tail_edit u w inc exposed c es d = Inr (e, es', d')" and lo: "loop_ok u w i A M exposed es d" and pr: "previous_ok w es d"
  shows "previous_ok w es' d' \<and> edit_count es' \<le> edit_count es + 2"
proof (cases "exposed < n_usage_seq d")
  case True
  obtain e1 es1 where ld: "load_edit u w inc (n_usage_seq d) es d = Inr (e1, es1)" and
    r: "e = e1 \<and> es' = es1 \<and> d' = d \<or> newBatch w inc es1 d = Inr (e, es', d')"
    using te True by (auto simp: tail_edit_def split: sum.splits if_splits)
  note p1 = load_previous [OF ld pr]
  show ?thesis using r p1 new_previous [OF _ p1(1) load_edit_ok(1) [OF ld lo True], of inc e es' d'] by auto
next
  case False
  then have "newBatch w inc es d = Inr (e, es', d')" using te by (simp add: tail_edit_def)
  from new_previous [OF this pr lo] show ?thesis by simp
qed

lemma append_previous:
  assumes ap: "append_checkpoint u w inc k exposed c es d = Inr (es', d')" and lo: "loop_ok u w i A M exposed es d" and i: "of_node i inc"
    and pr: "previous_ok w es d"
  shows "previous_ok w es' d' \<and> edit_count es' \<le> edit_count es + 2"
proof -
  obtain e es1 d1 e' where te: "tail_edit u w inc exposed c es d = Inr (e, es1, d1)" and es': "es' = fmupd (ub_Sequence (e_batch e)) e' es1"
    and e': "e_previous e' = e_previous e" and d': "n_usage d' = n_usage d1"
    using ap by (auto simp: append_checkpoint_def Let_def split: sum.splits)
  have "ub_Sequence (e_batch e) = n_usage_seq d1" "fmlookup es1 (n_usage_seq d1) = Some e"
    using tail_edit_ok [OF te lo i] by (auto simp: edit_ok_def)
  then have at: "fmlookup es1 (ub_Sequence (e_batch e)) = Some e" by simp
  note t = tail_previous [OF te lo pr]
  from previous_upd [OF conjunct1 [OF t] at e'] t es' d' show ?thesis by (simp add: previous_ok_def)
qed

lemma queue_previous:
  assumes "queue_loop u w inc exposed cs es d = Inr (es', d')" and "loop_ok u w i A M exposed es d" and i: "of_node i inc"
    and "previous_ok w es d"
  shows "previous_ok w es' d' \<and> edit_count es' \<le> edit_count es + 2 * length cs"
  using assms(1,2,4)
proof (induction cs arbitrary: es d M)
  case (Cons c cs)
  obtain k where k: "meterKey u w c = Inr k" using Cons.prems(1) by (auto split: sum.splits)
  then obtain x where c: "c = Some x" by (cases c) auto
  let ?prev = "case fmlookup (n_mutable d) k of None \<Rightarrow> 0 | Some q \<Rightarrow> q"
  obtain es1 d1 where st: "(if ?prev > exposed then replace_checkpoint u w inc k ?prev (the c) es d
      else append_checkpoint u w inc k exposed (the c) es d) = Inr (es1, d1)"
    and rest: "queue_loop u w inc exposed cs es1 d1 = Inr (es', d')"
    using Cons.prems(1) k by (auto simp: Let_def split: sum.splits)
  have "queue_loop u w inc exposed [c] es d = Inr (es1, d1)" using k st by (simp add: Let_def split: sum.splits)
  from queue_loop_ok [OF this Cons.prems(2) i] have lo: "loop_ok u w i A (tell u w [c] M) exposed es1 d1" by simp
  have "previous_ok w es1 d1 \<and> edit_count es1 \<le> edit_count es + 2"
    using st replace_previous [OF _ Cons.prems(2) _ Cons.prems(3)] append_previous [OF _ Cons.prems(2) i Cons.prems(3)]
    by (cases "?prev > exposed") auto
  with Cons.IH [OF rest lo] show ?case by auto
qed simp

definition bytes_ok :: "wire_lib \<Rightarrow> NodeDB \<Rightarrow> bool" where
  "bytes_ok w d \<longleftrightarrow> unat (number ''spooled_bytes'' d) = spool_total w (n_usage d) \<and> number ''spooled_bytes'' d \<le> MaxSpoolBytes
     \<and> (\<forall>q b. fmlookup (n_usage d) q = Some b \<longrightarrow> size_batch w b \<le> MaxBatchBytes)"

lemma spool_total_edits:
  assumes "previous_ok w es d"
  shows "spool_total w (n_usage d ++\<^sub>f fmmap e_batch es) + (\<Sum>q \<in> fset (fmdom es). e_previous (the (fmlookup es q)))
    = spool_total w (n_usage d) + (\<Sum>q \<in> fset (fmdom es). size_batch w (e_batch (the (fmlookup es q))))"
proof -
  let ?U = "fset (fmdom (n_usage d))" and ?E = "fset (fmdom es)" and ?old = "\<lambda>q. size_batch w (the (fmlookup (n_usage d) q))"
    and ?new = "\<lambda>q. size_batch w (the (fmlookup (n_usage d ++\<^sub>f fmmap e_batch es) q))"
  have fin: "finite ?U" "finite ?E" by simp_all
  have "sum ?new (?U \<union> ?E) = sum ?new (?U - ?E) + sum ?new ?E"
    using sum.subset_diff [of ?E "?U \<union> ?E" ?new] fin by (simp add: Un_Diff)
  moreover have "sum ?new (?U - ?E) = sum ?old (?U - ?E)" by (rule sum.cong) auto
  moreover have "sum ?new ?E = (\<Sum>q \<in> ?E. size_batch w (e_batch (the (fmlookup es q))))"
    by (rule sum.cong) (auto simp: fmlookup_dom_iff)
  moreover have "(\<Sum>q \<in> ?E. e_previous (the (fmlookup es q))) = (\<Sum>q \<in> ?E. if q \<in> ?U then ?old q else 0)"
    using assms by (intro sum.cong) (auto simp: previous_ok_def fmlookup_dom_iff split: option.splits)
  moreover have "\<dots> = sum ?old (?E \<inter> ?U)" by (rule sum.inter_restrict [symmetric]) (rule fin)
  moreover have "sum ?old ?U = sum ?old (?U - ?E) + sum ?old (?E \<inter> ?U)"
    using sum.Int_Diff [OF fin(1), of ?old ?E] by (metis Int_commute add.commute)
  moreover have "spool_total w (n_usage d ++\<^sub>f fmmap e_batch es) = sum ?new (?U \<union> ?E)" by (simp add: spool_total_def)
  ultimately show ?thesis by (simp add: spool_total_def)
qed

lemma previous_sum_le:
  assumes "previous_ok w es d"
  shows "(\<Sum>q \<in> fset (fmdom es). e_previous (the (fmlookup es q))) \<le> spool_total w (n_usage d)"
proof -
  let ?U = "fset (fmdom (n_usage d))" and ?E = "fset (fmdom es)" and ?old = "\<lambda>q. size_batch w (the (fmlookup (n_usage d) q))"
  have "(\<Sum>q \<in> ?E. e_previous (the (fmlookup es q))) = (\<Sum>q \<in> ?E. if q \<in> ?U then ?old q else 0)"
    using assms by (intro sum.cong) (auto simp: previous_ok_def fmlookup_dom_iff split: option.splits)
  also have "\<dots> = sum ?old (?E \<inter> ?U)" by (rule sum.inter_restrict [symmetric]) simp
  also have "\<dots> \<le> sum ?old ?U" by (rule sum_mono2) auto
  finally show ?thesis by (simp add: spool_total_def)
qed

lemma spool_arith:
  fixes s r b m :: u64
  assumes "r \<le> s" and "b \<le> m - (s - r)" and "s \<le> m"
  shows "unat (s - r + b) + unat r = unat s + unat b \<and> s - r + b \<le> m"
proof -
  have n: "unat r \<le> unat s" "unat s \<le> unat m" using assms(1,3) by (simp_all add: word_le_nat_alt)
  have sr: "unat (s - r) = unat s - unat r" using assms(1) by (simp add: unat_sub)
  then have "s - r \<le> m" using n by (simp add: word_le_nat_alt)
  then have "unat (m - (s - r)) = unat m - (unat s - unat r)" using sr by (simp add: unat_sub)
  then have b: "unat b \<le> unat m - (unat s - unat r)" using assms(2) by (simp add: word_le_nat_alt)
  then have "unat (s - r) + unat b \<le> unat m" using n sr by simp
  moreover have "unat m < 2 ^ 64" using unsigned_less [where w = m, where 'a = nat] by simp
  ultimately have "unat (s - r + b) = unat (s - r) + unat b" by (simp add: unat_word_ariths)
  then show ?thesis using sr n b by (simp add: word_le_nat_alt)
qed

lemma spool_edits_bytes:
  assumes sp: "spool_edits w es d = Inr (sq, d')" and pr: "previous_ok w es d" and n: "edit_count es \<le> 8192" and ok: "bytes_ok w d"
  shows "bytes_ok w d'"
proof -
  let ?m = "n_usage d ++\<^sub>f fmmap e_batch es" and ?s = "number ''spooled_bytes'' d" and ?E = "fset (fmdom es)" and ?all = "map snd (entries_by_key es)"
  let ?p = "\<Sum>q \<in> ?E. e_previous (the (fmlookup es q))" and ?a = "\<Sum>q \<in> ?E. size_batch w (e_batch (the (fmlookup es q)))"
  let ?r = "sum_u64 (map e_previous ?all)" and ?b = "sum_u64 (map (\<lambda>e. size_batch w (e_batch e)) ?all)"
  have g: "\<not> list_ex (\<lambda>e. size_batch w (e_batch e) > MaxBatchBytes) ?all" "?r \<le> ?s" "?b \<le> MaxSpoolBytes - (?s - ?r)"
    and d': "d' = putNumber ''spooled_bytes'' (?s - ?r + ?b) (d\<lparr>n_usage := ?m\<rparr>)"
    using sp unfolding spool_edits_def Let_def by (auto split: if_splits)
  have small: "size_batch w (e_batch (the (fmlookup es q))) \<le> MaxBatchBytes" if "q \<in> ?E" for q
    using g(1) that by (auto simp: list_ex_iff entries_by_key_def sorted_list_of_fset.rep_eq not_less)
  have "?a \<le> card ?E * MaxBatchBytes" using small by (metis sum_bounded_above of_nat_id)
  also have "\<dots> \<le> 8192 * MaxBatchBytes" using n by (simp add: fcard.rep_eq)
  finally have a: "?a < 2 ^ 64" by (simp add: go_defs)
  have tot: "unat ?s = spool_total w (n_usage d)" "?s \<le> MaxSpoolBytes" using ok by (simp_all add: bytes_ok_def)
  have "?p < 2 ^ 64" using previous_sum_le [OF pr] tot(1) unsigned_less [where w = ?s, where 'a = nat] by simp
  then have r: "unat ?r = ?p" using sum_u64_nat [of "map e_previous ?all"] entries_sum [of "\<lambda>x. e_previous (snd x)" es] by (simp add: comp_def)
  have b: "unat ?b = ?a" using a sum_u64_nat [of "map (\<lambda>e. size_batch w (e_batch e)) ?all"] entries_sum [of "\<lambda>x. size_batch w (e_batch (snd x))" es]
    by (simp add: comp_def)
  note ar = spool_arith [OF g(2,3) tot(2)]
  have "unat (?s - ?r + ?b) = spool_total w ?m" using ar r b tot(1) spool_total_edits [OF pr] by simp
  moreover have "size_batch w x \<le> MaxBatchBytes" if "fmlookup ?m q = Some x" for q x
    using that ok small [of q] by (auto simp: bytes_ok_def fmlookup_dom_iff split: if_splits)
  ultimately show ?thesis using ar by (simp add: bytes_ok_def d')
qed

lemma appendUsage_bytes:
  assumes ap: "appendUsage u w b d = Inr (sq, d')" and ok: "spool_ok u w i A d" and i: "of_node i b" and sz: "bytes_ok w d"
  shows "bytes_ok w d'"
proof -
  let ?x = "number ''exposed_usage'' d" and ?cs = "ub_Checkpoints b"
  obtain m es d1 where len: "length ?cs \<le> 4096" and m: "append_loop u w ?cs {||} (n_meters d) = Inr m"
    and ql: "queue_loop u w b ?x ?cs fmempty (d\<lparr>n_meters := m\<rparr>) = Inr (es, d1)" and sp: "spool_edits w es d1 = Inr (sq, d')"
    using ap by (auto simp: appendUsage_def queueUsage_def split: if_splits sum.splits)
  have lo: "loop_ok u w i A (fmlookup (n_meters d)) ?x fmempty (d\<lparr>n_meters := m\<rparr>)"
    using ok by (simp add: loop_ok_def spool_ok_def view_empty)
  have qo: "queue_only (d\<lparr>n_meters := m\<rparr>) d1" using queue_loop_ok [OF ql lo i] by simp
  have pr: "previous_ok w es d1 \<and> edit_count es \<le> 2 * length ?cs" using queue_previous [OF ql lo i] by (simp add: previous_ok_def fcard_fempty)
  have "bytes_ok w d1" using sz qo by (simp add: bytes_ok_def queue_only_def number_def)
  with spool_edits_bytes [OF sp] pr len show ?thesis by simp
qed

section \<open>What the control plane is told\<close>

text \<open>The newest checkpoint of a meter in a set of batches; later batches supersede earlier ones.\<close>

definition newest :: "'u uuid_lib \<Rightarrow> wire_lib \<Rightarrow> queue \<Rightarrow> string \<Rightarrow> UsageCheckpoint option" where
  "newest u w V k = (let Q = {q. content u w V q k \<noteq> None} in if Q = {} then None else content u w V (Max Q) k)"

abbreviation up_to :: "u64 \<Rightarrow> queue \<Rightarrow> queue" where
  "up_to n V \<equiv> \<lambda>q. if q \<le> n then V q else None"

text \<open>
  The batches that were handed out are a ghost \<open>P\<close>: the batches the control plane has, by sequence.
  What it holds as durable, followed by what still waits in the bucket, is the whole log.
\<close>

definition log_view :: "queue \<Rightarrow> NodeDB \<Rightarrow> queue" where
  "log_view P d q = (if q \<le> number ''durable_usage'' d then P q else fmlookup (n_usage d) q)"

definition usage_ok :: "'u uuid_lib \<Rightarrow> wire_lib \<Rightarrow> Identity \<Rightarrow> queue \<Rightarrow> NodeDB \<Rightarrow> bool" where
  "usage_ok u w i P d \<longleftrightarrow> spool_ok u w i (newest u w (up_to (number ''durable_usage'' d) P)) d \<and> bytes_ok w d
     \<and> (\<forall>q \<le> number ''durable_usage'' d. fmlookup (n_usage d) q = None)
     \<and> (\<forall>q. number ''durable_usage'' d < q \<and> q \<le> number ''exposed_usage'' d \<longrightarrow> P q = fmlookup (n_usage d) q)
     \<and> (\<forall>q > number ''exposed_usage'' d. P q = None)"

lemma newest_cong: "(\<And>q. content u w V q k = content u w V' q k) \<Longrightarrow> newest u w V k = newest u w V' k"
  by (simp add: newest_def)

lemma newest_top:
  assumes "content u w V q k \<noteq> None" and "\<And>q'. q < q' \<Longrightarrow> content u w V q' k = None"
  shows "newest u w V k = content u w V q k"
proof -
  let ?Q = "{q. content u w V q k \<noteq> None}"
  have "Max ?Q = q" using assms by (intro Max_eqI) (auto simp: not_le [symmetric] intro: leI)
  then show ?thesis using assms(1) by (auto simp: newest_def Let_def)
qed

lemma content_view: "content u w V q k = (case V q of None \<Rightarrow> None | Some b \<Rightarrow> entry u w (ub_Checkpoints b) k)"
  by (simp add: content_def split: option.splits)

lemma usage_content:
  assumes "usage_ok u w i P d"
  shows "content u w (log_view P d) q k = (if q \<le> number ''durable_usage'' d then content u w P q k else content u w (fmlookup (n_usage d)) q k)"
    "content u w (up_to n P) q k = (if q \<le> n then content u w P q k else None)"
    "q \<le> number ''durable_usage'' d \<Longrightarrow> content u w (fmlookup (n_usage d)) q k = None"
    "number ''durable_usage'' d < q \<Longrightarrow> q \<le> number ''exposed_usage'' d \<Longrightarrow> content u w P q k = content u w (fmlookup (n_usage d)) q k"
  using assms by (simp_all add: content_view log_view_def usage_ok_def)

lemma newest_log:
  assumes ok: "usage_ok u w i P d"
  shows "newest u w (log_view P d) = fmlookup (n_meters d)"
proof
  fix k
  let ?n = "number ''durable_usage'' d" and ?V = "fmlookup (n_usage d)" and ?idx = "fmlookup (n_mutable d) k"
  note c = usage_content [OF ok]
  have ix: "index_ok u w (newest u w (up_to ?n P)) (fmlookup (n_meters d)) (number ''exposed_usage'' d) ?V ?idx k"
    using ok by (simp add: usage_ok_def spool_ok_def)
  have none: "newest u w (log_view P d) k = fmlookup (n_meters d) k"
    if "\<forall>q. content u w ?V q k = None" "fmlookup (n_meters d) k = newest u w (up_to ?n P) k"
  proof -
    have "newest u w (log_view P d) k = newest u w (up_to ?n P) k" by (rule newest_cong) (simp add: c that(1))
    with that(2) show ?thesis by simp
  qed
  show "newest u w (log_view P d) k = fmlookup (n_meters d) k"
  proof (cases "\<exists>q. ?idx = Some q \<and> content u w ?V q k \<noteq> None")
    case True
    then obtain q where q: "?idx = Some q" "content u w ?V q k \<noteq> None" by blast
    have m: "\<And>q'. q < q' \<Longrightarrow> content u w ?V q' k = None" "fmlookup (n_meters d) k = content u w ?V q k"
      using ix q by (simp_all add: index_ok_def)
    have "?n < q" using q(2) c(3) [of q] by (meson leI)
    then have "newest u w (log_view P d) k = content u w (log_view P d) q k"
      using q(2) m(1) by (intro newest_top) (auto simp: c)
    with \<open>?n < q\<close> m(2) show ?thesis by (simp add: c)
  next
    case False
    then show ?thesis using ix none by (auto simp: index_ok_def split: option.splits)
  qed
qed

section \<open>Every operation keeps the log\<close>

lemma appendUsage_usage:
  assumes ap: "appendUsage u w b d = Inr (sq, d')" and ok: "usage_ok u w i P d" and i: "of_node i b"
  shows "usage_ok u w i P d'"
proof -
  let ?n = "number ''durable_usage'' d" and ?x = "number ''exposed_usage'' d"
  have sp: "spool_ok u w i (newest u w (up_to ?n P)) d" and sz: "bytes_ok w d" using ok by (simp_all add: usage_ok_def)
  note a = appendUsage_ok [OF ap sp i]
  have "?n \<le> ?x" using sp by (simp add: spool_ok_def)
  then have "fmlookup (n_usage d') q = fmlookup (n_usage d) q" if "q \<le> ?n \<or> q \<le> ?x" for q
    using a(3) [of q] that by auto
  then show ?thesis using ok a(1,7,8) appendUsage_bytes [OF ap sp i sz] by (simp add: usage_ok_def)
qed

declare append_chunks.simps [simp del]

lemma tell_append: "tell u w (xs @ ys) M = tell u w ys (tell u w xs M)"
  by (induction xs arbitrary: M) simp_all

lemma append_chunks_usage:
  assumes "append_chunks u w s cs d = Inr d'" and "usage_ok u w (st_identity s) P d"
  shows "usage_ok u w (st_identity s) P d' \<and> fmlookup (n_meters d') = tell u w cs (fmlookup (n_meters d))
    \<and> n_counters d' = n_counters d \<and> n_counter_digest d' = n_counter_digest d
    \<and> number ''exposed_usage'' d' = number ''exposed_usage'' d \<and> number ''durable_usage'' d' = number ''durable_usage'' d
    \<and> (\<forall>q \<le> number ''exposed_usage'' d. fmlookup (n_usage d') q = fmlookup (n_usage d) q)"
  using assms
proof (induction u w s cs d rule: append_chunks.induct)
  case (1 u w s cs d)
  show ?case
  proof (cases "cs = []")
    case True
    then show ?thesis using 1(2,3) by (simp add: append_chunks.simps [of u w s "[]"])
  next
    case False
    let ?b = "batch_of s (take 1024 cs)"
    obtain q d1 where ap: "appendUsage u w ?b d = Inr (q, d1)" and rest: "append_chunks u w s (drop 1024 cs) d1 = Inr d'"
      using 1(2) False by (auto simp: append_chunks.simps [of u w s cs] split: sum.splits)
    have i: "of_node (st_identity s) ?b" by (simp add: batch_of_def)
    have sp: "spool_ok u w (st_identity s) (newest u w (up_to (number ''durable_usage'' d) P)) d" using 1(3) by (simp add: usage_ok_def)
    note a = appendUsage_ok [OF ap sp i]
    have cs: "ub_Checkpoints ?b = take 1024 cs" by (simp add: batch_of_def)
    have m: "tell u w cs (fmlookup (n_meters d)) = tell u w (drop 1024 cs) (fmlookup (n_meters d1))"
      using tell_append [of u w "take 1024 cs" "drop 1024 cs"] a(2) cs by simp
    from 1(1) [OF False ap refl rest appendUsage_usage [OF ap 1(3) i]] a(3-5,7,8) m show ?thesis by simp
  qed
qed

lemma take_map_of:
  assumes "sorted (map fst xs)" and "distinct (map fst xs)" and "take n xs \<noteq> []"
  shows "map_of (take n xs) q = (if q \<le> fst (last (take n xs)) then map_of xs q else None)"
proof -
  let ?a = "take n xs" and ?b = "drop n xs"
  have s: "sorted (map fst ?a @ map fst ?b)" and d: "distinct (map fst ?a @ map fst ?b)"
    using assms(1,2) by (metis append_take_drop_id map_append)+
  have "fst x \<le> fst (last ?a)" if "x \<in> set ?a" for x
  proof -
    obtain j where j: "j < length ?a" "x = ?a ! j" using \<open>x \<in> set ?a\<close> by (metis in_set_conv_nth)
    have "sorted (map fst ?a)" using s sorted_append by blast
    then have "map fst ?a ! j \<le> map fst ?a ! (length ?a - 1)" using j by (intro sorted_nth_mono) auto
    moreover have "map fst ?a ! (length ?a - 1) = fst (?a ! (length ?a - 1))" using j by (intro nth_map) auto
    ultimately show ?thesis using j assms(3) by (simp add: last_conv_nth del: nth_take)
  qed
  then have lo: "map_of ?a q = None" if "\<not> q \<le> fst (last ?a)" using that by (auto simp: map_of_eq_None_iff)
  have "fst (last ?a) < fst y" if "y \<in> set ?b" for y
  proof -
    have "last ?a \<in> set ?a" using assms(3) by simp
    then have "fst (last ?a) \<le> fst y" "fst (last ?a) \<noteq> fst y" using s d that by (auto simp: sorted_append dest: in_set_takeD)+
    then show ?thesis by simp
  qed
  then have "map_of ?b q = None" if "q \<le> fst (last ?a)" using that by (force simp: map_of_eq_None_iff)
  moreover have "map_of xs q = (case map_of ?a q of None \<Rightarrow> map_of ?b q | Some x \<Rightarrow> Some x)"
    by (metis append_take_drop_id map_add_def map_of_append option.case_eq_if option.collapse)
  ultimately show ?thesis using lo by (auto split: option.splits)
qed

definition handed :: "UsageBatch list \<Rightarrow> queue" where
  "handed bs = map_of (map (\<lambda>b. (ub_Sequence b, b)) bs)"

lemma read_pending_handed:
  assumes "read_pending s n d = Inr bs" and "bs \<noteq> []"
  shows "handed bs q = (if q \<le> ub_Sequence (last bs) then fmlookup (n_usage d) q else None)"
    "fmlookup (n_usage d) (ub_Sequence (last bs)) \<noteq> None"
proof -
  let ?E = "entries_by_key (n_usage d)" and ?es = "take n (entries_by_key (n_usage d))"
  have bs: "bs = map snd ?es" and "\<not> list_ex (\<lambda>(k, b). ub_Sequence b \<noteq> k \<or> ub_NodeId b \<noteq> id_Node (st_identity s)
            \<or> ub_InstallationId b \<noteq> id_Installation (st_identity s)) ?es"
    using assms(1) unfolding read_pending_def Let_def by (auto split: if_splits)
  then have k: "ub_Sequence (snd x) = fst x" if "x \<in> set ?es" for x using that by (auto simp: list_ex_iff)
  then have "map (\<lambda>b. (ub_Sequence b, b)) bs = ?es" unfolding bs by (simp add: map_idI)
  then have h: "handed bs = map_of ?es" by (simp add: handed_def)
  have ne: "?es \<noteq> []" using assms(2) bs by auto
  have l: "fst (last ?es) = ub_Sequence (last bs)" using k [OF last_in_set [OF ne]] ne bs by (simp add: last_map)
  have keys: "sorted (map fst ?E)" "distinct (map fst ?E)" by (simp_all add: entries_by_key_def comp_def sorted_list_of_fset.rep_eq)
  have E: "map_of ?E q = fmlookup (n_usage d) q" for q using ranges_over_map_of [OF entries_by_key_ranges] by blast
  show "handed bs q = (if q \<le> ub_Sequence (last bs) then fmlookup (n_usage d) q else None)"
    using take_map_of [OF keys ne, of q] unfolding h l E .
  have "map_of ?es (fst (last ?es)) \<noteq> None" unfolding map_of_eq_None_iff using imageI [OF last_in_set [OF ne], of fst] by blast
  then show "fmlookup (n_usage d) (ub_Sequence (last bs)) \<noteq> None"
    using take_map_of [OF keys ne, of "fst (last ?es)"] unfolding l E by simp
qed

lemma index_ok_exposed: "index_ok u w A M x V idx k \<Longrightarrow> x \<le> x' \<Longrightarrow> index_ok u w A M x' V idx k"
  by (auto simp: index_ok_def split: option.splits)

lemma spool_ok_exposed:
  assumes "spool_ok u w i A d" and "number ''exposed_usage'' d \<le> x" and "x \<le> n_usage_seq d"
  shows "spool_ok u w i A (putNumber ''exposed_usage'' x d)"
proof -
  have "number ''durable_usage'' d \<le> x" using assms(1,2) by (auto simp: spool_ok_def)
  moreover have "index_ok u w A (fmlookup (n_meters d)) x (fmlookup (n_usage d)) (fmlookup (n_mutable d) k) k" for k
    using index_ok_exposed assms(1,2) by (fastforce simp: spool_ok_def)
  moreover have "fmlookup (n_numbers (putNumber ''exposed_usage'' x d)) ''exposed_usage'' \<noteq> None" by (simp add: putNumber_def)
  ultimately show ?thesis using assms(1,3) by (simp add: spool_ok_def)
qed

lemma handed_keeps:
  assumes ok: "usage_ok u w i P d" and h: "\<And>q. handed bs q = (if q \<le> z then fmlookup (n_usage d) q else None)"
  shows "P q = Some b \<Longrightarrow> (P ++ handed bs) q = Some b"
    "q \<le> number ''exposed_usage'' d \<Longrightarrow> (P ++ handed bs) q = P q"
    "number ''exposed_usage'' d < q \<Longrightarrow> (P ++ handed bs) q = (if q \<le> z then fmlookup (n_usage d) q else None)"
proof -
  let ?x = "number ''exposed_usage'' d"
  note o = ok [unfolded usage_ok_def]
  show le: "(P ++ handed bs) q = P q" if "q \<le> ?x" for q
    using that o h [of q] by (cases "q \<le> number ''durable_usage'' d") (auto simp: map_add_def split: option.splits)
  have gt: "P q = None" if "?x < q" for q using that o by blast
  show "(P ++ handed bs) q = Some b" if "P q = Some b" using that le [of q] gt [of q] by (cases "q \<le> ?x") auto
  show "(P ++ handed bs) q = (if q \<le> z then fmlookup (n_usage d) q else None)" if "?x < q"
    using gt [OF that] h [of q] by (auto simp: map_add_def split: option.splits)
qed

lemma usage_ok_faults: "usage_ok u w i P (d\<lparr>n_faults := fs\<rparr>) = usage_ok u w i P d"
  by (simp add: usage_ok_def spool_ok_def bytes_ok_def)

lemma freeze_usage:
  assumes ok: "usage_ok u w i P d" and h: "\<And>q. handed bs q = (if q \<le> z then fmlookup (n_usage d) q else None)"
    and z: "fmlookup (n_usage d) z \<noteq> None" and x: "x = max (number ''exposed_usage'' d) z"
  shows "usage_ok u w i (P ++ handed bs) (putNumber ''exposed_usage'' x d)"
proof -
  let ?n = "number ''durable_usage'' d" and ?x = "number ''exposed_usage'' d"
  note o = ok [unfolded usage_ok_def] and keep = handed_keeps [OF ok h]
  have sp: "spool_ok u w i (newest u w (up_to ?n P)) d" using o by blast
  have nx: "?n \<le> ?x" and sq: "?x \<le> n_usage_seq d" using sp by (simp_all add: spool_ok_def)
  have "z \<le> n_usage_seq d" using z sp by (auto simp: spool_ok_def batches_ok_def)
  with x sq have "x \<le> n_usage_seq d" "?x \<le> x" by simp_all
  have P: "up_to ?n (P ++ handed bs) = up_to ?n P" using keep(2) nx by (auto simp: fun_eq_iff)
  have "spool_ok u w i (newest u w (up_to ?n (P ++ handed bs))) (putNumber ''exposed_usage'' x d)"
    unfolding P by (rule spool_ok_exposed [OF sp]) fact+
  moreover have "bytes_ok w (putNumber ''exposed_usage'' x d)" using o by (simp add: bytes_ok_def)
  moreover have "(P ++ handed bs) q = fmlookup (n_usage d) q" if "?n < q" "q \<le> x" for q
    using that o keep(2,3) [of q] x by (cases "q \<le> ?x") (auto simp: not_le le_max_iff_disj)
  moreover have "(P ++ handed bs) q = None" if "x < q" for q using that keep(3) [of q] x by auto
  ultimately show ?thesis using o by (simp add: usage_ok_def)
qed

lemma PendingUsage_usage:
  assumes pu: "PendingUsage limit s = (Inr bs, s')" and ok: "usage_ok u w (st_identity s) P (st_db s)"
  shows "usage_ok u w (st_identity s) (P ++ handed bs) (st_db s') \<and> st_identity s' = st_identity s
    \<and> n_meters (st_db s') = n_meters (st_db s) \<and> (\<forall>q b. P q = Some b \<longrightarrow> (P ++ handed bs) q = Some b)"
proof -
  let ?d = "st_db s"
  have "limit \<ge> 1 \<and> (\<exists>r. read_pending s (nat limit) ?d = Inr r)"
    using pu by (auto simp: PendingUsage_def split: if_splits sum.splits)
  then obtain r where r: "read_pending s (nat limit) ?d = Inr r" by blast
  show ?thesis
  proof (cases "r = []")
    case True
    then have "bs = []" "s' = s" using pu r by (auto simp: PendingUsage_def split: if_splits)
    then show ?thesis using ok by (simp add: handed_def)
  next
    case False
    let ?z = "ub_Sequence (last r)" and ?x = "number ''exposed_usage'' ?d"
    note h = read_pending_handed [OF r False]
    show ?thesis
    proof (cases "?z \<le> ?x")
      case True
      then have e: "bs = r" "s' = s" using pu r False by (auto simp: PendingUsage_def split: if_splits)
      have "P ++ handed r = P"
      proof
        fix q
        show "(P ++ handed r) q = P q"
          using handed_keeps(2,3) [OF ok h(1), of q] ok True by (cases "q \<le> ?x") (auto simp: usage_ok_def)
      qed
      then show ?thesis using ok e by simp
    next
      case False
      then have "on_store (freeze_tx s (nat limit)) s = (Inr bs, s')" using pu r \<open>r \<noteq> []\<close> by (auto simp: PendingUsage_def split: if_splits)
      from on_store_cases [OF this] r \<open>r \<noteq> []\<close> obtain fs where e: "bs = r" "st_identity s' = st_identity s"
        "st_db s' = (putNumber ''exposed_usage'' (max ?x ?z) ?d)\<lparr>n_faults := fs\<rparr>"
        by (auto simp: freeze_tx_def)
      have "usage_ok u w (st_identity s) (P ++ handed r) (putNumber ''exposed_usage'' (max ?x ?z) ?d)"
        by (rule freeze_usage [OF ok h(1) h(2) refl])
      then show ?thesis using e handed_keeps(1) [OF ok h(1)] by (simp add: usage_ok_faults)
    qed
  qed
qed

lemma PendingUsage_fails:
  assumes "PendingUsage limit s = (Inl e, s')"
  shows "st_identity s' = st_identity s \<and> (\<exists>fs. st_db s' = (st_db s)\<lparr>n_faults := fs\<rparr>)"
proof -
  have "s' = s \<or> on_store (freeze_tx s (nat limit)) s = (Inl e, s')"
    using assms by (auto simp: PendingUsage_def split: if_splits sum.splits)
  then show ?thesis using on_store_cases [of "freeze_tx s (nat limit)" s "Inl e" s'] by (auto intro: exI [of _ "n_faults (st_db s)"])
qed

lemma spool_total_filter:
  "spool_total w (fmfilter p m) + sum_list (map (\<lambda>(k, b). size_batch w b) (filter (\<lambda>(k, b). \<not> p k) (entries_by_key m))) = spool_total w m"
proof -
  let ?f = "\<lambda>q. size_batch w (the (fmlookup m q))" and ?D = "fset (fmdom m)"
  have "filter (\<lambda>(k, b). \<not> p k) (entries_by_key m) = map (\<lambda>k. (k, the (fmlookup m k))) (filter (\<lambda>k. \<not> p k) (sorted_list_of_fset (fmdom m)))"
    by (simp add: entries_by_key_def filter_map comp_def)
  then have "sum_list (map (\<lambda>(k, b). size_batch w b) (filter (\<lambda>(k, b). \<not> p k) (entries_by_key m))) = sum ?f {q \<in> ?D. \<not> p q}"
    by (simp add: comp_def sum_list_distinct_conv_sum_set sorted_list_of_fset.rep_eq)
  moreover have "spool_total w (fmfilter p m) = sum ?f {q \<in> ?D. p q}"
    unfolding spool_total_def by (intro sum.cong) auto
  moreover have "{q \<in> ?D. p q} = ?D \<inter> {q. p q}" "{q \<in> ?D. \<not> p q} = ?D - {q. p q}" by auto
  ultimately show ?thesis using sum.Int_Diff [of ?D ?f "{q. p q}"] by (simp add: spool_total_def)
qed

lemma reclaim_bytes:
  assumes ok: "bytes_ok w d" and r: "r = sum_u64 (map (\<lambda>(k, b). size_batch w b) (filter (\<lambda>(k, b). k \<le> n) (entries_by_key (n_usage d))))"
  shows "r \<le> number ''spooled_bytes'' d"
    "bytes_ok w (putNumber ''spooled_bytes'' (number ''spooled_bytes'' d - r) (d\<lparr>n_usage := fmfilter (\<lambda>k. \<not> k \<le> n) (n_usage d)\<rparr>))"
proof -
  let ?s = "number ''spooled_bytes'' d" and ?m = "fmfilter (\<lambda>k. \<not> k \<le> n) (n_usage d)"
  let ?ns = "map (\<lambda>(k, b). size_batch w b) (filter (\<lambda>(k, b). k \<le> n) (entries_by_key (n_usage d)))"
  have tot: "unat ?s = spool_total w ?m + sum_list ?ns" using ok spool_total_filter [of w "\<lambda>k. \<not> k \<le> n" "n_usage d"] by (simp add: bytes_ok_def)
  then have "sum_list ?ns < 2 ^ 64" using unsigned_less [where w = ?s, where 'a = nat] by simp
  then have ur: "unat r = sum_list ?ns" using sum_u64_nat r by simp
  then show le: "r \<le> ?s" using tot by (simp add: word_le_nat_alt)
  then have "unat (?s - r) = spool_total w ?m" using tot ur by (simp add: unat_sub)
  moreover have "?s - r \<le> ?s" using le by (simp add: word_sub_le)
  moreover have "?s \<le> MaxSpoolBytes" using ok by (simp add: bytes_ok_def)
  ultimately show "bytes_ok w (putNumber ''spooled_bytes'' (?s - r) (d\<lparr>n_usage := ?m\<rparr>))"
    using ok by (auto simp: bytes_ok_def split: if_splits)
qed

lemma index_ok_reclaim:
  assumes ix: "index_ok u w (newest u w (up_to n P)) M x V idx k"
    and P: "\<And>q. n < q \<Longrightarrow> q \<le> x \<Longrightarrow> P q = V q" and V: "\<And>q. q \<le> n \<Longrightarrow> V q = None" and m: "n \<le> m" "m \<le> x"
    and V': "V' = (\<lambda>q. if q \<le> m then None else V q)"
  shows "index_ok u w (newest u w (up_to m P)) M x V' idx k"
proof -
  have c': "content u w V' q k = (if q \<le> m then None else content u w V q k)" for q by (simp add: V' content_view)
  have cP: "content u w (up_to m P) q k = (if q \<le> n then content u w (up_to n P) q k else if q \<le> m then content u w V q k else None)" for q
    using P [of q] m by (auto simp: content_view split: option.splits)
  have cV: "content u w V q k = None" if "q \<le> n" for q using V [OF that] by (simp add: content_view)
  have same: "newest u w (up_to m P) k = newest u w (up_to n P) k" if "\<forall>q. content u w V q k = None"
    by (rule newest_cong) (use cP that in \<open>auto simp: content_view\<close>)
  show ?thesis
  proof (cases "\<exists>q. idx = Some q \<and> q \<le> m \<and> content u w V q k \<noteq> None")
    case True
    then obtain q where q: "idx = Some q" "q \<le> m" "content u w V q k \<noteq> None" by blast
    have t: "\<And>q'. q < q' \<Longrightarrow> content u w V q' k = None" "M k = content u w V q k" using ix q by (simp_all add: index_ok_def)
    have nq: "n < q" using q(3) cV [of q] by (meson leI)
    have "newest u w (up_to m P) k = content u w (up_to m P) q k"
    proof (rule newest_top)
      show "content u w (up_to m P) q k \<noteq> None" using q nq by (auto simp: cP)
      show "content u w (up_to m P) q' k = None" if "q < q'" for q' using that t(1) [OF that] nq by (auto simp: cP)
    qed
    then have A: "newest u w (up_to m P) k = M k" using q nq t(2) by (auto simp: cP)
    have "content u w V' q' k = None" for q' using t(1) [of q'] q(2) by (cases "q < q'") (auto simp: c')
    then show ?thesis using q A m by (simp add: index_ok_def)
  next
    case False
    show ?thesis
    proof (cases idx)
      case None
      then show ?thesis using ix same by (simp add: index_ok_def c')
    next
      case (Some q)
      then show ?thesis using ix same False m by (auto simp: index_ok_def c')
    qed
  qed
qed

lemma acknowledge_usage:
  assumes ok: "usage_ok u w i P d" and r: "DurableSequence r \<le> number ''exposed_usage'' d"
  shows "\<exists>d'. acknowledge_tx w r d = Inr ((), d') \<and> usage_ok u w i P d' \<and> n_meters d' = n_meters d
    \<and> number ''durable_usage'' d' = max (DurableSequence r) (number ''durable_usage'' d)
    \<and> number ''exposed_usage'' d' = number ''exposed_usage'' d
    \<and> (\<forall>q. fmlookup (n_usage d') q = (if q \<le> number ''durable_usage'' d' then None else fmlookup (n_usage d) q))"
proof -
  let ?n = "number ''durable_usage'' d" and ?x = "number ''exposed_usage'' d" and ?s = "number ''spooled_bytes'' d"
  let ?m = "max (DurableSequence r) ?n" and ?a = "max (AccountedSequence r) (number ''accounted_usage'' d)"
  define c where "c = sum_u64 (map (\<lambda>(k, b). size_batch w b) (filter (\<lambda>(k, b). k \<le> ?m) (entries_by_key (n_usage d))))"
  define d1 where "d1 = putNumber ''spooled_bytes'' (?s - c) (d\<lparr>n_usage := fmfilter (\<lambda>k. \<not> k \<le> ?m) (n_usage d)\<rparr>)"
  define d' where "d' = putNumber ''accounted_usage'' ?a (putNumber ''durable_usage'' ?m d1)"
  note o = ok [unfolded usage_ok_def]
  have sp: "spool_ok u w i (newest u w (up_to ?n P)) d" and sz: "bytes_ok w d" using o by blast+
  have nx: "?n \<le> ?x" and xs: "?x \<le> n_usage_seq d" using sp by (simp_all add: spool_ok_def)
  note cl = reclaim_bytes [OF sz c_def]
  have "acknowledge_tx w r d = Inr ((), d')"
    using r xs cl(1) unfolding acknowledge_tx_def Let_def c_def [symmetric] d1_def [symmetric] d'_def [symmetric] by auto
  moreover have nums: "number ''durable_usage'' d' = ?m" "number ''exposed_usage'' d' = ?x" "n_usage_seq d' = n_usage_seq d"
    "n_meters d' = n_meters d" "n_mutable d' = n_mutable d" by (simp_all add: d'_def d1_def)
  moreover have us: "fmlookup (n_usage d') = (\<lambda>q. if q \<le> ?m then None else fmlookup (n_usage d) q)" by (auto simp: d'_def d1_def)
  moreover have "usage_ok u w i P d'"
  proof -
    have m: "?n \<le> ?m" "?m \<le> ?x" using r nx by simp_all
    have "index_ok u w (newest u w (up_to ?m P)) (fmlookup (n_meters d)) ?x (\<lambda>q. if q \<le> ?m then None else fmlookup (n_usage d) q)
        (fmlookup (n_mutable d) k) k" for k
      using sp o m by (intro index_ok_reclaim [OF _ _ _ m refl, where V = "fmlookup (n_usage d)"]) (simp_all add: spool_ok_def)
    moreover have "batches_ok u w i (n_usage_seq d) (\<lambda>q. if q \<le> ?m then None else fmlookup (n_usage d) q)"
      using sp by (simp add: spool_ok_def batches_ok_def)
    moreover have "fmlookup (n_numbers d') ''exposed_usage'' \<noteq> None" using sp by (simp add: d'_def d1_def putNumber_def spool_ok_def)
    ultimately have "spool_ok u w i (newest u w (up_to ?m P)) d'"
      unfolding spool_ok_def nums us using m xs by blast
    moreover have "bytes_ok w d'" using cl(2) by (simp add: bytes_ok_def d'_def d1_def)
    moreover have "P q = fmlookup (n_usage d) q" if "?m < q" "q \<le> ?x" for q using o that by auto
    ultimately show ?thesis using o unfolding usage_ok_def nums us by (auto simp: le_max_iff_disj)
  qed
  ultimately show ?thesis by (intro exI [of _ d']) simp
qed

lemma Acknowledge_usage:
  assumes "Acknowledge w receipt s = (r, s')" and ok: "usage_ok u w (st_identity s) P (st_db s)"
  shows "usage_ok u w (st_identity s) P (st_db s') \<and> st_identity s' = st_identity s \<and> n_meters (st_db s') = n_meters (st_db s)"
proof (cases "\<exists>a. receipt = Some a \<and> \<not> AccountedSequence a > DurableSequence a")
  case True
  then obtain a where a: "receipt = Some a" and on: "on_store (acknowledge_tx w a) s = (r, s')" using assms(1) by (auto simp: Acknowledge_def)
  show ?thesis
  proof (cases "DurableSequence a \<le> number ''exposed_usage'' (st_db s)")
    case True
    from acknowledge_usage [OF ok True] on_store_cases [OF on] ok show ?thesis by (auto simp: usage_ok_faults)
  next
    case False
    then have "\<exists>e. acknowledge_tx w a (st_db s) = Inl e" by (simp add: acknowledge_tx_def not_le)
    with on_store_cases [OF on] ok show ?thesis by (auto simp: usage_ok_faults)
  qed
next
  case False
  then have "s' = s" using assms(1) by (auto simp: Acknowledge_def split: option.splits if_splits)
  then show ?thesis using ok by simp
qed

lemma AppendUsage_usage:
  assumes "AppendUsage u w cs s = (r, s')" and ok: "usage_ok u w (st_identity s) P (st_db s)"
  shows "usage_ok u w (st_identity s) P (st_db s') \<and> st_identity s' = st_identity s
    \<and> fmlookup (n_meters (st_db s')) = (if \<exists>e. r = Inl e then fmlookup (n_meters (st_db s)) else tell u w cs (fmlookup (n_meters (st_db s))))"
proof -
  let ?b = "batch_of s cs"
  have i: "of_node (st_identity s) ?b" and cs: "ub_Checkpoints ?b = cs" by (simp_all add: batch_of_def)
  have sp: "spool_ok u w (st_identity s) (newest u w (up_to (number ''durable_usage'' (st_db s)) P)) (st_db s)" using ok by (simp add: usage_ok_def)
  have on: "on_store (appendUsage u w ?b) s = (r, s')" using assms(1) by (simp add: AppendUsage_def)
  from on_store_cases [OF on] ok appendUsage_usage [OF _ ok i] appendUsage_ok(2) [OF _ sp i, unfolded cs] show ?thesis
    by (auto simp: usage_ok_faults)
qed

section \<open>Committing counters\<close>

definition saved_counter :: "string \<Rightarrow> NodeDB \<Rightarrow> CounterCheckpoint" where
  "saved_counter source d = (case fmlookup (n_counters d) source of None \<Rightarrow> empty_checkpoint | Some cp \<Rightarrow> cp)"

definition same_books :: "NodeDB \<Rightarrow> NodeDB \<Rightarrow> bool" where
  "same_books d d' \<longleftrightarrow> n_usage d' = n_usage d \<and> n_meters d' = n_meters d \<and> n_counters d' = n_counters d \<and> n_counter_digest d' = n_counter_digest d"

lemma commit_tx_cases:
  assumes "commit_tx u w s source prior encoded digest deltas d = Inr (x, d')" and ok: "usage_ok u w (st_identity s) P d"
  shows "saved_counter source d = encoded \<and> (deltas = [] \<or> fmlookup (n_counter_digest d) source = Some digest) \<and> d' = d
    \<or> saved_counter source d = prior \<and> prior \<noteq> encoded \<and> usage_ok u w (st_identity s) P d' \<and> (\<exists>cs. cumulate u w (n_meters d) deltas = Inr cs
        \<and> fmlookup (n_meters d') = tell u w cs (fmlookup (n_meters d)))
        \<and> n_counters d' = fmupd source encoded (n_counters d) \<and> n_counter_digest d' = fmupd source digest (n_counter_digest d)"
proof (cases "saved_counter source d = encoded")
  case True
  then show ?thesis using assms(1) by (auto simp: commit_tx_def saved_counter_def Let_def split: if_splits)
next
  case False
  obtain cs d1 where cs: "saved_counter source d = prior" "cumulate u w (n_meters d) deltas = Inr cs" and ch: "append_chunks u w s cs d = Inr d1"
    and d': "d' = d1\<lparr>n_counters := fmupd source encoded (n_counters d1), n_counter_digest := fmupd source digest (n_counter_digest d1)\<rparr>"
    using assms(1) False unfolding commit_tx_def saved_counter_def [symmetric] Let_def by (auto split: if_splits sum.splits)
  note a = append_chunks_usage [OF ch ok]
  have "usage_ok u w (st_identity s) P d' = usage_ok u w (st_identity s) P d1" by (simp add: usage_ok_def spool_ok_def bytes_ok_def d')
  with a have "usage_ok u w (st_identity s) P d'" by blast
  then show ?thesis using a cs False by (auto simp: d')
qed

lemma CommitCounterUsage_cases:
  assumes "CommitCounterUsage u w source previous nxt deltas s = (r, s')" and ok: "usage_ok u w (st_identity s) P (st_db s)"
  shows "st_identity s' = st_identity s \<and> usage_ok u w (st_identity s) P (st_db s') \<and>
    ((\<exists>e. r = Inl e) \<and> same_books (st_db s) (st_db s')
     \<or> (\<exists>prior encoded digest. r = Inr () \<and> encodeCheckpoint w previous = Inr prior \<and> encodeCheckpoint w nxt = Inr encoded
          \<and> deltaDigest u w deltas = Inr digest
          \<and> (saved_counter source (st_db s) = encoded \<and> (deltas = [] \<or> fmlookup (n_counter_digest (st_db s)) source = Some digest)
               \<and> same_books (st_db s) (st_db s')
             \<or> saved_counter source (st_db s) = prior \<and> prior \<noteq> encoded \<and> (\<exists>cs. cumulate u w (n_meters (st_db s)) deltas = Inr cs
               \<and> fmlookup (n_meters (st_db s')) = tell u w cs (fmlookup (n_meters (st_db s))))
               \<and> n_counters (st_db s') = fmupd source encoded (n_counters (st_db s))
               \<and> n_counter_digest (st_db s') = fmupd source digest (n_counter_digest (st_db s)))))"
proof (cases "\<exists>prior encoded digest. encodeCheckpoint w previous = Inr prior \<and> encodeCheckpoint w nxt = Inr encoded
    \<and> deltaDigest u w deltas = Inr digest \<and> \<not> (\<not> validCounterSource source \<or> length deltas > 131072)")
  case False
  then have "s' = s \<and> (\<exists>e. r = Inl e)" using assms(1) by (auto simp: CommitCounterUsage_def split: if_splits sum.splits)
  then show ?thesis using ok by (simp add: same_books_def)
next
  case True
  then obtain prior encoded digest where en: "encodeCheckpoint w previous = Inr prior" "encodeCheckpoint w nxt = Inr encoded"
    "deltaDigest u w deltas = Inr digest" and g: "\<not> (\<not> validCounterSource source \<or> length deltas > 131072)" by blast
  have on: "on_store (commit_tx u w s source prior encoded digest deltas) s = (r, s')"
    using assms(1) en g by (simp add: CommitCounterUsage_def)
  note c = on_store_cases [OF on]
  show ?thesis
  proof (cases r)
    case (Inl e)
    then show ?thesis using c ok by (auto simp: usage_ok_faults same_books_def)
  next
    case (Inr x)
    then obtain d1 fs where d1: "commit_tx u w s source prior encoded digest deltas (st_db s) = Inr (x, d1)" "st_db s' = d1\<lparr>n_faults := fs\<rparr>"
      using c by auto
    show ?thesis using commit_tx_cases [OF d1(1) ok] d1(2) c en Inr ok by (auto simp: usage_ok_faults same_books_def)
  qed
qed

section \<open>Runs\<close>

definition same_spool :: "NodeDB \<Rightarrow> NodeDB \<Rightarrow> bool" where
  "same_spool d d' \<longleftrightarrow> n_usage d' = n_usage d \<and> n_usage_seq d' = n_usage_seq d \<and> n_meters d' = n_meters d \<and> n_mutable d' = n_mutable d
     \<and> n_counters d' = n_counters d \<and> n_counter_digest d' = n_counter_digest d
     \<and> (\<forall>k \<in> {''exposed_usage'', ''durable_usage'', ''spooled_bytes''}. fmlookup (n_numbers d') k = fmlookup (n_numbers d) k)"

text \<open>The operations in any order and with any commit failing, the process restarting in between, and the batches that were handed out.\<close>

inductive usage_step :: "'u uuid_lib \<Rightarrow> wire_lib \<Rightarrow> NodeStore \<times> queue \<Rightarrow> NodeStore \<times> queue \<Rightarrow> bool" for u w where
  appends: "AppendUsage u w cs s = (r, s') \<Longrightarrow> usage_step u w (s, P) (s', P)"
| commits: "CommitCounterUsage u w source previous nxt deltas s = (r, s') \<Longrightarrow> usage_step u w (s, P) (s', P)"
| hands: "PendingUsage limit s = (Inr bs, s') \<Longrightarrow> usage_step u w (s, P) (s', P ++ handed bs)"
| hands_none: "PendingUsage limit s = (Inl e, s') \<Longrightarrow> usage_step u w (s, P) (s', P)"
| acks: "Acknowledge w receipt s = (r, s') \<Longrightarrow> usage_step u w (s, P) (s', P)"
| restarts: "Open_node u fresh (st_identity s) (st_db s) = Inr s' \<Longrightarrow> usage_step u w (s, P) (s', P)"
| elsewhere: "same_spool (st_db s) (st_db s') \<Longrightarrow> st_identity s' = st_identity s \<Longrightarrow> usage_step u w (s, P) (s', P)"

lemma same_spool_ok: "same_spool d d' \<Longrightarrow> usage_ok u w i P d' = usage_ok u w i P d"
  by (simp add: same_spool_def usage_ok_def spool_ok_def bytes_ok_def number_def)

lemma Open_same:
  assumes "Open_node u fresh i d = Inr s'" and "fmlookup (n_numbers d) ''exposed_usage'' \<noteq> None"
  shows "st_identity s' = i \<and> same_spool d (st_db s')"
proof -
  obtain r d' where tx: "update_tx (open_tx u fresh i) d = (r, d')" by fastforce
  with assms(1) obtain j where j: "r = Inr j" "s' = \<lparr>st_identity = i, st_journalID = j, st_db = d'\<rparr>"
    by (auto simp: Open_node_def split: if_splits sum.splits)
  with update_tx_cases [OF tx] obtain d1 fs where d1: "open_tx u fresh i d = Inr (j, d1)" "d' = d1\<lparr>n_faults := fs\<rparr>" by auto
  have "same_spool d d1" using d1(1) assms(2)
    by (auto simp: open_tx_def same_spool_def Let_def split: option.splits sum.splits if_splits)
  then show ?thesis using j d1(2) by (simp add: same_spool_def)
qed

definition spool_fresh :: "NodeDB \<Rightarrow> bool" where
  "spool_fresh d \<longleftrightarrow> n_usage d = fmempty \<and> n_usage_seq d = 0 \<and> n_meters d = fmempty \<and> n_mutable d = fmempty
     \<and> (\<forall>k \<in> {''exposed_usage'', ''durable_usage'', ''spooled_bytes''}. fmlookup (n_numbers d) k = None)"

lemma Open_fresh:
  assumes "Open_node u fresh i d = Inr s'" and fr: "spool_fresh d"
  shows "usage_ok u w i Map.empty (st_db s')" "st_identity s' = i" "n_meters (st_db s') = fmempty"
proof -
  obtain r d' where tx: "update_tx (open_tx u fresh i) d = (r, d')" by fastforce
  with assms(1) obtain j where j: "r = Inr j" "s' = \<lparr>st_identity = i, st_journalID = j, st_db = d'\<rparr>"
    by (auto simp: Open_node_def split: if_splits sum.splits)
  with update_tx_cases [OF tx] obtain d1 fs where d1: "open_tx u fresh i d = Inr (j, d1)" "d' = d1\<lparr>n_faults := fs\<rparr>" by auto
  have e: "n_usage d1 = fmempty \<and> n_usage_seq d1 = 0 \<and> n_meters d1 = fmempty \<and> n_mutable d1 = fmempty \<and> number ''durable_usage'' d1 = 0
      \<and> number ''spooled_bytes'' d1 = 0 \<and> fmlookup (n_numbers d1) ''exposed_usage'' = Some 0"
    using d1(1) fr
    by (auto simp: open_tx_def spool_fresh_def Let_def putNumber_def number_def split: option.splits sum.splits if_splits)
  then have x: "number ''exposed_usage'' d1 = 0" by (simp add: number_def)
  have "usage_ok u w i Map.empty d1"
    using e x by (simp add: usage_ok_def spool_ok_def bytes_ok_def batches_ok_def index_ok_def content_view newest_def spool_total_def)
  then show "usage_ok u w i Map.empty (st_db s')" "st_identity s' = i" "n_meters (st_db s') = fmempty"
    using j d1(2) e by (simp_all add: usage_ok_faults)
qed

lemma usage_step_ok:
  assumes "usage_step u w x y" and "usage_ok u w (st_identity (fst x)) (snd x) (st_db (fst x))"
  shows "usage_ok u w (st_identity (fst y)) (snd y) (st_db (fst y)) \<and> (\<forall>q b. snd x q = Some b \<longrightarrow> snd y q = Some b)"
  using assms
proof (cases rule: usage_step.cases)
  case (appends cs s r s' P)
  then show ?thesis using AppendUsage_usage [OF appends(3)] assms(2) by simp
next
  case (commits source previous nxt deltas s r s' P)
  then show ?thesis using CommitCounterUsage_cases [OF commits(3)] assms(2) by simp
next
  case (hands limit s bs s' P)
  then have "usage_ok u w (st_identity s) P (st_db s)" using assms(2) by simp
  from PendingUsage_usage [OF hands(3) this] hands(1,2) show ?thesis by simp
next
  case (hands_none limit s e s' P)
  then show ?thesis using PendingUsage_fails [OF hands_none(3)] assms(2) by (auto simp: usage_ok_faults)
next
  case (acks receipt s r s' P)
  then have "usage_ok u w (st_identity s) P (st_db s)" using assms(2) by simp
  from Acknowledge_usage [OF acks(3) this] acks(1,2) show ?thesis by simp
next
  case (restarts fresh s s' P)
  have "fmlookup (n_numbers (st_db s)) ''exposed_usage'' \<noteq> None" using assms(2) restarts by (simp add: usage_ok_def spool_ok_def)
  from Open_same [OF restarts(3) this] same_spool_ok [of "st_db s" "st_db s'" u w "st_identity s" P] assms(2) restarts show ?thesis by simp
next
  case (elsewhere s s' P)
  from same_spool_ok [OF elsewhere(3), of u w "st_identity s" P] assms(2) elsewhere show ?thesis by simp
qed

lemma usage_run_ok:
  assumes "(usage_step u w)\<^sup>*\<^sup>* x y" and "usage_ok u w (st_identity (fst x)) (snd x) (st_db (fst x))"
  shows "usage_ok u w (st_identity (fst y)) (snd y) (st_db (fst y)) \<and> (\<forall>q b. snd x q = Some b \<longrightarrow> snd y q = Some b)"
  using assms by (induction rule: rtranclp_induct) (auto dest: usage_step_ok)

text \<open>C29 The spool implements a table of the last checkpoint of every meter. Through any run of the operations, failing
  commits and restarts included, the batches the control plane holds as durable followed by those that still wait name
  exactly the saved checkpoint of every meter; appending overwrites the meters it names or fails without effect,
  handing out and acknowledging change nothing of the table, and when nothing waits the control plane holds it whole.\<close>

theorem usage_log_refines:
  assumes "Open_node u fresh i d0 = Inr s0" and "spool_fresh d0" and "(usage_step u w)\<^sup>*\<^sup>* (s0, Map.empty) (s, P)"
  shows "newest u w (log_view P (st_db s)) = fmlookup (n_meters (st_db s))
    \<and> (\<forall>cs r s'. AppendUsage u w cs s = (r, s') \<longrightarrow> newest u w (log_view P (st_db s')) =
         (if \<exists>e. r = Inl e then newest u w (log_view P (st_db s)) else tell u w cs (newest u w (log_view P (st_db s)))))
    \<and> (\<forall>limit bs s'. PendingUsage limit s = (Inr bs, s') \<longrightarrow>
         newest u w (log_view (P ++ handed bs) (st_db s')) = newest u w (log_view P (st_db s)))
    \<and> (\<forall>receipt r s'. Acknowledge w receipt s = (r, s') \<longrightarrow> newest u w (log_view P (st_db s')) = newest u w (log_view P (st_db s)))
    \<and> (n_usage (st_db s) = fmempty \<longrightarrow> newest u w P = fmlookup (n_meters (st_db s)))"
proof -
  have ok: "usage_ok u w (st_identity s) P (st_db s)"
    using usage_run_ok [OF assms(3)] Open_fresh(1,2) [OF assms(1,2)] by simp
  note base = newest_log [OF ok]
  have "newest u w (log_view P (st_db s')) =
         (if \<exists>e. r = Inl e then newest u w (log_view P (st_db s)) else tell u w cs (newest u w (log_view P (st_db s))))"
    if "AppendUsage u w cs s = (r, s')" for cs r s'
    using AppendUsage_usage [OF that ok] base newest_log [of u w "st_identity s" P "st_db s'"] by simp
  moreover have "newest u w (log_view (P ++ handed bs) (st_db s')) = newest u w (log_view P (st_db s))"
    if "PendingUsage limit s = (Inr bs, s')" for limit bs s'
    using PendingUsage_usage [OF that ok] base newest_log [of u w "st_identity s" "P ++ handed bs" "st_db s'"] by simp
  moreover have "newest u w (log_view P (st_db s')) = newest u w (log_view P (st_db s))"
    if "Acknowledge w receipt s = (r, s')" for receipt r s'
    using Acknowledge_usage [OF that ok] base newest_log [of u w "st_identity s" P "st_db s'"] by simp
  moreover have "log_view P (st_db s) = P" if "n_usage (st_db s) = fmempty"
  proof
    fix q
    show "log_view P (st_db s) q = P q"
      using ok that by (cases "q \<le> number ''exposed_usage'' (st_db s)") (auto simp: log_view_def usage_ok_def not_le)
  qed
  ultimately show ?thesis using base by auto
qed

text \<open>C30 A batch that was handed out is final: from any reachable state on, whatever the node does, handing out
  never gives another batch under its number, and the bucket keeps exactly this batch until it is acknowledged.\<close>

theorem handed_batches_final:
  assumes "Open_node u fresh i d0 = Inr s0" and "spool_fresh d0" and "(usage_step u w)\<^sup>*\<^sup>* (s0, Map.empty) (s, P)"
    and "(usage_step u w)\<^sup>*\<^sup>* (s, P) (s', P')" and "P q = Some b"
  shows "P' q = Some b \<and> (number ''durable_usage'' (st_db s') < q \<longrightarrow> fmlookup (n_usage (st_db s')) q = Some b)"
proof -
  have "usage_ok u w (st_identity s) P (st_db s)" using usage_run_ok [OF assms(3)] Open_fresh(1,2) [OF assms(1,2)] by simp
  from usage_run_ok [OF assms(4)] this assms(5) have ok: "usage_ok u w (st_identity s') P' (st_db s')" and P: "P' q = Some b" by auto
  then have "q \<le> number ''exposed_usage'' (st_db s')" using ok by (auto simp: usage_ok_def intro: leI)
  then show ?thesis using ok P by (auto simp: usage_ok_def)
qed

text \<open>C31 The spool is bounded: the saved size is the sum of the sizes of the waiting batches, computed without wrap-around,
  at most 64 MiB, no batch is larger than 1 MiB, and every receipt for batches that were handed out frees exactly the batches it covers.\<close>

theorem spool_bounded:
  assumes "Open_node u fresh i d0 = Inr s0" and "spool_fresh d0" and "(usage_step u w)\<^sup>*\<^sup>* (s0, Map.empty) (s, P)"
  shows "unat (number ''spooled_bytes'' (st_db s)) = spool_total w (n_usage (st_db s)) \<and> spool_total w (n_usage (st_db s)) \<le> 67108864
    \<and> (\<forall>q b. fmlookup (n_usage (st_db s)) q = Some b \<longrightarrow> size_batch w b \<le> 1048576)
    \<and> (\<forall>r. DurableSequence r \<le> number ''exposed_usage'' (st_db s) \<longrightarrow> (\<exists>d'. acknowledge_tx w r (st_db s) = Inr ((), d')
         \<and> (\<forall>q. fmlookup (n_usage d') q = (if q \<le> DurableSequence r then None else fmlookup (n_usage (st_db s)) q))))"
proof -
  have ok: "usage_ok u w (st_identity s) P (st_db s)" using usage_run_ok [OF assms(3)] Open_fresh(1,2) [OF assms(1,2)] by simp
  then have sz: "bytes_ok w (st_db s)" by (simp add: usage_ok_def)
  then have "unat (number ''spooled_bytes'' (st_db s)) \<le> 67108864" by (simp add: bytes_ok_def MaxSpoolBytes_def word_le_nat_alt)
  moreover have "\<exists>d'. acknowledge_tx w r (st_db s) = Inr ((), d')
         \<and> (\<forall>q. fmlookup (n_usage d') q = (if q \<le> DurableSequence r then None else fmlookup (n_usage (st_db s)) q))"
    if r: "DurableSequence r \<le> number ''exposed_usage'' (st_db s)" for r
  proof -
    from acknowledge_usage [OF ok r] obtain d' where d': "acknowledge_tx w r (st_db s) = Inr ((), d')"
      "number ''durable_usage'' d' = max (DurableSequence r) (number ''durable_usage'' (st_db s))"
      "\<And>q. fmlookup (n_usage d') q = (if q \<le> number ''durable_usage'' d' then None else fmlookup (n_usage (st_db s)) q)" by blast
    have "fmlookup (n_usage d') q = (if q \<le> DurableSequence r then None else fmlookup (n_usage (st_db s)) q)" for q
      unfolding d'(3) d'(2) using ok by (auto simp: usage_ok_def le_max_iff_disj)
    with d'(1) show ?thesis by blast
  qed
  ultimately show ?thesis using sz by (auto simp: bytes_ok_def MaxBatchBytes_def)
qed

section \<open>Examples\<close>

definition sample_usage :: "u64 \<Rightarrow> UsageCheckpoint" where
  "sample_usage n = \<lparr>uc_ClientId = ''c'', uc_TermId = ''t'', uc_MeterId = ''m'', uc_Incarnation = ''x'', uc_Uploaded = n, uc_Downloaded = 2 * n,
     uc_Observed = 1, uc_GrantId = ''g''\<rparr>"

definition metered_node :: NodeStore where
  "metered_node = snd (AppendUsage plain_uuid sample_wire [Some (sample_usage 5)] sample_node)"

definition frozen_node :: NodeStore where
  "frozen_node = snd (PendingUsage 1 metered_node)"

definition sample_usage_batch :: UsageBatch where
  "sample_usage_batch = \<lparr>ub_NodeId = ''n'', ub_InstallationId = ''i'', ub_Sequence = 1, ub_Checkpoints = [Some (sample_usage 5)]\<rparr>"

lemma sample_key: "meterKey plain_uuid sample_wire (Some (sample_usage n)) = Inr ''g,c,t,m,x,''"
  by (simp add: meterKey_def sample_usage_def sample_wire_def)

lemma sample_sizes: "size_checkpoint sample_wire c = 10" "size_batch sample_wire b = 4 + 12 * length (ub_Checkpoints b)"
  by (simp_all add: sample_wire_def)

lemma entries_single: "entries_by_key (fmupd k v fmempty) = [(k, v)]"
  by (simp add: entries_by_key_def sorted_list_of_fset.rep_eq)

lemma fmmap_upd: "fmmap f (fmupd k v m) = fmupd k (f v) (fmmap f m)"
  by (rule fmap_ext) simp

lemma metered_eq: "AppendUsage plain_uuid sample_wire [Some (sample_usage 5)] sample_node = (Inr 1, sample_node\<lparr>st_db := (st_db sample_node)
    \<lparr>n_numbers := fmupd ''spooled_bytes'' 16 (fmupd ''exposed_usage'' 0 fmempty), n_usage := fmupd 1 sample_usage_batch fmempty, n_usage_seq := 1,
      n_meters := fmupd ''g,c,t,m,x,'' (sample_usage 5) fmempty, n_mutable := fmupd ''g,c,t,m,x,'' 1 fmempty\<rparr>\<rparr>)"
  by (simp add: AppendUsage_def on_store_def update_tx_def appendUsage_def batch_of_def queueUsage_def sample_key Let_def
      append_checkpoint_def tail_edit_def newBatch_def spool_edits_def entries_single sum_u64_def
      sample_node_def sample_identity_def empty_node_def number_def putNumber_def sample_usage_batch_def checkpointSize_def sample_sizes fmmap_upd
      MaxBatchBytes_def MaxSpoolBytes_def)

lemma metered_val: "metered_node = sample_node\<lparr>st_db := (st_db sample_node)
    \<lparr>n_numbers := fmupd ''spooled_bytes'' 16 (fmupd ''exposed_usage'' 0 fmempty), n_usage := fmupd 1 sample_usage_batch fmempty, n_usage_seq := 1,
      n_meters := fmupd ''g,c,t,m,x,'' (sample_usage 5) fmempty, n_mutable := fmupd ''g,c,t,m,x,'' 1 fmempty\<rparr>\<rparr>"
  by (simp add: metered_node_def metered_eq)

lemma AppendUsage_durable:
  assumes "AppendUsage u w cs s = (r, s')" and ok: "usage_ok u w (st_identity s) P (st_db s)"
  shows "number ''durable_usage'' (st_db s') = number ''durable_usage'' (st_db s)"
proof -
  have sp: "spool_ok u w (st_identity s) (newest u w (up_to (number ''durable_usage'' (st_db s)) P)) (st_db s)" using ok by (simp add: usage_ok_def)
  have i: "of_node (st_identity s) (batch_of s cs)" by (simp add: batch_of_def)
  from on_store_cases [OF assms(1) [unfolded AppendUsage_def]] appendUsage_ok(8) [OF _ sp i] show ?thesis by auto
qed

lemma frozen_eq: "PendingUsage 1 metered_node = (Inr [sample_usage_batch], metered_node\<lparr>st_db := putNumber ''exposed_usage'' 1 (st_db metered_node)\<rparr>)"
  by (simp add: PendingUsage_def metered_val read_pending_def entries_single sample_usage_batch_def sample_node_def sample_identity_def
      number_def on_store_def update_tx_def freeze_tx_def Let_def empty_node_def putNumber_def)

lemma sample_fresh: "spool_fresh empty_node"
  by (simp add: spool_fresh_def empty_node_def)

lemma metered_run: "(usage_step plain_uuid sample_wire)\<^sup>*\<^sup>* (sample_node, Map.empty) (metered_node, Map.empty)"
  unfolding metered_node_def by (rule r_into_rtranclp, rule appends, rule prod.collapse [symmetric])

lemma frozen_step: "usage_step plain_uuid sample_wire (metered_node, Map.empty) (frozen_node, Map.empty ++ handed [sample_usage_batch])"
  unfolding frozen_node_def by (rule hands [of 1]) (simp add: frozen_eq)

lemma frozen_run: "(usage_step plain_uuid sample_wire)\<^sup>*\<^sup>* (sample_node, Map.empty) (frozen_node, handed [sample_usage_batch])"
  using metered_run frozen_step by simp

theorem usage_log_refines_witness:
  "newest plain_uuid sample_wire (log_view Map.empty (st_db metered_node)) ''g,c,t,m,x,'' = Some (sample_usage 5)"
  using usage_log_refines [OF Open_node_empty sample_fresh metered_run] by (simp add: metered_val)

theorem handed_batches_final_witness:
  "fmlookup (n_usage (st_db (snd (AppendUsage plain_uuid sample_wire [Some (sample_usage 9)] frozen_node)))) 1 = Some sample_usage_batch"
proof -
  let ?s = "snd (AppendUsage plain_uuid sample_wire [Some (sample_usage 9)] frozen_node)"
  have st: "(usage_step plain_uuid sample_wire)\<^sup>*\<^sup>* (frozen_node, handed [sample_usage_batch]) (?s, handed [sample_usage_batch])"
    by (rule r_into_rtranclp, rule appends, rule prod.collapse [symmetric])
  have P: "handed [sample_usage_batch] 1 = Some sample_usage_batch" by (simp add: handed_def sample_usage_batch_def)
  have "number ''durable_usage'' (st_db ?s) = 0"
  proof -
    have "number ''durable_usage'' (st_db metered_node) = 0" by (simp add: metered_val sample_node_def empty_node_def number_def)
    then have n: "number ''durable_usage'' (st_db frozen_node) = 0" by (simp add: frozen_node_def frozen_eq)
    have "usage_ok plain_uuid sample_wire (st_identity frozen_node) (handed [sample_usage_batch]) (st_db frozen_node)"
      using usage_run_ok [OF frozen_run] Open_fresh(1,2) [OF Open_node_empty sample_fresh] by simp
    from AppendUsage_durable [OF prod.collapse [symmetric] this, of "[Some (sample_usage 9)]"] n show ?thesis by simp
  qed
  then show ?thesis using handed_batches_final [OF Open_node_empty sample_fresh frozen_run st P] by simp
qed

theorem spool_bounded_witness:
  "unat (number ''spooled_bytes'' (st_db metered_node)) = spool_total sample_wire (n_usage (st_db metered_node))
    \<and> spool_total sample_wire (n_usage (st_db metered_node)) = 16"
proof -
  have "number ''spooled_bytes'' (st_db metered_node) = 16" by (simp add: metered_val number_def)
  then show ?thesis using spool_bounded [OF Open_node_empty sample_fresh metered_run] by simp
qed

section \<open>A committed delta is counted once\<close>

text \<open>A checkpoint with valid identifiers is far smaller than the bound \<open>meterKey\<close> sets: four identifiers of 36 bytes, a name of at most 128 and three integers.\<close>

definition small_checkpoints :: "'u uuid_lib \<Rightarrow> wire_lib \<Rightarrow> bool" where
  "small_checkpoints u w \<longleftrightarrow> (\<forall>c. ValidID u (uc_GrantId c) \<and> ValidID u (uc_ClientId c) \<and> ValidID u (uc_TermId c) \<and> ValidID u (uc_Incarnation c)
     \<and> length (uc_MeterId c) \<le> 128 \<longrightarrow> size_checkpoint w c \<le> 4096)"

text \<open>What a table of meters says of a meter, and what a list of deltas adds to it.\<close>

definition used :: "(UsageCheckpoint \<Rightarrow> u64) \<Rightarrow> (string \<Rightarrow> UsageCheckpoint option) \<Rightarrow> string \<Rightarrow> nat" where
  "used f M k = (case M k of None \<Rightarrow> 0 | Some c \<Rightarrow> unat (f c))"

definition moved :: "'u uuid_lib \<Rightarrow> wire_lib \<Rightarrow> (MeterDelta \<Rightarrow> u64) \<Rightarrow> MeterDelta list \<Rightarrow> string \<Rightarrow> nat" where
  "moved u w f xs k = sum_list (map (\<lambda>x. unat (f x)) (filter (\<lambda>x. meterKey u w (md_Identity x) = Inr k) xs))"

lemma meterKey_totals:
  assumes "small_checkpoints u w" and "meterKey u w (Some i) = Inr k" and "t > 0"
  shows "meterKey u w (Some (i\<lparr>uc_Observed := t, uc_Uploaded := a, uc_Downloaded := b\<rparr>)) = Inr k"
  using assms by (auto simp: meterKey_def small_checkpoints_def not_less split: if_splits)

lemma meterKey_observed: "meterKey u w (Some i) = Inr k \<Longrightarrow> uc_Observed i > 0"
  by (auto simp: meterKey_def split: if_splits)

lemma delta_checkpoints_keys:
  assumes "small_checkpoints u w" and "delta_checkpoints u w xs = Inr cs"
  shows "(\<forall>x \<in> set xs. \<exists>k. meterKey u w (md_Identity x) = Inr k) \<and> map (sort_meter u w) cs = map (\<lambda>x. sort_meter u w (md_Identity x)) xs"
  using assms(2)
proof (induction xs arbitrary: cs)
  case (Cons x xs)
  then obtain k ds where k: "meterKey u w (md_Identity x) = Inr k" and ds: "delta_checkpoints u w xs = Inr ds"
    and cs: "cs = Some ((the (md_Identity x))\<lparr>uc_Observed := 1, uc_Uploaded := md_Uploaded x, uc_Downloaded := md_Downloaded x\<rparr>) # ds"
    by (auto simp: Let_def split: sum.splits if_splits)
  obtain i where i: "md_Identity x = Some i" using k by (cases "md_Identity x") auto
  show ?case using Cons.IH [OF ds] k i cs meterKey_totals [OF assms(1), of i k 1] by (simp add: sort_meter_def)
qed simp

lemma sorted_distinct_adjacent: "sorted xs \<Longrightarrow> \<not> adjacent_equal xs \<Longrightarrow> distinct (xs :: 'a::linorder list)"
proof (induction xs rule: adjacent_equal.induct)
  case (1 x y zs)
  then have "x < y" by auto
  with 1 show ?case by (auto simp: less_le)
qed auto

lemma digest_distinct:
  assumes "small_checkpoints u w" and "deltaDigest u w xs = Inr g"
  shows "(\<forall>x \<in> set xs. \<exists>k. meterKey u w (md_Identity x) = Inr k) \<and> distinct (map (\<lambda>x. meterKey u w (md_Identity x)) xs)"
proof -
  obtain cs where cs: "delta_checkpoints u w xs = Inr cs" and na: "\<not> adjacent_equal (map (sort_meter u w) (sort_key (sort_meter u w) cs))"
    using assms(2) by (auto simp: deltaDigest_def Let_def split: sum.splits if_splits)
  have "distinct (map (sort_meter u w) (sort_key (sort_meter u w) cs))" using na sorted_distinct_adjacent sorted_sort_key by blast
  then have "distinct (map (sort_meter u w) cs)" by (metis mset_eq_imp_distinct_iff mset_map mset_sort)
  then have d: "distinct (map (\<lambda>x. sort_meter u w (md_Identity x)) xs)" and k: "\<forall>x \<in> set xs. \<exists>k. meterKey u w (md_Identity x) = Inr k"
    using delta_checkpoints_keys [OF assms(1) cs] by simp_all
  have "distinct (map (\<lambda>x. meterKey u w (md_Identity x)) xs)"
    using d by (auto simp: distinct_map inj_on_def sort_meter_def)
  with k show ?thesis by blast
qed

lemma no_wrap: "\<not> d > maxUint64 - p \<Longrightarrow> unat (p + d) = unat p + unat d" for p d :: u64
proof -
  assume "\<not> d > maxUint64 - p"
  then have "unat d \<le> unat (maxUint64 - p)" by (simp add: word_le_nat_alt not_less)
  moreover have "unat (maxUint64 - p) = 18446744073709551615 - unat p" by (simp add: maxUint64_def unat_sub unsigned_minus_1_eq_mask mask_eq_exp_minus_1)
  moreover have "unat p < 2 ^ 64" using unsigned_less [where w = p, where 'a = nat] by simp
  ultimately show ?thesis by (simp add: unat_word_ariths)
qed

lemma cumulate_tell:
  assumes sm: "small_checkpoints u w" and "cumulate u w m xs = Inr cs" and "distinct (map (\<lambda>x. meterKey u w (md_Identity x)) xs)"
    and "\<And>x k. x \<in> set xs \<Longrightarrow> meterKey u w (md_Identity x) = Inr k \<Longrightarrow> M k = fmlookup m k"
  shows "used uc_Uploaded (tell u w cs M) k = used uc_Uploaded M k + moved u w md_Uploaded xs k
    \<and> used uc_Downloaded (tell u w cs M) k = used uc_Downloaded M k + moved u w md_Downloaded xs k"
  using assms(2-4)
proof (induction xs arbitrary: cs M)
  case (Cons x xs)
  let ?i = "the (md_Identity x)"
  obtain j where j: "meterKey u w (md_Identity x) = Inr j" using Cons.prems(1) by (auto split: sum.splits)
  define c where "c = (case fmlookup m j of None \<Rightarrow> ?i | Some p \<Rightarrow> ?i\<lparr>uc_Uploaded := uc_Uploaded p, uc_Downloaded := uc_Downloaded p\<rparr>)"
  obtain ds where z: "uc_Uploaded ?i = 0" "uc_Downloaded ?i = 0" and g: "\<not> md_Uploaded x > maxUint64 - uc_Uploaded c" "\<not> md_Downloaded x > maxUint64 - uc_Downloaded c"
    and ds: "cumulate u w m xs = Inr ds"
    and cs: "cs = Some (c\<lparr>uc_Uploaded := uc_Uploaded c + md_Uploaded x, uc_Downloaded := uc_Downloaded c + md_Downloaded x\<rparr>) # ds"
    using Cons.prems(1) j by (auto simp: Let_def c_def split: sum.splits if_splits)
  let ?c = "c\<lparr>uc_Uploaded := uc_Uploaded c + md_Uploaded x, uc_Downloaded := uc_Downloaded c + md_Downloaded x\<rparr>"
  have i: "md_Identity x = Some ?i" using j by (cases "md_Identity x") auto
  have "?c = ?i\<lparr>uc_Observed := uc_Observed ?i, uc_Uploaded := uc_Uploaded ?c, uc_Downloaded := uc_Downloaded ?c\<rparr>"
    by (simp add: c_def split: option.splits)
  then have kc: "meterKey u w (Some ?c) = Inr j"
    using meterKey_totals [OF sm, of ?i j "uc_Observed ?i"] meterKey_observed [of u w ?i j] i j by metis
  have M: "used uc_Uploaded M j = unat (uc_Uploaded c)" "used uc_Downloaded M j = unat (uc_Downloaded c)"
    using Cons.prems(3) [of x j] j z by (simp_all add: used_def c_def split: option.splits)
  have fresh: "Inr j \<notin> (\<lambda>x. meterKey u w (md_Identity x)) ` set xs" using Cons.prems(2) j by simp
  then have none: "moved u w f xs j = 0" for f by (force simp: moved_def filter_empty_conv)
  have agree: "(M(j := Some ?c)) l = fmlookup m l" if "y \<in> set xs" "meterKey u w (md_Identity y) = Inr l" for y l
    using that fresh Cons.prems(3) [of y l] by (metis (no_types, lifting) fun_upd_other image_eqI list.set_intros(2))
  have IH: "used uc_Uploaded (tell u w ds (M(j := Some ?c))) k = used uc_Uploaded (M(j := Some ?c)) k + moved u w md_Uploaded xs k
    \<and> used uc_Downloaded (tell u w ds (M(j := Some ?c))) k = used uc_Downloaded (M(j := Some ?c)) k + moved u w md_Downloaded xs k"
    using Cons.prems(2) by (intro Cons.IH [OF ds] agree) simp_all
  have t: "tell u w cs M = tell u w ds (M(j := Some ?c))" using kc by (simp add: cs fun_upd_def)
  have mv: "moved u w f (x # xs) k = (if k = j then unat (f x) else 0) + moved u w f xs k" for f using j by (auto simp: moved_def)
  have us: "used f (M(j := Some ?c)) l = (if l = j then unat (f ?c) else used f M l)" for f l by (simp add: used_def)
  show ?case unfolding t mv using IH none M no_wrap [OF g(1)] no_wrap [OF g(2)] by (cases "k = j") (simp_all add: us)
qed (simp add: moved_def)

lemma commit_retry:
  assumes "CommitCounterUsage u w source previous nxt deltas s = (Inr (), s')" and ok: "usage_ok u w (st_identity s) P (st_db s)"
    and "n_faults (st_db s') = []"
  shows "CommitCounterUsage u w source previous nxt deltas s' = (Inr (), s')"
proof -
  obtain prior encoded digest where en: "encodeCheckpoint w previous = Inr prior" "encodeCheckpoint w nxt = Inr encoded" "deltaDigest u w deltas = Inr digest"
    and saved: "saved_counter source (st_db s') = encoded" "deltas = [] \<or> fmlookup (n_counter_digest (st_db s')) source = Some digest"
    using CommitCounterUsage_cases [OF assms(1) ok] by (auto simp: same_books_def saved_counter_def)
  have g: "\<not> (\<not> validCounterSource source \<or> length deltas > 131072)" using assms(1) by (auto simp: CommitCounterUsage_def split: if_splits)
  have "commit_tx u w s' source prior encoded digest deltas (st_db s') = Inr ((), st_db s')"
    using saved by (auto simp: commit_tx_def Let_def saved_counter_def)
  then show ?thesis using en g assms(3) by (simp add: CommitCounterUsage_def on_store_def update_tx_def)
qed

text \<open>C32 A commit of counter deltas is counted once. In any reachable state it either fails and changes no meter,
  counter or batch, or the counter is saved and every meter has grown by exactly what the deltas say of it, unless
  this very commit had been made before; a retry after success is accepted and changes nothing.\<close>

theorem commit_counted_once:
  assumes "Open_node u fresh i d0 = Inr s0" and "spool_fresh d0" and "(usage_step u w)\<^sup>*\<^sup>* (s0, Map.empty) (s, P)"
    and "small_checkpoints u w" and c: "CommitCounterUsage u w source previous nxt deltas s = (r, s')"
  shows "((\<exists>e. r = Inl e) \<longrightarrow> same_books (st_db s) (st_db s'))
    \<and> (r = Inr () \<longrightarrow> encodeCheckpoint w nxt = Inr (saved_counter source (st_db s'))
        \<and> (saved_counter source (st_db s) = saved_counter source (st_db s') \<longrightarrow> same_books (st_db s) (st_db s'))
        \<and> (saved_counter source (st_db s) \<noteq> saved_counter source (st_db s') \<longrightarrow>
            encodeCheckpoint w previous = Inr (saved_counter source (st_db s)) \<and>
            (\<forall>k. used uc_Uploaded (fmlookup (n_meters (st_db s'))) k = used uc_Uploaded (fmlookup (n_meters (st_db s))) k + moved u w md_Uploaded deltas k
              \<and> used uc_Downloaded (fmlookup (n_meters (st_db s'))) k = used uc_Downloaded (fmlookup (n_meters (st_db s))) k + moved u w md_Downloaded deltas k))
        \<and> (n_faults (st_db s') = [] \<longrightarrow> CommitCounterUsage u w source previous nxt deltas s' = (Inr (), s')))"
proof -
  have ok: "usage_ok u w (st_identity s) P (st_db s)" using usage_run_ok [OF assms(3)] Open_fresh(1,2) [OF assms(1,2)] by simp
  note cases = CommitCounterUsage_cases [OF c ok]
  show ?thesis
  proof (cases r)
    case (Inl e)
    then show ?thesis using cases by auto
  next
    case (Inr x)
    then obtain prior encoded digest where en: "encodeCheckpoint w previous = Inr prior" "encodeCheckpoint w nxt = Inr encoded" "deltaDigest u w deltas = Inr digest"
      and arms: "saved_counter source (st_db s) = encoded \<and> same_books (st_db s) (st_db s')
        \<or> saved_counter source (st_db s) = prior \<and> prior \<noteq> encoded \<and> (\<exists>cs. cumulate u w (n_meters (st_db s)) deltas = Inr cs
               \<and> fmlookup (n_meters (st_db s')) = tell u w cs (fmlookup (n_meters (st_db s))))
               \<and> n_counters (st_db s') = fmupd source encoded (n_counters (st_db s))"
      using cases by auto
    have saved: "saved_counter source (st_db s') = encoded" using arms by (auto simp: saved_counter_def same_books_def)
    have "used uc_Uploaded (fmlookup (n_meters (st_db s'))) k = used uc_Uploaded (fmlookup (n_meters (st_db s))) k + moved u w md_Uploaded deltas k
        \<and> used uc_Downloaded (fmlookup (n_meters (st_db s'))) k = used uc_Downloaded (fmlookup (n_meters (st_db s))) k + moved u w md_Downloaded deltas k"
      if ne: "saved_counter source (st_db s) \<noteq> encoded" for k
    proof -
      obtain cs where cs: "cumulate u w (n_meters (st_db s)) deltas = Inr cs" "fmlookup (n_meters (st_db s')) = tell u w cs (fmlookup (n_meters (st_db s)))"
        using arms ne by blast
      show ?thesis unfolding cs(2) using digest_distinct [OF assms(4) en(3)] by (intro cumulate_tell [OF assms(4) cs(1)]) auto
    qed
    moreover have "n_faults (st_db s') = [] \<longrightarrow> CommitCounterUsage u w source previous nxt deltas s' = (Inr (), s')"
      using commit_retry [of u w source previous nxt deltas s s' P] c ok Inr by auto
    ultimately show ?thesis using Inr saved en arms by auto
  qed
qed

definition primed_checkpoint :: CounterCheckpoint where
  "primed_checkpoint = \<lparr>cp_Epoch = ''e'', cp_Primed = True, cp_Last = fmempty, cp_Absent = fmempty\<rparr>"

definition sample_delta :: MeterDelta where
  "sample_delta = \<lparr>md_Identity = Some (sample_usage 0), md_Uploaded = 5, md_Downloaded = 10\<rparr>"

lemma metered_append: "appendUsage plain_uuid sample_wire (batch_of sample_node [Some (sample_usage 5)]) (st_db sample_node) = Inr (1, st_db metered_node)"
proof -
  let ?f = "appendUsage plain_uuid sample_wire (batch_of sample_node [Some (sample_usage 5)])"
  have nf: "n_faults (st_db sample_node) = []" by (simp add: sample_node_def empty_node_def)
  have f: "fst (on_store ?f sample_node) = Inr 1" and m: "metered_node = snd (on_store ?f sample_node)"
    using metered_eq by (simp_all add: metered_node_def AppendUsage_def)
  obtain x where x: "?f (st_db sample_node) = Inr x" using f nf by (cases "?f (st_db sample_node)") (simp_all add: on_store_def update_tx_def)
  then have "st_db metered_node = snd x" "fst x = 1" using f arg_cong [OF m, of st_db] nf by (cases x; simp add: on_store_def update_tx_def)+
  then show ?thesis using x by (cases x) simp
qed

lemma sample_commit:
  "CommitCounterUsage plain_uuid sample_wire ''x'' empty_checkpoint primed_checkpoint [sample_delta] sample_node
    = (Inr (), sample_node\<lparr>st_db := (st_db metered_node)\<lparr>n_counters := fmupd ''x'' primed_checkpoint fmempty, n_counter_digest := fmupd ''x'' [] fmempty\<rparr>\<rparr>)"
proof -
  have en: "encodeCheckpoint sample_wire empty_checkpoint = Inr empty_checkpoint" "encodeCheckpoint sample_wire primed_checkpoint = Inr primed_checkpoint"
    by (simp_all add: encodeCheckpoint_def empty_checkpoint_def primed_checkpoint_def CounterFromCheckpoint_def checkpoint_def sample_wire_def
        MaxDeploymentBytes_def Let_def)
  have dg: "deltaDigest plain_uuid sample_wire [sample_delta] = Inr []"
    by (simp add: deltaDigest_def sample_delta_def sample_key Let_def sample_usage_def sample_wire_def MaxDeploymentBytes_def meterKey_def)
  have cu: "cumulate plain_uuid sample_wire (n_meters (st_db sample_node)) [sample_delta] = Inr [Some (sample_usage 5)]"
    by (simp add: sample_delta_def sample_key sample_node_def empty_node_def Let_def maxUint64_def) (simp add: sample_usage_def)
  have ch: "append_chunks plain_uuid sample_wire sample_node [Some (sample_usage 5)] (st_db sample_node) = Inr (st_db metered_node)"
    by (simp add: append_chunks.simps metered_append)
  have "saved_counter ''x'' (st_db sample_node) = empty_checkpoint" "empty_checkpoint \<noteq> primed_checkpoint"
    by (simp_all add: saved_counter_def sample_node_def empty_node_def empty_checkpoint_def primed_checkpoint_def)
  then have "commit_tx plain_uuid sample_wire sample_node ''x'' empty_checkpoint primed_checkpoint [] [sample_delta] (st_db sample_node)
    = Inr ((), (st_db metered_node)\<lparr>n_counters := fmupd ''x'' primed_checkpoint (n_counters (st_db metered_node)),
        n_counter_digest := fmupd ''x'' [] (n_counter_digest (st_db metered_node))\<rparr>)"
    unfolding commit_tx_def saved_counter_def [symmetric] Let_def using cu ch by simp
  then show ?thesis using en dg
    by (simp add: CommitCounterUsage_def validCounterSource_def on_store_def update_tx_def) (simp add: metered_val sample_node_def empty_node_def)
qed

theorem commit_counted_once_witness:
  "small_checkpoints plain_uuid sample_wire \<and>
   used uc_Uploaded (fmlookup (n_meters (st_db (snd (CommitCounterUsage plain_uuid sample_wire ''x'' empty_checkpoint primed_checkpoint [sample_delta] sample_node))))) ''g,c,t,m,x,''
     = 5"
proof -
  have sm: "small_checkpoints plain_uuid sample_wire" by (simp add: small_checkpoints_def sample_wire_def)
  have mv: "moved plain_uuid sample_wire md_Uploaded [sample_delta] ''g,c,t,m,x,'' = 5" by (simp add: moved_def sample_delta_def sample_key)
  have st: "(usage_step plain_uuid sample_wire)\<^sup>*\<^sup>* (sample_node, Map.empty) (sample_node, Map.empty)" by simp
  have ne: "saved_counter ''x'' (st_db sample_node) \<noteq> primed_checkpoint"
    by (simp add: saved_counter_def sample_node_def empty_node_def empty_checkpoint_def primed_checkpoint_def)
  have zero: "used uc_Uploaded (fmlookup (n_meters (st_db sample_node))) ''g,c,t,m,x,'' = 0" by (simp add: used_def sample_node_def empty_node_def)
  show ?thesis using commit_counted_once [OF Open_node_empty sample_fresh st sm sample_commit] sm mv ne zero
    by (auto simp: sample_commit saved_counter_def)
qed

end
