(* ===== verification/NodeAuthority.thy ===== *)
theory NodeAuthority
  imports NodeState
begin

text \<open>
  The authority half of \<open>internal/node/state\<close>: reports of what the grants of a runtime have
  reserved and spent, one in flight at a time (\<open>authority.go\<close>), and the authority updates a
  runtime has been asked to apply on a deployment (\<open>authority_intent.go\<close>).
\<close>

section \<open>Reports\<close>

record AuthorityReceipt =
  rc_RuntimeId :: string
  rc_StateJournalId :: string
  rc_CreditJournalId :: string
  rc_Sequence :: u64

definition AuthorityCursor :: "'u uuid_lib \<Rightarrow> NodeStore \<Rightarrow> string result" where
  "AuthorityCursor u s = (let cursor = n_cursor (st_db s)
     in if cursor \<noteq> '''' \<and> \<not> ValidID u cursor then Inl ErrReport else Inr cursor)"

definition decodeAuthority :: "'u uuid_lib \<Rightarrow> wire_lib \<Rightarrow> AuthorityReport option \<Rightarrow> AuthorityReport option result" where
  "decodeAuthority u w data = (case data of None \<Rightarrow> Inr None | Some r \<Rightarrow>
     if size_report w r > MaxBatchBytes \<or> ValidateReport u (Some r) False \<noteq> None then Inl ErrReport else Inr (Some r))"

definition PendingAuthority :: "'u uuid_lib \<Rightarrow> wire_lib \<Rightarrow> NodeStore \<Rightarrow> AuthorityReport option result" where
  "PendingAuthority u w s = (case decodeAuthority u w (n_pending (st_db s)) of
      Inl err \<Rightarrow> Inl err
    | Inr None \<Rightarrow> Inr None
    | Inr (Some r) \<Rightarrow>
        if ar_NodeId r \<noteq> id_Node (st_identity s) \<or> ar_InstallationId r \<noteq> id_Installation (st_identity s)
           \<or> ar_StateJournalId r \<noteq> st_journalID s then Inl ErrIdentity
        else Inr (Some r))"

text \<open>The loop of \<open>CaptureAuthority\<close> over the grants of the page; \<open>prev\<close> is the ID before.\<close>

fun capture_check :: "'u uuid_lib \<Rightarrow> string option \<Rightarrow> AuthGrant list \<Rightarrow> bool" where
  "capture_check u prev [] = True"
| "capture_check u prev (g # gs) =
     (\<not> (ValidateGrant u (Some g) \<noteq> None \<or> (case prev of None \<Rightarrow> False | Some p \<Rightarrow> p \<ge> GrantID g))
      \<and> capture_check u (Some (GrantID g)) gs)"

definition report_due :: "bool \<Rightarrow> int \<Rightarrow> AuthGrant list \<Rightarrow> NodeDB \<Rightarrow> bool" where
  "report_due ready at_ms delta d =
     (let reported = i64 (uint (number ''authority_reported_at'' d))
      in \<not> (delta = [] \<and> ready = n_ready d \<and> reported > 0 \<and> at_ms \<ge> reported \<and> at_ms - reported < 10000))"

definition new_report :: "NodeStore \<Rightarrow> RuntimeJournal \<Rightarrow> u64 \<Rightarrow> int \<Rightarrow> bool \<Rightarrow> AuthGrant list \<Rightarrow> AuthorityReport" where
  "new_report s j sq at_ms ready delta = \<lparr>ar_NodeId = id_Node (st_identity s), ar_InstallationId = id_Installation (st_identity s),
     ar_AgentStateJournalId = '''', ar_RuntimeId = RuntimeId j, ar_StateJournalId = st_journalID s, ar_CreditJournalId = CreditJournalId j,
     Sequence = sq, ObservedUnixMilli = at_ms, RuntimeReady = ready, ar_Grants = map Some delta\<rparr>"

definition capture_tx :: "'u uuid_lib \<Rightarrow> wire_lib \<Rightarrow> NodeStore \<Rightarrow> RuntimeJournal \<Rightarrow> Page \<Rightarrow> bool \<Rightarrow> int \<Rightarrow> NodeDB \<Rightarrow>
    (AuthorityReport option \<times> NodeDB) result" where
  "capture_tx u w s j page ready at_ms d = (case decodeAuthority u w (n_pending d) of
      Inl err \<Rightarrow> Inl err
    | Inr (Some waiting) \<Rightarrow> Inr (Some waiting, d)
    | Inr None \<Rightarrow>
        let delta = filter (\<lambda>g. fmlookup (n_seen d) (GrantID g) \<noteq> Some g) (Grants page);
            d1 = d\<lparr>n_cursor := Next page\<rparr>
        in if \<not> report_due ready at_ms delta d then Inr (None, d1)
           else let sq = number ''authority_sequence'' d
           in if sq \<ge> maxInt64u then Inl ErrReport
              else let r = new_report s j (sq + 1) at_ms ready delta
              in if ValidateReport u (Some r) False \<noteq> None then Inl ErrReport
                 else if size_report w r > MaxBatchBytes then Inl ErrSpoolFull
                 else Inr (Some r, (putNumber ''authority_sequence'' (sq + 1) d1)\<lparr>n_pending := Some r\<rparr>))"

definition CaptureAuthority :: "'u uuid_lib \<Rightarrow> wire_lib \<Rightarrow> RuntimeJournal option \<Rightarrow> Page \<Rightarrow> bool \<Rightarrow> int \<Rightarrow> NodeStore \<Rightarrow>
    AuthorityReport option result \<times> NodeStore" where
  "CaptureAuthority u w journal page ready at_ms s =
     (if at_ms \<le> 0 \<or> \<not> ValidRuntime u journal \<or> StateJournalId (the journal) \<noteq> st_journalID s
         \<or> length (Grants page) > MaxEntries \<or> Next page \<noteq> '''' \<and> \<not> ValidID u (Next page) then (Inl ErrReport, s)
      else if \<not> capture_check u None (Grants page) then (Inl ErrReport, s)
      else on_store (capture_tx u w s (the journal) page ready at_ms) s)"

definition ack_tx :: "'u uuid_lib \<Rightarrow> wire_lib \<Rightarrow> AuthorityReceipt \<Rightarrow> NodeDB \<Rightarrow> (unit \<times> NodeDB) result" where
  "ack_tx u w r d =
     (if text_of (fmlookup (n_runtime_journal d) (rc_RuntimeId r)) \<noteq> rc_CreditJournalId r then Inl ErrIdentity
      else if rc_Sequence r \<le> number ''authority_acked'' d then Inr ((), d)
      else case decodeAuthority u w (n_pending d) of
          Inl err \<Rightarrow> Inl err
        | Inr None \<Rightarrow> Inl ErrReport
        | Inr (Some p) \<Rightarrow>
            if Sequence p \<noteq> rc_Sequence r \<or> ar_RuntimeId p \<noteq> rc_RuntimeId r \<or> ar_CreditJournalId p \<noteq> rc_CreditJournalId r
            then Inl ErrReport
            else let d1 = d\<lparr>n_seen := fold (\<lambda>g m. fmupd (GrantID (the g)) (the g) m) (ar_Grants p) (n_seen d)\<rparr>;
                     d2 = putNumber ''authority_reported_at'' (word_of_int (ObservedUnixMilli p))
                            (putNumber ''authority_acked'' (rc_Sequence r) d1)
                 in Inr ((), d2\<lparr>n_ready := RuntimeReady p, n_pending := None\<rparr>))"

definition AcknowledgeAuthority :: "'u uuid_lib \<Rightarrow> wire_lib \<Rightarrow> AuthorityReceipt option \<Rightarrow> NodeStore \<Rightarrow> unit result \<times> NodeStore" where
  "AcknowledgeAuthority u w receipt s = (case receipt of None \<Rightarrow> (Inl ErrReport, s) | Some r \<Rightarrow>
     if rc_Sequence r = 0 \<or> rc_Sequence r > maxInt64u \<or> rc_StateJournalId r \<noteq> st_journalID s then (Inl ErrReport, s)
     else on_store (ack_tx u w r) s)"

section \<open>Intents\<close>

definition validateAuthorityScope :: "NodeStore \<Rightarrow> AuthorityUpdateBatch \<Rightarrow> NodeDB \<Rightarrow> error option" where
  "validateAuthorityScope s batch d = (let q = ab_Request batch
     in if dr_NodeId q \<noteq> id_Node (st_identity s) \<or> dr_InstallationId q \<noteq> id_Installation (st_identity s)
           \<or> dr_StateJournalId q \<noteq> st_journalID s \<or> text_of (n_agent d) \<noteq> dr_AgentStateJournalId q
           \<or> text_of (fmlookup (n_runtime_journal d) (dr_RuntimeId q)) \<noteq> dr_CreditJournalId q
        then Some ErrIdentity else None)"

text \<open>Nothing under the key decodes as an empty message, which is not a valid batch.\<close>

definition readAuthorityIntent :: "'u uuid_lib \<Rightarrow> wire_lib \<Rightarrow> AuthorityUpdateBatch option \<Rightarrow> AuthorityUpdateBatch result" where
  "readAuthorityIntent u w encoded = (case encoded of None \<Rightarrow> Inl ErrRevision | Some b \<Rightarrow>
     if size_intent w b > 8192 \<or> ValidateAuthorityBatch u (Some b) False \<noteq> None \<or> length (ab_Updates b) \<noteq> 1 then Inl ErrRevision
     else Inr b)"

definition sameAuthorityBase :: "AuthorityUpdateBatch \<Rightarrow> AuthorityUpdateBatch \<Rightarrow> bool" where
  "sameAuthorityBase a b \<longleftrightarrow> ab_Base a = ab_Base b \<and> ab_Payload a = ab_Payload b"

definition validateIntentAdvance :: "'u uuid_lib \<Rightarrow> AuthorityUpdateBatch \<Rightarrow> AuthorityUpdateBatch \<Rightarrow> error option" where
  "validateIntentAdvance u old next =
     (let previous = the (ab_Updates old ! 0); current = the (ab_Updates next ! 0)
      in if \<not> sameAuthorityBase old next then None
         else if au_AuthorityRevision previous = au_AuthorityRevision current then (if old \<noteq> next then Some ErrRevision else None)
         else if dr_RuntimeId (ab_Request old) \<noteq> dr_RuntimeId (ab_Request next) \<or> au_GrantId previous \<noteq> au_GrantId current
             \<or> au_ClientId previous \<noteq> au_ClientId current \<or> au_TermId previous \<noteq> au_TermId current
             \<or> au_CredentialGeneration previous \<noteq> au_CredentialGeneration current \<or> au_PlacementId previous \<noteq> au_PlacementId current
             \<or> au_PlacementRevision previous \<noteq> au_PlacementRevision current \<or> au_Descriptor previous \<noteq> au_Descriptor current
           then Some ErrIdentity
         else case AuthorityPolicy u (ab_Base old) (Some previous) of Inl err \<Rightarrow> Some err | Inr p \<Rightarrow>
           (case AuthorityPolicy u (ab_Base next) (Some current) of Inl err \<Rightarrow> Some err | Inr q \<Rightarrow>
              if \<not> AuthorityAdvance p q then Some ErrRevision else None))"

text \<open>One turn of the loop of \<open>SaveAuthorityIntents\<close>, and the loop.\<close>

definition save_intent :: "'u uuid_lib \<Rightarrow> wire_lib \<Rightarrow> NodeStore \<Rightarrow> AuthorityUpdateBatch \<Rightarrow> AuthorityUpdate \<Rightarrow> NodeDB \<Rightarrow> NodeDB result" where
  "save_intent u w s batch x d =
     (let own = batch\<lparr>ab_Updates := [Some x]\<rparr>
      in case (case fmlookup (n_intents d) (au_GrantId x) of None \<Rightarrow> None | Some prev \<Rightarrow>
                 (case readAuthorityIntent u w (Some prev) of Inl err \<Rightarrow> Some err | Inr old \<Rightarrow>
                    (case validateAuthorityScope s old d of Some err \<Rightarrow> Some err | None \<Rightarrow> validateIntentAdvance u old own))) of
           Some err \<Rightarrow> Inl err
         | None \<Rightarrow>
             (case (case fmlookup (n_intent_clients d) (au_ClientId x) of None \<Rightarrow> None | Some oldID \<Rightarrow>
                      if oldID = au_GrantId x then None
                      else case readAuthorityIntent u w (fmlookup (n_intents d) oldID) of Inl err \<Rightarrow> Some err | Inr old \<Rightarrow>
                        if sameAuthorityBase old own then Some ErrIdentity else None) of
                Some err \<Rightarrow> Inl err
              | None \<Rightarrow>
                  if size_intent w own > 8192 then Inl ErrRevision
                  else Inr (d\<lparr>n_intents := fmupd (au_GrantId x) own (n_intents d),
                              n_intent_clients := fmupd (au_ClientId x) (au_GrantId x) (n_intent_clients d)\<rparr>)))"

fun save_intents :: "'u uuid_lib \<Rightarrow> wire_lib \<Rightarrow> NodeStore \<Rightarrow> AuthorityUpdateBatch \<Rightarrow> AuthorityUpdate option list \<Rightarrow> NodeDB \<Rightarrow>
    (unit \<times> NodeDB) result" where
  "save_intents u w s batch [] d = Inr ((), d)"
| "save_intents u w s batch (x # xs) d = (case save_intent u w s batch (the x) d of
      Inl err \<Rightarrow> Inl err
    | Inr d' \<Rightarrow> save_intents u w s batch xs d')"

definition intents_tx :: "'u uuid_lib \<Rightarrow> wire_lib \<Rightarrow> NodeStore \<Rightarrow> AuthorityUpdateBatch \<Rightarrow> NodeDB \<Rightarrow> (unit \<times> NodeDB) result" where
  "intents_tx u w s batch d = (case validateAuthorityScope s batch d of Some err \<Rightarrow> Inl err | None \<Rightarrow>
     if number ''desired'' d \<noteq> ab_Base batch \<or> number ''applied'' d \<noteq> ab_Base batch then Inl ErrRevision
     else if (case fmlookup (n_deploy d) (ab_Base batch) of None \<Rightarrow> [] | Some x \<Rightarrow> dp_Sha256 x) \<noteq> ab_Payload batch then Inl ErrRevision
     else save_intents u w s batch (ab_Updates batch) d)"

definition SaveAuthorityIntents :: "'u uuid_lib \<Rightarrow> wire_lib \<Rightarrow> AuthorityUpdateBatch \<Rightarrow> NodeStore \<Rightarrow> unit result \<times> NodeStore" where
  "SaveAuthorityIntents u w batch s = (case ValidateAuthorityBatch u (Some batch) False of
      Some err \<Rightarrow> (Inl err, s)
    | None \<Rightarrow> on_store (intents_tx u w s batch) s)"

fun collect_intents :: "'u uuid_lib \<Rightarrow> wire_lib \<Rightarrow> NodeStore \<Rightarrow> u64 \<Rightarrow> bytes \<Rightarrow> AuthorityUpdateBatch list \<Rightarrow> AuthorityUpdateBatch list \<Rightarrow>
    AuthorityUpdateBatch list result" where
  "collect_intents u w s revision digest [] acc = Inr acc"
| "collect_intents u w s revision digest (b # bs) acc = (case readAuthorityIntent u w (Some b) of Inl err \<Rightarrow> Inl err | Inr intent \<Rightarrow>
     if ab_Base intent \<noteq> revision \<or> ab_Payload intent \<noteq> digest then collect_intents u w s revision digest bs acc
     else case validateAuthorityScope s intent (st_db s) of Some err \<Rightarrow> Inl err | None \<Rightarrow>
       if length acc \<ge> 1000000 then Inl ErrRevision
       else collect_intents u w s revision digest bs (acc @ [intent]))"

definition AuthorityIntents :: "'u uuid_lib \<Rightarrow> wire_lib \<Rightarrow> u64 \<Rightarrow> bytes \<Rightarrow> NodeStore \<Rightarrow> AuthorityUpdateBatch list result" where
  "AuthorityIntents u w revision digest s =
     collect_intents u w s revision digest (map snd (entries_by_key (n_intents (st_db s)))) []"

fun prune_loop :: "'u uuid_lib \<Rightarrow> wire_lib \<Rightarrow> u64 \<Rightarrow> bytes \<Rightarrow> (string \<times> AuthorityUpdateBatch) list \<Rightarrow> NodeDB \<Rightarrow> (unit \<times> NodeDB) result" where
  "prune_loop u w revision digest [] d = Inr ((), d)"
| "prune_loop u w revision digest ((k, b) # rest) d = (case readAuthorityIntent u w (Some b) of Inl err \<Rightarrow> Inl err | Inr intent \<Rightarrow>
     if ab_Base intent = revision \<and> ab_Payload intent = digest then prune_loop u w revision digest rest d
     else let c = au_ClientId (the (ab_Updates intent ! 0));
              d1 = (if fmlookup (n_intent_clients d) c = Some k then d\<lparr>n_intent_clients := fmdrop c (n_intent_clients d)\<rparr> else d)
          in prune_loop u w revision digest rest (d1\<lparr>n_intents := fmdrop k (n_intents d1)\<rparr>))"

definition PruneAuthorityIntents :: "'u uuid_lib \<Rightarrow> wire_lib \<Rightarrow> u64 \<Rightarrow> bytes \<Rightarrow> NodeStore \<Rightarrow> unit result \<times> NodeStore" where
  "PruneAuthorityIntents u w revision digest s = on_store (\<lambda>d.
     if number ''applied'' d \<noteq> revision \<or> number ''desired'' d \<noteq> revision then Inl ErrRevision
     else prune_loop u w revision digest (entries_by_key (n_intents d)) d) s"

section \<open>What the control plane is told\<close>

text \<open>The grants as a reader of the reports knows them, and the reports that were handed out, oldest first.\<close>

definition hear :: "AuthGrant option list \<Rightarrow> (string \<Rightarrow> AuthGrant option) \<Rightarrow> string \<Rightarrow> AuthGrant option" where
  "hear gs M = fold (\<lambda>g m. m(GrantID (the g) := Some (the g))) gs M"

primrec told :: "AuthorityReport list \<Rightarrow> (string \<Rightarrow> AuthGrant option) \<Rightarrow> string \<Rightarrow> AuthGrant option" where
  "told [] M = M"
| "told (r # rs) M = told rs (hear (ar_Grants r) M)"

definition record_report :: "AuthorityReport option \<Rightarrow> AuthorityReport list \<Rightarrow> AuthorityReport list" where
  "record_report r log = (case r of None \<Rightarrow> log | Some x \<Rightarrow> if x \<in> set log then log else log @ [x])"

definition same_reports :: "NodeDB \<Rightarrow> NodeDB \<Rightarrow> bool" where
  "same_reports d d' \<longleftrightarrow> n_pending d' = n_pending d \<and> n_seen d' = n_seen d
     \<and> number ''authority_sequence'' d' = number ''authority_sequence'' d \<and> number ''authority_acked'' d' = number ''authority_acked'' d"

inductive report_step :: "'u uuid_lib \<Rightarrow> wire_lib \<Rightarrow> NodeStore \<times> AuthorityReport list \<Rightarrow> NodeStore \<times> AuthorityReport list \<Rightarrow> bool" for u w where
  captures: "CaptureAuthority u w j page ready at_ms s = (Inr r, s') \<Longrightarrow> report_step u w (s, log) (s', record_report r log)"
| captures_none: "CaptureAuthority u w j page ready at_ms s = (Inl e, s') \<Longrightarrow> report_step u w (s, log) (s', log)"
| acknowledges: "AcknowledgeAuthority u w receipt s = (r, s') \<Longrightarrow> report_step u w (s, log) (s', log)"
| reopened: "Open_node u fresh (st_identity s) (st_db s) = Inr s' \<Longrightarrow> report_step u w (s, log) (s', log)"
| apart: "same_reports (st_db s) (st_db s') \<Longrightarrow> report_step u w (s, log) (s', log)"

definition reports_ok :: "AuthorityReport list \<Rightarrow> NodeDB \<Rightarrow> bool" where
  "reports_ok log d \<longleftrightarrow> length log = unat (number ''authority_sequence'' d) \<and> number ''authority_sequence'' d \<le> maxInt64u
     \<and> (\<forall>j < length log. unat (Sequence (log ! j)) = Suc j)
     \<and> (case n_pending d of None \<Rightarrow> number ''authority_acked'' d = number ''authority_sequence'' d
        | Some r \<Rightarrow> log \<noteq> [] \<and> r = last log \<and> Suc (unat (number ''authority_acked'' d)) = length log)
     \<and> fmlookup (n_seen d) = told (take (unat (number ''authority_acked'' d)) log) Map.empty"

lemma hear_seen: "fmlookup (fold (\<lambda>g m. fmupd (GrantID (the g)) (the g) m) gs m) = hear gs (fmlookup m)"
proof (induction gs arbitrary: m)
  case (Cons g gs)
  have "fmlookup (fmupd (GrantID (the g)) (the g) m) = (fmlookup m)(GrantID (the g) := Some (the g))" by auto
  with Cons show ?case by (simp add: hear_def)
qed (simp add: hear_def)

lemma told_append: "told (xs @ ys) M = told ys (told xs M)"
  by (induction xs arbitrary: M) simp_all

lemma reports_ok_same: "same_reports d d' \<Longrightarrow> reports_ok log d' = reports_ok log d"
  by (cases "n_pending d") (simp_all add: same_reports_def reports_ok_def)

lemma log_nth_eq:
  assumes "reports_ok log d" and "x \<in> set log" and "n_pending d = None"
  shows "unat (Sequence x) \<le> unat (number ''authority_sequence'' d)"
  using assms by (auto simp: reports_ok_def in_set_conv_nth)

lemma capture_tx_ok:
  assumes tx: "capture_tx u w s j page ready at_ms d = Inr (r, d')" and ok: "reports_ok log d"
  shows "reports_ok (record_report r log) d' \<and> n_seen d' = n_seen d
    \<and> (n_pending d = None \<longrightarrow> (let delta = filter (\<lambda>g. fmlookup (n_seen d) (GrantID g) \<noteq> Some g) (Grants page) in
        delta = [] \<and> record_report r log = log \<or> (\<exists>x. record_report r log = log @ [x] \<and> ar_Grants x = map Some delta)))"
proof (cases "n_pending d")
  case (Some p)
  then have "p \<in> set log" using ok by (auto simp: reports_ok_def)
  moreover have "r = Some p \<and> d' = d" using tx Some by (auto simp: capture_tx_def decodeAuthority_def split: if_splits)
  ultimately show ?thesis using ok Some by (simp add: record_report_def)
next
  case None
  let ?delta = "filter (\<lambda>g. fmlookup (n_seen d) (GrantID g) \<noteq> Some g) (Grants page)" and ?q = "number ''authority_sequence'' d"
  show ?thesis
  proof (cases "report_due ready at_ms ?delta d")
    case False
    then have "r = None" "d' = d\<lparr>n_cursor := Next page\<rparr>" "?delta = []"
      using tx None by (auto simp: capture_tx_def decodeAuthority_def Let_def report_due_def split: if_splits)
    moreover have "reports_ok log (d\<lparr>n_cursor := Next page\<rparr>) = reports_ok log d" by (rule reports_ok_same) (simp add: same_reports_def)
    ultimately show ?thesis using ok by (simp add: record_report_def)
  next
    case True
    define x where "x = new_report s j (?q + 1) at_ms ready ?delta"
    have q: "?q < maxInt64u" "r = Some x" "d' = (putNumber ''authority_sequence'' (?q + 1) (d\<lparr>n_cursor := Next page\<rparr>))\<lparr>n_pending := Some x\<rparr>"
      using tx None True by (auto simp: capture_tx_def decodeAuthority_def Let_def x_def not_le split: if_splits)
    have "unat ?q < 2 ^ 63 - 1" using q(1) by (simp add: word_less_nat_alt maxInt64u_def)
    then have suc: "unat (?q + 1) = Suc (unat ?q)" by (simp add: unat_word_ariths)
    have sx: "Sequence x = ?q + 1" "ar_Grants x = map Some ?delta" by (simp_all add: x_def new_report_def)
    have new: "x \<notin> set log" using log_nth_eq [OF ok _ None, of x] sx(1) suc by auto
    have o: "length log = unat ?q" "number ''authority_acked'' d = ?q" using ok None by (simp_all add: reports_ok_def)
    have "reports_ok (log @ [x]) d'"
      using ok None o suc sx(1) q by (auto simp: reports_ok_def nth_append less_Suc_eq word_le_nat_alt word_less_nat_alt)
    then show ?thesis using q new sx(2) None by (simp add: record_report_def Let_def)
  qed
qed

lemma ack_tx_ok:
  assumes tx: "ack_tx u w r d = Inr ((), d')" and ok: "reports_ok log d"
  shows "reports_ok log d'"
proof (cases "rc_Sequence r \<le> number ''authority_acked'' d")
  case True
  then show ?thesis using tx ok by (auto simp: ack_tx_def split: if_splits)
next
  case False
  then obtain p where p: "n_pending d = Some p" "Sequence p = rc_Sequence r"
    and d': "d' = (putNumber ''authority_reported_at'' (word_of_int (ObservedUnixMilli p)) (putNumber ''authority_acked'' (rc_Sequence r)
          (d\<lparr>n_seen := fold (\<lambda>g m. fmupd (GrantID (the g)) (the g) m) (ar_Grants p) (n_seen d)\<rparr>)))\<lparr>n_ready := RuntimeReady p, n_pending := None\<rparr>"
    using tx by (auto simp: ack_tx_def decodeAuthority_def Let_def split: if_splits option.splits)
  have o: "log \<noteq> []" "p = last log" "Suc (unat (number ''authority_acked'' d)) = length log" "length log = unat (number ''authority_sequence'' d)"
    "number ''authority_sequence'' d \<le> maxInt64u" "\<forall>j < length log. unat (Sequence (log ! j)) = Suc j"
    "fmlookup (n_seen d) = told (take (unat (number ''authority_acked'' d)) log) Map.empty"
    using ok p(1) by (simp_all add: reports_ok_def)
  have sq: "unat (rc_Sequence r) = length log" 
  proof -
    have "unat (Sequence (log ! (length log - 1))) = Suc (length log - 1)" using o(1,6) by simp
    then show ?thesis using o(1,2) p(2) by (simp add: last_conv_nth)
  qed
  then have "rc_Sequence r = number ''authority_sequence'' d" using o(4) by (simp add: word_unat_eq_iff)
  moreover have "take (unat (number ''authority_acked'' d)) log @ [p] = log"
  proof -
    have "unat (number ''authority_acked'' d) = length log - 1" using o(3) by simp
    then show ?thesis using o(1,2) append_butlast_last_id [OF o(1)] butlast_conv_take [of log] by simp
  qed
  then have "told log Map.empty = told [p] (told (take (unat (number ''authority_acked'' d)) log) Map.empty)" by (metis told_append)
  then have "told log Map.empty = hear (ar_Grants p) (fmlookup (n_seen d))" using o(7) by simp
  then have "fmlookup (n_seen d') = told log Map.empty" by (simp add: d' hear_seen)
  ultimately show ?thesis using o sq by (simp add: reports_ok_def d')
qed

lemma faults_reports: "reports_ok log (d\<lparr>n_faults := fs\<rparr>) = reports_ok log d"
  by (rule reports_ok_same) (simp add: same_reports_def)

lemma CaptureAuthority_cases:
  assumes "CaptureAuthority u w j page ready at_ms s = (r, s')"
  shows "(\<exists>e. r = Inl e) \<and> same_reports (st_db s) (st_db s')
    \<or> (\<exists>x d1 fs. r = Inr x \<and> capture_check u None (Grants page) \<and> capture_tx u w s (the j) page ready at_ms (st_db s) = Inr (x, d1)
         \<and> st_db s' = d1\<lparr>n_faults := fs\<rparr>)"
proof -
  consider "s' = s" "\<exists>e. r = Inl e" | "capture_check u None (Grants page)" "on_store (capture_tx u w s (the j) page ready at_ms) s = (r, s')"
    using assms by (auto simp: CaptureAuthority_def split: if_splits)
  then show ?thesis
  proof cases
    case 2
    then show ?thesis using on_store_cases [OF 2(2)] by (auto simp: same_reports_def)
  qed (simp add: same_reports_def)
qed

lemma Open_reports:
  assumes "Open_node u fresh i d = Inr s'"
  shows "same_reports d (st_db s')"
proof -
  obtain r d' where tx: "update_tx (open_tx u fresh i) d = (r, d')" by fastforce
  with assms(1) obtain j where j: "r = Inr j" "s' = \<lparr>st_identity = i, st_journalID = j, st_db = d'\<rparr>"
    by (auto simp: Open_node_def split: if_splits sum.splits)
  with update_tx_cases [OF tx] obtain d1 fs where d1: "open_tx u fresh i d = Inr (j, d1)" "d' = d1\<lparr>n_faults := fs\<rparr>" by auto
  have "same_reports d d1" using d1(1)
    by (auto simp: open_tx_def same_reports_def putNumber_def number_def Let_def split: option.splits sum.splits if_splits)
  then show ?thesis using j d1(2) by (simp add: same_reports_def)
qed

lemma report_step_ok:
  assumes "report_step u w x y" and "reports_ok (snd x) (st_db (fst x))"
  shows "reports_ok (snd y) (st_db (fst y)) \<and> (\<exists>l. snd y = snd x @ l)"
  using assms(1)
proof (cases rule: report_step.cases)
  case (captures j page ready at_ms s r s' log)
  have ok: "reports_ok log (st_db s)" using assms(2) captures(1) by simp
  from CaptureAuthority_cases [OF captures(3)] obtain d1 fs where
    d1: "capture_tx u w s (the j) page ready at_ms (st_db s) = Inr (r, d1)" "st_db s' = d1\<lparr>n_faults := fs\<rparr>" by auto
  have "\<exists>l. record_report r log = log @ l" by (auto simp: record_report_def split: option.splits)
  then show ?thesis using capture_tx_ok [OF d1(1) ok] captures(1,2) d1(2) by (simp add: faults_reports)
next
  case (captures_none j page ready at_ms s e s' log)
  from CaptureAuthority_cases [OF captures_none(3)] have "same_reports (st_db s) (st_db s')" by simp
  from reports_ok_same [OF this] captures_none assms(2) show ?thesis by simp
next
  case (acknowledges receipt s r s' log)
  then have ok: "reports_ok log (st_db s)" using assms(2) by simp
  have "s' = s \<or> (\<exists>a. on_store (ack_tx u w a) s = (r, s'))"
    using acknowledges(3) by (auto simp: AcknowledgeAuthority_def split: option.splits if_splits)
  then have "reports_ok log (st_db s')"
  proof
    assume "\<exists>a. on_store (ack_tx u w a) s = (r, s')"
    then obtain a where "on_store (ack_tx u w a) s = (r, s')" by blast
    then show ?thesis using on_store_cases [of "ack_tx u w a" s r s'] ok ack_tx_ok [of u w a "st_db s"] by (auto simp: faults_reports)
  qed (use ok in simp)
  then show ?thesis using acknowledges by simp
next
  case (reopened fresh s s' log)
  then show ?thesis using Open_reports [OF reopened(3)] assms(2) by (simp add: reports_ok_same)
next
  case (apart s s' log)
  then show ?thesis using assms(2) reports_ok_same [OF apart(3)] by simp
qed

lemma report_run_ok:
  assumes "(report_step u w)\<^sup>*\<^sup>* x y" and "reports_ok (snd x) (st_db (fst x))"
  shows "reports_ok (snd y) (st_db (fst y))"
  using assms by (induction rule: rtranclp_induct) (auto dest: report_step_ok)

lemma capture_check_order:
  "capture_check u p gs \<Longrightarrow> distinct (map GrantID gs) \<and> (\<forall>q. p = Some q \<longrightarrow> (\<forall>g \<in> set gs. q < GrantID g))"
proof (induction gs arbitrary: p)
  case (Cons g gs)
  then have "distinct (map GrantID gs)" "\<forall>h \<in> set gs. GrantID g < GrantID h" "case p of None \<Rightarrow> True | Some q \<Rightarrow> q < GrantID g"
    by (auto split: option.splits)
  then show ?case by (cases p) (auto simp: less_le intro: less_trans)
qed simp

lemma hear_page:
  assumes "distinct (map GrantID gs)" and "g \<in> set gs"
  shows "hear (map Some gs) M (GrantID g) = Some g"
  using assms
proof (induction gs arbitrary: M)
  case (Cons x xs)
  have keep: "hear (map Some ys) N k = N k" if "k \<notin> GrantID ` set ys" for ys N k
    using that by (induction ys arbitrary: N) (simp_all add: hear_def)
  show ?case
  proof (cases "g = x")
    case True
    then show ?thesis using keep [of "GrantID x" xs] Cons.prems(1) by (simp add: hear_def)
  next
    case False
    then show ?thesis using Cons by (simp add: hear_def)
  qed
qed simp

lemma hear_other: "k \<notin> GrantID ` set gs \<Longrightarrow> hear (map Some gs) M k = M k"
  by (induction gs arbitrary: M) (simp_all add: hear_def)

text \<open>C33 Reports reach the control plane in order and lose nothing. Through any run with failing commits and restarts, the reports
  handed out carry the numbers 1, 2, 3 and so on, at most the last one is not acknowledged and only that one is handed out again,
  the node's record of what the control plane knows is exactly what the acknowledged reports said, and whenever a page of grants is
  taken in with no report waiting, a reader of all reports knows every grant of the page as it is.\<close>

theorem reports_complete:
  assumes "n_pending (st_db s0) = None" and "n_seen (st_db s0) = fmempty" and "number ''authority_sequence'' (st_db s0) = 0"
    and "number ''authority_acked'' (st_db s0) = 0" and "(report_step u w)\<^sup>*\<^sup>* (s0, []) (s, log)"
  shows "(\<forall>j < length log. unat (Sequence (log ! j)) = Suc j)
    \<and> (case n_pending (st_db s) of None \<Rightarrow> unat (number ''authority_acked'' (st_db s)) = length log
       | Some r \<Rightarrow> log \<noteq> [] \<and> r = last log \<and> Suc (unat (number ''authority_acked'' (st_db s))) = length log)
    \<and> fmlookup (n_seen (st_db s)) = told (take (unat (number ''authority_acked'' (st_db s))) log) Map.empty
    \<and> (\<forall>j page ready at_ms r s' g. n_pending (st_db s) = None \<and> CaptureAuthority u w j page ready at_ms s = (Inr r, s') \<and> g \<in> set (Grants page)
         \<longrightarrow> told (record_report r log) Map.empty (GrantID g) = Some g)"
proof -
  have "reports_ok [] (st_db s0)" using assms(1-4) by (simp add: reports_ok_def fun_eq_iff)
  then have ok: "reports_ok log (st_db s)" using report_run_ok [OF assms(5)] by simp
  have "told (record_report r log) Map.empty (GrantID g) = Some g"
    if np: "n_pending (st_db s) = None" and cap: "CaptureAuthority u w j page ready at_ms s = (Inr r, s')" and g: "g \<in> set (Grants page)"
    for j page ready at_ms r s' g
  proof -
    obtain d1 where cc: "capture_check u None (Grants page)" and tx: "capture_tx u w s (the j) page ready at_ms (st_db s) = Inr (r, d1)"
      using CaptureAuthority_cases [OF cap] by auto
    let ?delta = "filter (\<lambda>g. fmlookup (n_seen (st_db s)) (GrantID g) \<noteq> Some g) (Grants page)"
    have seen: "fmlookup (n_seen (st_db s)) = told log Map.empty" using ok np by (simp add: reports_ok_def)
    have dist: "distinct (map GrantID (Grants page))" using capture_check_order [OF cc] by simp
    consider "?delta = []" "record_report r log = log" | x where "record_report r log = log @ [x]" "ar_Grants x = map Some ?delta"
      using capture_tx_ok [OF tx ok] np by (auto simp: Let_def)
    then show ?thesis
    proof cases
      case 1
      then show ?thesis using g seen by (auto simp: filter_empty_conv)
    next
      case 2
      have t: "told (log @ [x]) Map.empty = hear (map Some ?delta) (told log Map.empty)" using 2(2) by (simp add: told_append)
      show ?thesis
      proof (cases "g \<in> set ?delta")
        case True
        moreover have "distinct (map GrantID ?delta)" using dist by (simp add: distinct_map_filter)
        ultimately show ?thesis unfolding 2(1) t by (intro hear_page)
      next
        case False
        then have k: "told log Map.empty (GrantID g) = Some g" using g seen by simp
        have "GrantID g \<notin> GrantID ` set ?delta" using False g dist by (auto simp: distinct_map inj_on_def)
        then show ?thesis unfolding 2(1) t using k by (simp add: hear_other)
      qed
    qed
  qed
  then show ?thesis using ok by (auto simp: reports_ok_def split: option.splits)
qed

section \<open>Example\<close>

definition told_grant :: AuthGrant where
  "told_grant = \<lparr>GrantID = ''g'', ClientID = ''c'', TermID = ''t'', PolicyRevision = 1, g_AuthorityRevision = 1, g_CreditCeiling = 0,
     g_QuotaUnlimited = True, ReservedHighWater = 3, BurnedHighWater = 0, AdmissionHighWater = 2, AdmissionKnown = True, SpendableBytes = 0,
     SpendableKnown = False, AuthorizationActive = True\<rparr>"

definition report_runtime :: RuntimeJournal where
  "report_runtime = \<lparr>RuntimeId = ''r'', CoreId = ''k'', StateJournalId = ''j'', CreditJournalId = ''b''\<rparr>"

lemma told_grant_valid: "ValidateGrant plain_uuid (Some told_grant) = None"
  by (simp add: ValidateGrant_def told_grant_def maxInt64u_def)

lemma sample_captured:
  "\<exists>r s'. CaptureAuthority plain_uuid sample_wire (Some report_runtime) \<lparr>Grants = [told_grant], Next = ''''\<rparr> True 5 sample_node = (Inr r, s')"
  by (simp add: CaptureAuthority_def ValidRuntime_def report_runtime_def told_grant_valid on_store_def update_tx_def
      capture_tx_def sample_node_def empty_node_def sample_identity_def decodeAuthority_def report_due_def new_report_def number_def
      ValidateReport_def sample_wire_def MaxBatchBytes_def MaxEntries_def runtimeName_def lower_def name_char_def maxInt64u_def i64_def Let_def)

theorem reports_complete_witness:
  "\<exists>r s'. CaptureAuthority plain_uuid sample_wire (Some report_runtime) \<lparr>Grants = [told_grant], Next = ''''\<rparr> True 5 sample_node = (Inr r, s')
     \<and> told (record_report r []) Map.empty ''g'' = Some told_grant"
proof -
  obtain r s' where c: "CaptureAuthority plain_uuid sample_wire (Some report_runtime) \<lparr>Grants = [told_grant], Next = ''''\<rparr> True 5 sample_node = (Inr r, s')"
    using sample_captured by blast
  have s: "n_pending (st_db sample_node) = None" "n_seen (st_db sample_node) = fmempty" "number ''authority_sequence'' (st_db sample_node) = 0"
    "number ''authority_acked'' (st_db sample_node) = 0" "GrantID told_grant = ''g''"
    by (simp_all add: sample_node_def empty_node_def number_def told_grant_def)
  have "(report_step plain_uuid sample_wire)\<^sup>*\<^sup>* (sample_node, []) (sample_node, [])" by simp
  from reports_complete [OF s(1-4) this] c s(1) have "told (record_report r []) Map.empty (GrantID told_grant) = Some told_grant" by fastforce
  with c s(5) show ?thesis by auto
qed

end
