(* ===== verification/Fleet.thy ===== *)
theory Fleet
  imports Authority NodeLimits
begin

text \<open>
  The tables the control plane keeps its fleet accounting in (\<open>internal/database/model/fleet*.go\<close>) and
  what every operation of \<open>internal/controlplane\<close> on them starts with: fencing, locking and
  authenticating a node, locking budgets, the journals a node has registered (\<open>recovery.go\<close>,
  \<open>accounting.go\<close>, \<open>credential_authority.go\<close>, \<open>key_recovery.go\<close>, \<open>client_drain.go\<close>,
  \<open>journal_registry.go\<close>). A table is a finite map by primary key, with the columns the operations read
  or write. A transaction installs all its writes or none; \<open>f_faults\<close> says which of the coming ones the
  database fails. Locks make transactions on the same rows run one after the other, so a transaction is one
  step. The CHECK constraints of the schema are not part of the model: the guards of the code alone keep them.
\<close>

section \<open>Tables\<close>

record Rates =
  ra_Upload :: Rate
  ra_Download :: Rate

record FleetNode =
  fn_InstallationID :: string
  fn_Enabled :: bool

record FleetNodeJournal =
  nj_InstallationID :: string
  nj_StateJournalID :: "string option"
  nj_RecoveryRequired :: bool
  nj_Reason :: string

record FleetRuntimeJournal =
  rj_InstallationID :: string
  rj_CoreID :: string
  rj_StateJournalID :: string
  rj_CreditJournalID :: string

record FleetCredential =
  fc_InstallationID :: string
  fc_KeyDigest :: bytes
  fc_Certificate :: bytes

record FleetEnrollment =
  fe_NodeID :: string
  fe_InstallationID :: string
  fe_ExpiresUnixMilli :: int
  fe_RequestID :: "string option"
  fe_KeyDigest :: bytes
  fe_Certificate :: bytes

record FleetClient =
  cl_PanelClientID :: "int option"
  cl_Revision :: int
  cl_CredentialGeneration :: int
  cl_CredentialDigest :: bytes
  cl_CurrentTermID :: "string option"
  cl_PendingTermID :: "string option"
  cl_Owned :: bool

record FleetTerm =
  tm_ClientID :: string
  tm_Generation :: int
  tm_PredecessorID :: "string option"
  tm_Kind :: string
  tm_State :: string
  tm_CredentialGeneration :: int
  tm_SourcePolicyDigest :: bytes
  tm_BudgetID :: string
  tm_DurationMillis :: int
  tm_StartedUnixMilli :: int
  tm_ExpiresUnixMilli :: int
  tm_Rates :: Rates
  tm_OpeningUploaded :: int
  tm_OpeningDownloaded :: int

record FleetGrantStop =
  gs_DeploymentRevision :: int
  gs_RateRevision :: int

record FleetPlacement =
  pl_ClientID :: string
  pl_NodeID :: string
  pl_InstallationID :: string
  pl_RuntimeID :: string
  pl_Revision :: int
  pl_Enabled :: bool
  pl_CredentialGeneration :: int
  pl_SourcePolicyDigest :: bytes
  pl_GraphDigest :: bytes
  pl_CurrentGrantID :: "string option"
  pl_CurrentGrantTermID :: "string option"

record FleetBudget =
  b_LimitBytes :: int
  b_Unlimited :: bool
  b_UsedBytes :: int
  b_ReservedBytes :: int

record FleetGrant =
  fg_ID :: string
  fg_PlacementID :: "string option"
  fg_NodeID :: string
  fg_InstallationID :: string
  fg_RuntimeID :: string
  fg_ClientID :: string
  fg_TermID :: string
  fg_Unlimited :: bool
  fg_IssuedBytes :: int
  fg_ConsumedBytes :: int
  fg_Revision :: int

record FleetUsageCursor =
  cu_Sequence :: int
  cu_Digest :: bytes

record FleetMeter =
  fm_Uploaded :: int
  fm_Downloaded :: int

record FleetTermUsage =
  tu_Uploaded :: int
  tu_Downloaded :: int
  tu_ObservedUnixMilli :: int
  tu_ReceivedUnixMilli :: int

record FleetTermUsageDay =
  td_Uploaded :: int
  td_Downloaded :: int

record FleetRateBudget =
  rb_ClientID :: string
  rb_TermID :: string
  rb_Revision :: int
  rb_Desired :: Rates

record FleetRateShare =
  rs_ID :: string
  rs_BudgetID :: string
  rs_NodeID :: string
  rs_InstallationID :: string
  rs_RuntimeID :: string
  rs_Revision :: int
  rs_AppliedRevision :: int
  rs_Desired :: Rates
  rs_Outstanding :: Rates

text \<open>The saved result of an operation: the JSON text of a grant, a rate share or a term transition, nothing while it runs. A row a result holds comes with its identifier; whether it was replayed is not saved.\<close>

record TransitionResult =
  tr_Client :: "string \<times> FleetClient"
  tr_Term :: "string \<times> FleetTerm"
  tr_PendingDrain :: bool
  tr_Replayed :: bool

datatype op_result = OpNone | OpGrant FleetGrant | OpShare FleetRateShare | OpTransition TransitionResult

record FleetOperation =
  op_Digest :: bytes
  op_Result :: op_result

record FleetDB =
  f_fence :: "bool option"
  f_nodes :: "(string, FleetNode) fmap"
  f_node_journals :: "(string, FleetNodeJournal) fmap"
  f_runtime_journals :: "(string \<times> string, FleetRuntimeJournal) fmap"
  f_credentials :: "(string, FleetCredential) fmap"
  f_enrollments :: "(string, FleetEnrollment) fmap"
  f_clients :: "(string, FleetClient) fmap"
  f_terms :: "(string, FleetTerm) fmap"
  f_placements :: "(string, FleetPlacement) fmap"
  f_placement_inbounds :: "(string \<times> string, int option) fmap"
  f_budgets :: "(string, FleetBudget) fmap"
  f_grants :: "(string, FleetGrant) fmap"
  f_links :: "(string \<times> string) fset"
  f_cursors :: "(string \<times> string, FleetUsageCursor) fmap"
  f_meters :: "(string \<times> string \<times> string, FleetMeter) fmap"
  f_term_usage :: "(string, FleetTermUsage) fmap"
  f_term_days :: "(string \<times> int, FleetTermUsageDay) fmap"
  f_rate_budgets :: "(string, FleetRateBudget) fmap"
  f_rate_shares :: "(string, FleetRateShare) fmap"
  f_grant_stops :: "(string, FleetGrantStop) fmap"
  f_panel_clients :: "int fset"
  f_operations :: "(string, FleetOperation) fmap"
  f_faults :: "error option list"

text \<open>A transaction.\<close>

definition on_fleet :: "(FleetDB \<Rightarrow> ('a \<times> FleetDB) result) \<Rightarrow> FleetDB \<Rightarrow> 'a result \<times> FleetDB" where
  "on_fleet f d = (case f d of
      Inl err \<Rightarrow> (Inl err, d)
    | Inr (x, d') \<Rightarrow> (case f_faults d of
          [] \<Rightarrow> (Inr x, d')
        | None # fs \<Rightarrow> (Inr x, d'\<lparr>f_faults := fs\<rparr>)
        | Some err # fs \<Rightarrow> (Inl err, d\<lparr>f_faults := fs\<rparr>)))"

text \<open>The row with a key, as \<open>First\<close> finds it.\<close>

definition First :: "('k, 'v) fmap \<Rightarrow> 'k \<Rightarrow> 'v result" where
  "First m k = (case fmlookup m k of None \<Rightarrow> Inl ErrRecordNotFound | Some v \<Rightarrow> Inr v)"

section \<open>Fencing and locking\<close>

definition lockAuthority :: "FleetDB \<Rightarrow> error option" where
  "lockAuthority d = (case f_fence d of None \<Rightarrow> Some ErrRecordNotFound | Some held \<Rightarrow> if held then Some ErrRecovery else None)"

definition lockNode :: "string \<Rightarrow> string \<Rightarrow> FleetDB \<Rightarrow> error option" where
  "lockNode node installation d = (case First (f_nodes d) node of
      Inl err \<Rightarrow> Some err
    | Inr n \<Rightarrow> if \<not> fn_Enabled n \<or> fn_InstallationID n \<noteq> installation then Some ErrScope else None)"

text \<open>The chunks of 4096 only bound the size of a query: together they read the rows of all identifiers.\<close>

definition lockBudgets :: "string list \<Rightarrow> FleetDB \<Rightarrow> (string, FleetBudget) fmap result" where
  "lockBudgets ids d =
     (if ids = [] then Inl ErrScope
      else let found = fmfilter (\<lambda>k. k \<in> set ids) (f_budgets d)
      in if fcard (fmdom found) \<noteq> length ids then Inl ErrScope else Inr found)"

definition exceeds :: "int \<Rightarrow> int \<Rightarrow> bool" where
  "exceeds a b \<longleftrightarrow> a < 0 \<or> b < 0 \<or> b > maxInt64 - a"

definition lockClient :: "string \<Rightarrow> FleetDB \<Rightarrow> FleetClient result" where
  "lockClient k d = (case First (f_clients d) k of
      Inl err \<Rightarrow> Inl err
    | Inr c \<Rightarrow> if cl_PanelClientID c = None then Inl ErrScope else Inr c)"

text \<open>An operator holds the fleet after restoring the database: every guarded transaction fails from then on.\<close>

definition HoldForRecovery :: "FleetDB \<Rightarrow> FleetDB" where
  "HoldForRecovery d = d\<lparr>f_fence := map_option (\<lambda>_. True) (f_fence d)\<rparr>"

text \<open>A client the fleet does not manage has no row and gives no term.\<close>

definition managedAuthority :: "string \<Rightarrow> string \<Rightarrow> bool \<Rightarrow> FleetDB \<Rightarrow> FleetTerm option result" where
  "managedAuthority client term active d = (case fmlookup (f_clients d) client of
      None \<Rightarrow> Inr None
    | Some c \<Rightarrow> (case fmlookup (f_terms d) term of
          None \<Rightarrow> Inl ErrRecordNotFound
        | Some t \<Rightarrow>
            if tm_ClientID t \<noteq> client then Inl ErrRecordNotFound
            else if active \<and> (cl_PanelClientID c = None \<or> cl_CurrentTermID c \<noteq> Some term \<or> tm_State t \<noteq> ''active'') then Inl ErrScope
            else Inr (Some t)))"

section \<open>Authenticating a node\<close>

record Principal =
  pr_ControlPlaneID :: string
  pr_NodeID :: string
  pr_InstallationID :: string
  pr_Serial :: string

text \<open>
  What is read of a certificate; decoding the PEM block, parsing it and digesting its key are a parameter
  that gives nothing where one of them fails.
\<close>

record Certificate =
  crt_IsCA :: bool
  crt_SerialNumber :: string
  crt_KeyDigest :: bytes

definition Require :: "Principal \<Rightarrow> string \<Rightarrow> string \<Rightarrow> error option" where
  "Require p node installation = (if pr_NodeID p \<noteq> node \<or> pr_InstallationID p \<noteq> installation then Some ErrIdentity else None)"

definition recoveryCredential :: "(bytes \<Rightarrow> Certificate option) \<Rightarrow> string \<Rightarrow> string \<Rightarrow> FleetDB \<Rightarrow> Certificate result" where
  "recoveryCredential cert node installation d =
     (case (case fmlookup (f_credentials d) node of
              Some c \<Rightarrow> Some c
            | None \<Rightarrow>
                (case sort_key (\<lambda>e. - fe_ExpiresUnixMilli e)
                    (filter (\<lambda>e. fe_NodeID e = node \<and> fe_InstallationID e = installation \<and> fe_RequestID e \<noteq> None)
                      (map snd (entries_by_key (f_enrollments d)))) of
                   [] \<Rightarrow> None
                 | e # _ \<Rightarrow> Some \<lparr>fc_InstallationID = fe_InstallationID e, fc_KeyDigest = fe_KeyDigest e, fc_Certificate = fe_Certificate e\<rparr>)) of
        None \<Rightarrow> Inl ErrEnrollment
      | Some c \<Rightarrow>
          if fc_InstallationID c \<noteq> installation then Inl ErrEnrollment
          else case cert (fc_Certificate c) of
              None \<Rightarrow> Inl ErrEnrollment
            | Some x \<Rightarrow> if crt_IsCA x then Inl ErrEnrollment
                         else if crt_KeyDigest x \<noteq> fc_KeyDigest c then Inl ErrEnrollment else Inr x)"

text \<open>\<open>verified\<close> is what \<open>identity.FromContext\<close> reads of the connection the request came on.\<close>

definition verifiedPresentedSerial :: "Principal option \<Rightarrow> Principal \<Rightarrow> error option" where
  "verifiedPresentedSerial verified p = (if pr_Serial p = '''' then None else if verified \<noteq> Some p then Some ErrScope else None)"

definition authorizeRegisteredPeer :: "(bytes \<Rightarrow> Certificate option) \<Rightarrow> Principal option \<Rightarrow> Principal \<Rightarrow> FleetDB \<Rightarrow> error option" where
  "authorizeRegisteredPeer cert verified p d =
     (if pr_Serial p = '''' then None
      else case verifiedPresentedSerial verified p of
          Some err \<Rightarrow> Some err
        | None \<Rightarrow> (case recoveryCredential cert (pr_NodeID p) (pr_InstallationID p) d of
              Inl err \<Rightarrow> Some err
            | Inr x \<Rightarrow> if crt_SerialNumber x \<noteq> pr_Serial p then Some ErrScope else None))"

definition lockAuthenticatedNode :: "(bytes \<Rightarrow> Certificate option) \<Rightarrow> Principal option \<Rightarrow> Principal \<Rightarrow> FleetDB \<Rightarrow> error option" where
  "lockAuthenticatedNode cert verified p d = (case lockNode (pr_NodeID p) (pr_InstallationID p) d of
      Some err \<Rightarrow> Some err
    | None \<Rightarrow> authorizeRegisteredPeer cert verified p d)"

section \<open>Journals of a node\<close>

definition holdNodeJournal :: "Principal \<Rightarrow> string \<Rightarrow> FleetDB \<Rightarrow> FleetDB" where
  "holdNodeJournal p reason d = d\<lparr>f_node_journals := fmupd (pr_NodeID p)
     (case fmlookup (f_node_journals d) (pr_NodeID p) of
        None \<Rightarrow> \<lparr>nj_InstallationID = pr_InstallationID p, nj_StateJournalID = None, nj_RecoveryRequired = True, nj_Reason = reason\<rparr>
      | Some j \<Rightarrow> j\<lparr>nj_RecoveryRequired := True, nj_Reason := (if nj_RecoveryRequired j then nj_Reason j else reason)\<rparr>) (f_node_journals d)\<rparr>"

definition anyRuntimeAuthority :: "Principal \<Rightarrow> string \<Rightarrow> FleetDB \<Rightarrow> bool" where
  "anyRuntimeAuthority p runtime d =
     list_ex (\<lambda>(k, g). fg_NodeID g = pr_NodeID p \<and> (runtime = '''' \<or> fg_RuntimeID g = runtime)) (entries_by_key (f_grants d))"

definition requireNodeJournalTx :: "string \<Rightarrow> string \<Rightarrow> string \<Rightarrow> FleetDB \<Rightarrow> error option" where
  "requireNodeJournalTx node installation agentJournal d = (case fmlookup (f_node_journals d) node of
      None \<Rightarrow> Some ErrScope
    | Some j \<Rightarrow>
        if nj_RecoveryRequired j \<or> nj_InstallationID j \<noteq> installation \<or> nj_StateJournalID j = None then Some ErrRecovery
        else if agentJournal \<noteq> '''' \<and> nj_StateJournalID j \<noteq> Some agentJournal then Some ErrRecovery else None)"

definition RequireRuntimeJournalTx :: "string \<Rightarrow> string \<Rightarrow> string \<Rightarrow> FleetDB \<Rightarrow> error option" where
  "RequireRuntimeJournalTx node installation runtime d = (case requireNodeJournalTx node installation '''' d of
      Some err \<Rightarrow> Some err
    | None \<Rightarrow> (case fmlookup (f_runtime_journals d) (node, runtime) of
          None \<Rightarrow> Some ErrScope
        | Some r \<Rightarrow> if rj_InstallationID r \<noteq> installation then Some ErrRecovery else None))"

text \<open>The loop of \<open>RegisterJournals\<close> over the runtimes: a reason to hold the node, or the journals to add. \<open>n\<close> journals of the node are saved.\<close>

fun register_loop :: "Principal \<Rightarrow> FleetDB \<Rightarrow> nat \<Rightarrow> RuntimeJournal option list \<Rightarrow> (string \<times> FleetRuntimeJournal) list \<Rightarrow>
    (string + (string \<times> FleetRuntimeJournal) list) result" where
  "register_loop p d n [] added = Inr (Inr added)"
| "register_loop p d n (r # rs) added = (let x = the r
     in case fmlookup (f_runtime_journals d) (pr_NodeID p, RuntimeId x) of
          Some old \<Rightarrow>
            if rj_InstallationID old \<noteq> pr_InstallationID p \<or> rj_CoreID old \<noteq> CoreId x \<or> rj_StateJournalID old \<noteq> StateJournalId x
               \<or> rj_CreditJournalID old \<noteq> CreditJournalId x then Inr (Inl ''RUNTIME_JOURNAL_REPLACED'')
            else register_loop p d n rs added
        | None \<Rightarrow>
            if n + length added \<ge> 32 then Inl ErrInvalid
            else if anyRuntimeAuthority p (RuntimeId x) d then Inr (Inl ''RUNTIME_JOURNAL_HISTORY_MISSING'')
            else register_loop p d n rs (added @ [(RuntimeId x, \<lparr>rj_InstallationID = pr_InstallationID p, rj_CoreID = CoreId x,
                   rj_StateJournalID = StateJournalId x, rj_CreditJournalID = CreditJournalId x\<rparr>)]))"

text \<open>The unique indexes of the two tables: the state journal of a node, the state and the credit journal of a runtime.\<close>

definition node_journal_taken :: "string \<Rightarrow> FleetDB \<Rightarrow> bool" where
  "node_journal_taken j d = list_ex (\<lambda>(k, x). nj_StateJournalID x = Some j) (entries_by_key (f_node_journals d))"

definition runtime_journal_taken :: "FleetRuntimeJournal \<Rightarrow> FleetDB \<Rightarrow> bool" where
  "runtime_journal_taken r d = (\<exists>x \<in> fset (fmran (f_runtime_journals d)). rj_StateJournalID x = rj_StateJournalID r \<or> rj_CreditJournalID x = rj_CreditJournalID r)"

definition add_journals :: "Principal \<Rightarrow> string \<Rightarrow> bool \<Rightarrow> (string \<times> FleetRuntimeJournal) list \<Rightarrow> FleetDB \<Rightarrow> FleetDB result" where
  "add_journals p agent fresh added d =
     (if fresh \<and> node_journal_taken agent d then Inl (StorageErr ''unique'')
      else if list_ex (\<lambda>(k, r). runtime_journal_taken r d) added then Inl (StorageErr ''unique'')
      else let d1 = (if fresh then d\<lparr>f_node_journals := fmupd (pr_NodeID p) \<lparr>nj_InstallationID = pr_InstallationID p,
                       nj_StateJournalID = Some agent, nj_RecoveryRequired = False, nj_Reason = ''''\<rparr> (f_node_journals d)\<rparr> else d)
           in Inr (d1\<lparr>f_runtime_journals := fold (\<lambda>(k, r) m. fmupd (pr_NodeID p, k) r m) added (f_runtime_journals d1)\<rparr>))"

definition register_tx :: "(bytes \<Rightarrow> Certificate option) \<Rightarrow> Principal option \<Rightarrow> Principal \<Rightarrow> JournalRegistration \<Rightarrow> FleetDB \<Rightarrow> (bool \<times> FleetDB) result" where
  "register_tx cert verified p q d = (case lockAuthenticatedNode cert verified p d of Some err \<Rightarrow> Inl err | None \<Rightarrow>
     let node = fmlookup (f_node_journals d) (pr_NodeID p); n = fcard (fmdom (fmfilter (\<lambda>(a, b). a = pr_NodeID p) (f_runtime_journals d)))
     in if (case node of None \<Rightarrow> False | Some j \<Rightarrow> nj_RecoveryRequired j) then Inr (True, d)
        else if node = None \<and> anyRuntimeAuthority p '''' d then Inr (True, holdNodeJournal p ''NODE_JOURNAL_HISTORY_MISSING'' d)
        else if (case node of None \<Rightarrow> False | Some j \<Rightarrow> nj_InstallationID j \<noteq> pr_InstallationID p \<or> nj_StateJournalID j \<noteq> Some (AgentStateJournalId q))
          then Inr (True, holdNodeJournal p ''NODE_STATE_JOURNAL_REPLACED'' d)
        else case register_loop p d n (Runtimes q) [] of
            Inl err \<Rightarrow> Inl err
          | Inr (Inl reason) \<Rightarrow> Inr (True, holdNodeJournal p reason d)
          | Inr (Inr added) \<Rightarrow>
              if n + length added > 32 then Inl ErrInvalid
              else (case add_journals p (AgentStateJournalId q) (node = None) added d of Inl err \<Rightarrow> Inl err | Inr d' \<Rightarrow> Inr (False, d')))"

definition RegisterJournals :: "'u uuid_lib \<Rightarrow> (JournalRegistration \<Rightarrow> bytes result) \<Rightarrow> (bytes \<Rightarrow> Certificate option) \<Rightarrow> Principal option \<Rightarrow> Principal \<Rightarrow>
    JournalRegistration option \<Rightarrow> FleetDB \<Rightarrow> (string \<times> bytes) result \<times> FleetDB" where
  "RegisterJournals u digest cert verified p request d = (case NormalizeRegistration u digest request of Inl _ \<Rightarrow> (Inl ErrInvalid, d) | Inr (q, g) \<Rightarrow>
     if Require p (jr_NodeId q) (jr_InstallationId q) \<noteq> None then (Inl ErrScope, d)
     else case on_fleet (register_tx cert verified p q) d of
         (Inl err, d') \<Rightarrow> (Inl err, d')
       | (Inr held, d') \<Rightarrow> (if held then Inl ErrRecovery else Inr (AgentStateJournalId q, g), d'))"

definition agent_tx :: "(bytes \<Rightarrow> Certificate option) \<Rightarrow> Principal option \<Rightarrow> Principal \<Rightarrow> string \<Rightarrow> FleetDB \<Rightarrow> (bool \<times> FleetDB) result" where
  "agent_tx cert verified p j d = (case lockAuthenticatedNode cert verified p d of Some err \<Rightarrow> Inl err | None \<Rightarrow>
     case requireNodeJournalTx (pr_NodeID p) (pr_InstallationID p) j d of
       None \<Rightarrow> Inr (False, d)
     | Some err \<Rightarrow>
         if err = ErrRecovery then Inr (True, holdNodeJournal p ''NODE_STATE_JOURNAL_REPLACED'' d)
         else if err \<noteq> ErrScope then Inl err
         else if \<not> anyRuntimeAuthority p '''' d then Inl ErrScope
         else Inr (True, holdNodeJournal p ''NODE_JOURNAL_HISTORY_MISSING'' d))"

definition RequireAgentJournal_cp :: "'u uuid_lib \<Rightarrow> (bytes \<Rightarrow> Certificate option) \<Rightarrow> Principal option \<Rightarrow> Principal \<Rightarrow> string \<Rightarrow> FleetDB \<Rightarrow>
    unit result \<times> FleetDB" where
  "RequireAgentJournal_cp u cert verified p j d =
     (if \<not> ValidID u j then (Inl ErrInvalid, d)
      else case on_fleet (agent_tx cert verified p j) d of
          (Inl err, d') \<Rightarrow> (Inl err, d')
        | (Inr held, d') \<Rightarrow> (if held then Inl ErrRecovery else Inr (), d'))"

end
