(* ===== verification/Accounting.thy ===== *)
theory Accounting
  imports Fleet UsageQueue
begin

text \<open>
  The accounts of the control plane (\<open>internal/controlplane/accounting.go\<close>, \<open>usage_projection.go\<close>,
  \<open>client_credit.go\<close>): credit is reserved on every budget of a grant before a node may spend it, and the
  usage batches of the nodes are booked once each against meters, grants, budgets and terms. Amounts are
  Go's \<open>int64\<close>; they are kept as integers, and the accounts are shown to stay in its range. Digests of
  requests are parameters; \<open>now\<close> is the time in milliseconds.
\<close>

section \<open>Reserving credit\<close>

record ReserveRequest =
  rq_OperationID :: string
  rq_GrantID :: string
  rq_NodeID :: string
  rq_InstallationID :: string
  rq_RuntimeID :: string
  rq_ClientID :: string
  rq_TermID :: string
  rq_BudgetIDs :: "string list"
  rq_Bytes :: int
  rq_Unlimited :: bool

definition guardManagedReservation :: "int \<Rightarrow> ReserveRequest \<Rightarrow> string \<Rightarrow> FleetDB \<Rightarrow> error option" where
  "guardManagedReservation now_ms q placement d = (case managedAuthority (rq_ClientID q) (rq_TermID q) True d of
      Inl err \<Rightarrow> Some err
    | Inr None \<Rightarrow> None
    | Inr (Some t) \<Rightarrow>
        if tm_BudgetID t \<notin> set (rq_BudgetIDs q) \<or> tm_ExpiresUnixMilli t \<noteq> 0 \<and> tm_ExpiresUnixMilli t \<le> now_ms then Some ErrScope
        else if (case fmlookup (f_clients d) (rq_ClientID q) of None \<Rightarrow> False | Some c \<Rightarrow> cl_Owned c) \<and> placement = '''' then Some ErrScope
        else None)"

definition reserve_check :: "'u uuid_lib \<Rightarrow> ReserveRequest \<Rightarrow> bool" where
  "reserve_check u q \<longleftrightarrow> ValidID u (rq_OperationID q) \<and> ValidID u (rq_GrantID q) \<and> ValidID u (rq_NodeID q) \<and> ValidID u (rq_InstallationID q)
     \<and> ValidID u (rq_ClientID q) \<and> ValidID u (rq_TermID q) \<and> runtimeName (rq_RuntimeID q) \<and> rq_BudgetIDs q \<noteq> [] \<and> length (rq_BudgetIDs q) \<le> 64
     \<and> \<not> (rq_Unlimited q \<and> rq_Bytes q \<noteq> 0) \<and> \<not> (\<not> rq_Unlimited q \<and> rq_Bytes q \<le> 0)"

text \<open>The grant the reservation is for: a new row, or the saved one with the next revision when it is the same grant.\<close>

definition links_of :: "string \<Rightarrow> FleetDB \<Rightarrow> string list" where
  "links_of grant d = sorted_list_of_fset (snd |`| ffilter (\<lambda>(g, b). g = grant) (f_links d))"

definition reserve_grant :: "ReserveRequest \<Rightarrow> string \<Rightarrow> FleetDB \<Rightarrow> FleetGrant result" where
  "reserve_grant q placement d = (case fmlookup (f_grants d) (rq_GrantID q) of
      None \<Rightarrow> Inr \<lparr>fg_ID = rq_GrantID q, fg_PlacementID = (if placement \<noteq> '''' then Some placement else None), fg_NodeID = rq_NodeID q,
         fg_InstallationID = rq_InstallationID q, fg_RuntimeID = rq_RuntimeID q, fg_ClientID = rq_ClientID q, fg_TermID = rq_TermID q,
         fg_Unlimited = rq_Unlimited q, fg_IssuedBytes = 0, fg_ConsumedBytes = 0, fg_Revision = 1\<rparr>
    | Some g \<Rightarrow>
        if fg_NodeID g \<noteq> rq_NodeID q \<or> fg_InstallationID g \<noteq> rq_InstallationID q \<or> fg_ClientID g \<noteq> rq_ClientID q
           \<or> fg_TermID g \<noteq> rq_TermID q \<or> fg_RuntimeID g \<noteq> rq_RuntimeID q \<or> fg_Unlimited g \<noteq> rq_Unlimited q \<or> fg_Revision g = maxInt64
        then Inl ErrScope
        else if placement \<noteq> '''' \<and> fg_PlacementID g \<noteq> Some placement then Inl ErrScope
        else if links_of (rq_GrantID q) d \<noteq> rq_BudgetIDs q then Inl ErrScope
        else Inr (g\<lparr>fg_Revision := fg_Revision g + 1\<rparr>))"

text \<open>The loop over the budgets.\<close>

fun reserve_loop :: "ReserveRequest \<Rightarrow> string list \<Rightarrow> (string, FleetBudget) fmap \<Rightarrow> (string, FleetBudget) fmap result" where
  "reserve_loop q [] m = Inr m"
| "reserve_loop q (k # ks) m = (let b = the (fmlookup m k)
     in if rq_Unlimited q \<and> \<not> b_Unlimited b then Inl ErrBudget
        else if b_Unlimited b then reserve_loop q ks m
        else if b_UsedBytes b > b_LimitBytes b \<or> b_ReservedBytes b > b_LimitBytes b - b_UsedBytes b
                \<or> rq_Bytes q > b_LimitBytes b - b_UsedBytes b - b_ReservedBytes b then Inl ErrBudget
        else reserve_loop q ks (fmupd k (b\<lparr>b_ReservedBytes := b_ReservedBytes b + rq_Bytes q\<rparr>) m))"

definition replay_grant :: "bytes \<Rightarrow> FleetOperation \<Rightarrow> FleetGrant result" where
  "replay_grant digest op = (if op_Digest op \<noteq> digest then Inl ErrConflict
     else case op_Result op of OpGrant g \<Rightarrow> Inr g | _ \<Rightarrow> Inl ErrDecode)"

definition reserve_tx :: "(ReserveRequest \<Rightarrow> bytes) \<Rightarrow> int \<Rightarrow> ReserveRequest \<Rightarrow> string \<Rightarrow> FleetDB \<Rightarrow> (FleetGrant \<times> FleetDB) result" where
  "reserve_tx dig now_ms q placement d = (case lockAuthority d of Some err \<Rightarrow> Inl err | None \<Rightarrow>
     case fmlookup (f_operations d) (rq_OperationID q) of
       Some op \<Rightarrow> (case replay_grant (dig q) op of Inl err \<Rightarrow> Inl err | Inr g \<Rightarrow> Inr (g, d))
     | None \<Rightarrow>
         case lockNode (rq_NodeID q) (rq_InstallationID q) d of Some err \<Rightarrow> Inl err | None \<Rightarrow>
         case RequireRuntimeJournalTx (rq_NodeID q) (rq_InstallationID q) (rq_RuntimeID q) d of Some err \<Rightarrow> Inl err | None \<Rightarrow>
         case guardManagedReservation now_ms q placement d of Some err \<Rightarrow> Inl err | None \<Rightarrow>
         case lockBudgets (rq_BudgetIDs q) d of Inl err \<Rightarrow> Inl err | Inr _ \<Rightarrow>
         case reserve_grant q placement d of Inl err \<Rightarrow> Inl err | Inr g \<Rightarrow>
           if exceeds (fg_IssuedBytes g) (rq_Bytes q) then Inl ErrBudget
           else case reserve_loop q (rq_BudgetIDs q) (f_budgets d) of Inl err \<Rightarrow> Inl err | Inr budgets \<Rightarrow>
             let g' = g\<lparr>fg_IssuedBytes := fg_IssuedBytes g + rq_Bytes q\<rparr>
             in Inr (g', d\<lparr>f_budgets := budgets, f_grants := fmupd (rq_GrantID q) g' (f_grants d),
                     f_links := f_links d |\<union>| fset_of_list (map (\<lambda>b. (rq_GrantID q, b)) (rq_BudgetIDs q)),
                     f_operations := fmupd (rq_OperationID q) \<lparr>op_Digest = dig q, op_Result = OpGrant g'\<rparr> (f_operations d)\<rparr>))"

definition normalize_reserve :: "'u uuid_lib \<Rightarrow> ReserveRequest \<Rightarrow> ReserveRequest result" where
  "normalize_reserve u q =
     (if \<not> reserve_check u q then Inl ErrInvalid
      else let ids = sort (rq_BudgetIDs q)
      in if \<not> list_all (ValidID u) ids \<or> adjacent_equal ids then Inl ErrInvalid else Inr (q\<lparr>rq_BudgetIDs := ids\<rparr>))"

definition reserve :: "'u uuid_lib \<Rightarrow> (ReserveRequest \<Rightarrow> bytes) \<Rightarrow> int \<Rightarrow> ReserveRequest \<Rightarrow> string \<Rightarrow> FleetDB \<Rightarrow> FleetGrant result \<times> FleetDB" where
  "reserve u dig now_ms q placement d = (case normalize_reserve u q of
      Inl err \<Rightarrow> (Inl err, d)
    | Inr q' \<Rightarrow> on_fleet (reserve_tx dig now_ms q' placement) d)"

definition Reserve_cp :: "'u uuid_lib \<Rightarrow> (ReserveRequest \<Rightarrow> bytes) \<Rightarrow> int \<Rightarrow> ReserveRequest \<Rightarrow> FleetDB \<Rightarrow> FleetGrant result \<times> FleetDB" where
  "Reserve_cp u dig now_ms q d = reserve u dig now_ms q '''' d"

section \<open>Booking usage\<close>

fun checkpoints_ok :: "'u uuid_lib \<Rightarrow> UsageCheckpoint option list \<Rightarrow> (string \<times> string \<times> string) fset \<Rightarrow> bool" where
  "checkpoints_ok u [] seen = True"
| "checkpoints_ok u (x # xs) seen = (case x of None \<Rightarrow> False | Some c \<Rightarrow>
     \<not> (\<not> ValidID u (uc_GrantId c) \<or> \<not> ValidID u (uc_ClientId c) \<or> \<not> ValidID u (uc_TermId c) \<or> \<not> ValidID u (uc_Incarnation c)
        \<or> uc_MeterId c = '''' \<or> length (uc_MeterId c) > 128 \<or> uc_Observed c \<le> 0 \<or> uc_Uploaded c > maxInt64u \<or> uc_Downloaded c > maxInt64u)
     \<and> (let k = (uc_GrantId c, uc_MeterId c, uc_Incarnation c) in k |\<notin>| seen \<and> checkpoints_ok u xs (finsert k seen)))"

definition validBatch :: "'u uuid_lib \<Rightarrow> wire_lib \<Rightarrow> UsageBatch option \<Rightarrow> bool" where
  "validBatch u w batch = (case batch of None \<Rightarrow> False | Some b \<Rightarrow>
     \<not> (\<not> ValidID u (ub_NodeId b) \<or> \<not> ValidID u (ub_InstallationId b) \<or> ub_Sequence b = 0 \<or> ub_Sequence b > maxInt64u
        \<or> ub_Checkpoints b = [] \<or> length (ub_Checkpoints b) > 4096 \<or> size_batch w b > 1048576)
     \<and> checkpoints_ok u (ub_Checkpoints b) {||})"

record termUsageDelta =
  d_Uploaded :: int
  d_Downloaded :: int
  d_Observed :: int

text \<open>What the loop over the checkpoints changes in memory.\<close>

record ingest =
  ig_grants :: "(string, FleetGrant) fmap"
  ig_budgets :: "(string, FleetBudget) fmap"
  ig_meters :: "((string \<times> string \<times> string) \<times> FleetMeter) list"
  ig_terms :: "(string \<times> string, termUsageDelta) fmap"
  ig_changedGrants :: "string fset"
  ig_changedBudgets :: "string fset"

fun charge_budgets :: "int \<Rightarrow> string list \<Rightarrow> (string, FleetBudget) fmap \<Rightarrow> string fset \<Rightarrow> ((string, FleetBudget) fmap \<times> string fset) result" where
  "charge_budgets delta [] m ch = Inr (m, ch)"
| "charge_budgets delta (k # ks) m ch = (let b = the (fmlookup m k)
     in if exceeds (b_UsedBytes b) delta \<or> \<not> b_Unlimited b \<and> delta > b_ReservedBytes b then Inl ErrBudget
        else charge_budgets delta ks
               (fmupd k (b\<lparr>b_UsedBytes := b_UsedBytes b + delta,
                          b_ReservedBytes := (if b_Unlimited b then b_ReservedBytes b else b_ReservedBytes b - delta)\<rparr>) m)
               (if delta > 0 then finsert k ch else ch))"

definition term_delta :: "string \<times> string \<Rightarrow> (string \<times> string, termUsageDelta) fmap \<Rightarrow> termUsageDelta" where
  "term_delta k m = (case fmlookup m k of None \<Rightarrow> \<lparr>d_Uploaded = 0, d_Downloaded = 0, d_Observed = 0\<rparr> | Some t \<Rightarrow> t)"

definition ingest_checkpoint :: "FleetDB \<Rightarrow> UsageCheckpoint \<Rightarrow> ingest \<Rightarrow> ingest result" where
  "ingest_checkpoint d c st =
     (let g = the (fmlookup (ig_grants st) (uc_GrantId c)); mk = (uc_GrantId c, uc_MeterId c, uc_Incarnation c)
      in if fg_ClientID g \<noteq> uc_ClientId c \<or> fg_TermID g \<noteq> uc_TermId c \<or> fg_RuntimeID g \<noteq> uc_MeterId c then Inl ErrScope
         else let meter = (case fmlookup (f_meters d) mk of None \<Rightarrow> \<lparr>fm_Uploaded = 0, fm_Downloaded = 0\<rparr> | Some x \<Rightarrow> x);
                  up = uint (uc_Uploaded c); down = uint (uc_Downloaded c)
         in if up < fm_Uploaded meter \<or> down < fm_Downloaded meter then Inl ErrInvalid
            else let dUp = up - fm_Uploaded meter; dDown = down - fm_Downloaded meter
            in if exceeds dUp dDown then Inl ErrBudget
               else let delta = dUp + dDown; tk = (fg_ClientID g, fg_TermID g); t = term_delta tk (ig_terms st)
               in if delta > 0 \<and> (exceeds (d_Uploaded t) dUp \<or> exceeds (d_Downloaded t) dDown) then Inl ErrBudget
                  else if exceeds (fg_ConsumedBytes g) delta \<or> \<not> fg_Unlimited g \<and> delta > fg_IssuedBytes g - fg_ConsumedBytes g then Inl ErrBudget
                  else case charge_budgets delta (links_of (uc_GrantId c) d) (ig_budgets st) (ig_changedBudgets st) of Inl err \<Rightarrow> Inl err
                    | Inr (budgets, ch) \<Rightarrow>
                        Inr \<lparr>ig_grants = fmupd (uc_GrantId c) (g\<lparr>fg_ConsumedBytes := fg_ConsumedBytes g + delta\<rparr>) (ig_grants st),
                             ig_budgets = budgets,
                             ig_meters = ig_meters st @ [(mk, \<lparr>fm_Uploaded = up, fm_Downloaded = down\<rparr>)],
                             ig_terms = (if delta > 0 then fmupd tk \<lparr>d_Uploaded = d_Uploaded t + dUp, d_Downloaded = d_Downloaded t + dDown,
                                           d_Observed = max (d_Observed t) (uc_Observed c)\<rparr> (ig_terms st) else ig_terms st),
                             ig_changedGrants = (if delta > 0 then finsert (uc_GrantId c) (ig_changedGrants st) else ig_changedGrants st),
                             ig_changedBudgets = ch\<rparr>)"

fun ingest_loop :: "FleetDB \<Rightarrow> UsageCheckpoint option list \<Rightarrow> ingest \<Rightarrow> ingest result" where
  "ingest_loop d [] st = Inr st"
| "ingest_loop d (c # cs) st = (case ingest_checkpoint d (the c) st of Inl err \<Rightarrow> Inl err | Inr st' \<Rightarrow> ingest_loop d cs st')"

text \<open>
  \<open>recordTermUsage\<close>: terms the table does not have are left out, and a sum that leaves the range of a
  \<open>bigint\<close> fails the statement. The loops over the deltas are independent of their order: they only
  look for a term with two owners and sort the identifiers.
\<close>

definition two_owners :: "(string \<times> string, termUsageDelta) fmap \<Rightarrow> bool" where
  "two_owners deltas = (\<exists>k \<in> fset (fmdom deltas). \<exists>k' \<in> fset (fmdom deltas). snd k = snd k' \<and> fst k \<noteq> fst k')"

fun record_terms :: "int \<Rightarrow> (string \<times> string, termUsageDelta) fmap \<Rightarrow> (string \<times> string) list \<Rightarrow> FleetDB \<Rightarrow> FleetDB result" where
  "record_terms now_ms deltas [] d = Inr d"
| "record_terms now_ms deltas ((client, t) # ks) d = (case fmlookup (f_terms d) t of
      None \<Rightarrow> record_terms now_ms deltas ks d
    | Some term \<Rightarrow>
        if tm_ClientID term \<noteq> client then Inl ErrScope
        else let x = the (fmlookup deltas (client, t)); observed = min now_ms (d_Observed x); day = (now_ms div 1000) div 86400 * 86400;
                 old = (case fmlookup (f_term_usage d) t of None \<Rightarrow> \<lparr>tu_Uploaded = 0, tu_Downloaded = 0, tu_ObservedUnixMilli = observed, tu_ReceivedUnixMilli = now_ms\<rparr> | Some r \<Rightarrow> r);
                 old_day = (case fmlookup (f_term_days d) (t, day) of None \<Rightarrow> \<lparr>td_Uploaded = 0, td_Downloaded = 0\<rparr> | Some r \<Rightarrow> r)
             in if tu_Uploaded old + d_Uploaded x > maxInt64 \<or> tu_Downloaded old + d_Downloaded x > maxInt64
                   \<or> td_Uploaded old_day + d_Uploaded x > maxInt64 \<or> td_Downloaded old_day + d_Downloaded x > maxInt64
                then Inl (StorageErr ''bigint out of range'')
                else record_terms now_ms deltas ks (d\<lparr>
                  f_term_usage := fmupd t \<lparr>tu_Uploaded = tu_Uploaded old + d_Uploaded x, tu_Downloaded = tu_Downloaded old + d_Downloaded x,
                    tu_ObservedUnixMilli = max (tu_ObservedUnixMilli old) observed, tu_ReceivedUnixMilli = max (tu_ReceivedUnixMilli old) now_ms\<rparr> (f_term_usage d),
                  f_term_days := fmupd (t, day) \<lparr>td_Uploaded = td_Uploaded old_day + d_Uploaded x, td_Downloaded = td_Downloaded old_day + d_Downloaded x\<rparr> (f_term_days d)\<rparr>))"

definition recordTermUsage :: "int \<Rightarrow> (string \<times> string, termUsageDelta) fmap \<Rightarrow> FleetDB \<Rightarrow> FleetDB result" where
  "recordTermUsage now_ms deltas d = (if two_owners deltas then Inl ErrScope
     else record_terms now_ms deltas (map (\<lambda>(t, c). (c, t)) (sorted_list_of_fset ((\<lambda>(c, t). (t, c)) |`| fmdom deltas))) d)"

definition ingest_start :: "Principal \<Rightarrow> UsageBatch \<Rightarrow> FleetDB \<Rightarrow> (ingest \<times> string list \<times> string list) result" where
  "ingest_start p b d =
     (let grantIDs = sorted_list_of_set (uc_GrantId ` the ` set (ub_Checkpoints b));
          budgetIDs = sorted_list_of_set (\<Union>g \<in> set grantIDs. set (links_of g d))
      in case lockBudgets budgetIDs d of Inl err \<Rightarrow> Inl err | Inr budgets \<Rightarrow>
         let grants = fmfilter (\<lambda>k. k \<in> set grantIDs) (f_grants d)
         in if fcard (fmdom grants) \<noteq> length grantIDs then Inl ErrScope
            else if list_ex (\<lambda>k. let g = the (fmlookup grants k) in fg_NodeID g \<noteq> pr_NodeID p \<or> fg_InstallationID g \<noteq> pr_InstallationID p
                     \<or> links_of k d = []) grantIDs then Inl ErrScope
            else Inr (\<lparr>ig_grants = grants, ig_budgets = budgets, ig_meters = [], ig_terms = fmempty, ig_changedGrants = {||}, ig_changedBudgets = {||}\<rparr>,
                      grantIDs, budgetIDs))"

text \<open>The writes after the loop: all meters of the batch, the budgets and grants that changed.\<close>

definition changed_rows :: "'k fset \<Rightarrow> ('k, 'v) fmap \<Rightarrow> ('k, 'v) fmap" where
  "changed_rows ch m = fmfilter (\<lambda>k. k |\<in>| ch) m"

definition ingest_writes :: "ingest \<Rightarrow> FleetDB \<Rightarrow> FleetDB" where
  "ingest_writes st d = d\<lparr>f_meters := fold (\<lambda>(k, x) m. fmupd k x m) (ig_meters st) (f_meters d),
     f_budgets := f_budgets d ++\<^sub>f changed_rows (ig_changedBudgets st) (ig_budgets st),
     f_grants := f_grants d ++\<^sub>f changed_rows (ig_changedGrants st) (ig_grants st)\<rparr>"

definition cursor_of :: "Principal \<Rightarrow> FleetDB \<Rightarrow> FleetUsageCursor" where
  "cursor_of p d = (case fmlookup (f_cursors d) (pr_NodeID p, pr_InstallationID p) of None \<Rightarrow> \<lparr>cu_Sequence = 0, cu_Digest = []\<rparr> | Some c \<Rightarrow> c)"

definition ingest_tx :: "(bytes \<Rightarrow> Certificate option) \<Rightarrow> Principal option \<Rightarrow> int \<Rightarrow> Principal \<Rightarrow> UsageBatch \<Rightarrow> bytes \<Rightarrow> FleetDB \<Rightarrow> (int \<times> FleetDB) result" where
  "ingest_tx cert verified now_ms p b digest d = (case lockAuthority d of Some err \<Rightarrow> Inl err | None \<Rightarrow>
     case lockAuthenticatedNode cert verified p d of Some err \<Rightarrow> Inl err | None \<Rightarrow>
     let cursor = cursor_of p d; sq = uint (ub_Sequence b)
     in if sq \<le> cu_Sequence cursor then
          (if sq = cu_Sequence cursor \<and> cu_Digest cursor \<noteq> digest then Inl ErrConflict else Inr (cu_Sequence cursor, d))
        else if cu_Sequence cursor = maxInt64 \<or> sq \<noteq> cu_Sequence cursor + 1 then Inl ErrSequence
        else case ingest_start p b d of Inl err \<Rightarrow> Inl err | Inr (st0, grantIDs, budgetIDs) \<Rightarrow>
             case ingest_loop d (ub_Checkpoints b) st0 of Inl err \<Rightarrow> Inl err | Inr st \<Rightarrow>
             case recordTermUsage now_ms (ig_terms st) (ingest_writes st d) of Inl err \<Rightarrow> Inl err | Inr d' \<Rightarrow>
             Inr (sq, d'\<lparr>f_cursors := fmupd (pr_NodeID p, pr_InstallationID p) \<lparr>cu_Sequence = sq, cu_Digest = digest\<rparr> (f_cursors d')\<rparr>))"

definition Ingest :: "'u uuid_lib \<Rightarrow> wire_lib \<Rightarrow> (bytes \<Rightarrow> Certificate option) \<Rightarrow> Principal option \<Rightarrow> int \<Rightarrow> Principal \<Rightarrow> UsageBatch option \<Rightarrow> FleetDB \<Rightarrow>
    UsageReceipt result \<times> FleetDB" where
  "Ingest u w cert verified now_ms p batch d =
     (if \<not> validBatch u w batch then (Inl ErrInvalid, d)
      else let b = the batch
      in if Require p (ub_NodeId b) (ub_InstallationId b) \<noteq> None then (Inl ErrScope, d)
         else case on_fleet (ingest_tx cert verified now_ms p b (sha256_batch w b)) d of
             (Inl err, d') \<Rightarrow> (Inl err, d')
           | (Inr acknowledged, d') \<Rightarrow> (Inr \<lparr>DurableSequence = word_of_int acknowledged, AccountedSequence = word_of_int acknowledged\<rparr>, d'))"

section \<open>Credit for a placed client\<close>

record ClientCreditRequest =
  cc_OperationID :: string
  cc_PlacementID :: string
  cc_ExpectedPlacementRevision :: u64
  cc_ExpectedRevision :: u64
  cc_ExpectedCredentialGeneration :: u64
  cc_TermID :: string
  cc_SourcePolicyDigest :: bytes
  cc_ParentBudgetIDs :: "string list"
  cc_ParentLimitBytes :: "(string, int) fmap"
  cc_Bytes :: int
  cc_AuthorityCeiling :: int
  cc_AllowPartial :: bool

definition credit_request_ok :: "'u uuid_lib \<Rightarrow> ClientCreditRequest \<Rightarrow> bool" where
  "credit_request_ok u q \<longleftrightarrow> \<not> (\<not> ValidID u (cc_OperationID q) \<or> \<not> ValidID u (cc_PlacementID q) \<or> \<not> ValidID u (cc_TermID q)
     \<or> cc_ExpectedPlacementRevision q = 0 \<or> cc_ExpectedPlacementRevision q > maxInt64u \<or> cc_ExpectedRevision q = 0 \<or> cc_ExpectedRevision q > maxInt64u
     \<or> cc_ExpectedCredentialGeneration q = 0 \<or> cc_ExpectedCredentialGeneration q > maxInt64u \<or> length (cc_SourcePolicyDigest q) \<noteq> 32
     \<or> cc_Bytes q \<le> 0 \<or> cc_AuthorityCeiling q < 0 \<or> length (cc_ParentBudgetIDs q) > 63)"

definition normalize_credit :: "'u uuid_lib \<Rightarrow> ClientCreditRequest \<Rightarrow> ClientCreditRequest result" where
  "normalize_credit u q =
     (if \<not> credit_request_ok u q then Inl ErrInvalid
      else let ids = sort (cc_ParentBudgetIDs q)
      in if \<not> list_all (ValidID u) ids \<or> adjacent_equal ids then Inl ErrInvalid
         else if fcard (fmdom (cc_ParentLimitBytes q)) \<noteq> length ids then Inl ErrInvalid
         else if list_ex (\<lambda>k. case fmlookup (cc_ParentLimitBytes q) k of None \<Rightarrow> True | Some limit \<Rightarrow> limit < 0) ids then Inl ErrInvalid
         else Inr (q\<lparr>cc_ParentBudgetIDs := ids\<rparr>))"

text \<open>What the placement, its client and its inbounds must be.\<close>

definition placement_guard :: "ClientCreditRequest \<Rightarrow> FleetPlacement \<Rightarrow> FleetDB \<Rightarrow> error option" where
  "placement_guard q pl d = (case lockNode (pl_NodeID pl) (pl_InstallationID pl) d of Some err \<Rightarrow> Some err | None \<Rightarrow>
     case RequireRuntimeJournalTx (pl_NodeID pl) (pl_InstallationID pl) (pl_RuntimeID pl) d of Some err \<Rightarrow> Some err | None \<Rightarrow>
     case lockClient (pl_ClientID pl) d of Inl err \<Rightarrow> Some err | Inr c \<Rightarrow>
       if \<not> cl_Owned c \<or> word_of_int (cl_Revision c) \<noteq> cc_ExpectedRevision q \<or> word_of_int (cl_CredentialGeneration c) \<noteq> cc_ExpectedCredentialGeneration q
          \<or> cl_CurrentTermID c \<noteq> Some (cc_TermID q) then Some ErrRevision
       else if \<not> pl_Enabled pl \<or> length (pl_GraphDigest pl) \<noteq> 32 \<or> word_of_int (pl_Revision pl) \<noteq> cc_ExpectedPlacementRevision q
          \<or> pl_CredentialGeneration pl \<noteq> cl_CredentialGeneration c \<or> pl_SourcePolicyDigest pl \<noteq> cc_SourcePolicyDigest q then Some ErrScope
       else let refs = fmfilter (\<lambda>(a, b). a = cc_PlacementID q) (f_placement_inbounds d)
            in if refs = fmempty \<or> None |\<in>| fmran refs then Some ErrScope else None)"

fun parent_limits :: "ClientCreditRequest \<Rightarrow> string list \<Rightarrow> (string, FleetBudget) fmap \<Rightarrow> (string, FleetBudget) fmap result" where
  "parent_limits q [] m = Inr m"
| "parent_limits q (k # ks) m = (let b = the (fmlookup m k); limit = the (fmlookup (cc_ParentLimitBytes q) k)
     in if b_Unlimited b \<or> b_UsedBytes b > limit \<or> b_ReservedBytes b > limit - b_UsedBytes b then Inl ErrBudget
        else parent_limits q ks (if b_LimitBytes b \<noteq> limit then fmupd k (b\<lparr>b_LimitBytes := limit\<rparr>) m else m))"

definition free_bytes :: "FleetBudget \<Rightarrow> int" where
  "free_bytes b = b_LimitBytes b - b_UsedBytes b - b_ReservedBytes b"

definition partial_amount :: "ClientCreditRequest \<Rightarrow> FleetBudget list \<Rightarrow> int result" where
  "partial_amount q bs =
     (if \<not> cc_AllowPartial q then Inr (cc_Bytes q)
      else if list_ex (\<lambda>b. \<not> b_Unlimited b \<and> (b_UsedBytes b > b_LimitBytes b \<or> b_ReservedBytes b > b_LimitBytes b - b_UsedBytes b)) bs then Inl ErrBudget
      else Inr (fold (\<lambda>b n. if b_Unlimited b then n else min n (free_bytes b)) bs (cc_Bytes q)))"

text \<open>The sums over the grants of a client and term; a sum outside \<open>int64\<close> cannot be scanned.\<close>

definition term_grants :: "string \<Rightarrow> string \<Rightarrow> FleetDB \<Rightarrow> FleetGrant list" where
  "term_grants client t d = filter (\<lambda>g. fg_ClientID g = client \<and> fg_TermID g = t) (map snd (entries_by_key (f_grants d)))"

definition ceiling_amount :: "ClientCreditRequest \<Rightarrow> string \<Rightarrow> FleetBudget \<Rightarrow> int \<Rightarrow> FleetDB \<Rightarrow> int result" where
  "ceiling_amount q client own amount d =
     (if cc_AuthorityCeiling q = 0 then Inr amount
      else let gs = term_grants client (cc_TermID q) d; issued = sum_list (map fg_IssuedBytes gs); consumed = sum_list (map fg_ConsumedBytes gs)
      in if b_Unlimited own \<and> (issued > maxInt64 \<or> consumed > maxInt64) then Inl (StorageErr ''bigint out of range'')
         else if b_Unlimited own \<and> (list_ex fg_Unlimited gs \<or> consumed > b_UsedBytes own \<or> consumed > issued) then Inl ErrBudget
         else let used = (if b_Unlimited own then b_UsedBytes own - consumed else b_UsedBytes own);
                  reserved = (if b_Unlimited own then issued else b_ReservedBytes own)
         in if used > cc_AuthorityCeiling q \<or> reserved > cc_AuthorityCeiling q - used then Inl ErrBudget
            else let remaining = cc_AuthorityCeiling q - used - reserved
            in if cc_AllowPartial q then Inr (min amount remaining)
               else if amount > remaining then Inl ErrBudget else Inr amount)"

text \<open>The rest of the transaction once the operation is claimed; \<open>ledger\<close> is the operation of the reservation, \<open>fresh\<close> a new identifier.\<close>

definition credit_claimed :: "'u uuid_lib \<Rightarrow> (ReserveRequest \<Rightarrow> bytes) \<Rightarrow> string \<Rightarrow> string \<Rightarrow> int \<Rightarrow> ClientCreditRequest \<Rightarrow> FleetPlacement \<Rightarrow> FleetTerm \<Rightarrow>
    FleetDB \<Rightarrow> (FleetGrant \<times> FleetDB) result" where
  "credit_claimed u dig ledger fresh now_ms q pl t d =
     (let ids = tm_BudgetID t # cc_ParentBudgetIDs q
      in case lockBudgets ids d of Inl err \<Rightarrow> Inl err | Inr _ \<Rightarrow>
         case parent_limits q (cc_ParentBudgetIDs q) (f_budgets d) of Inl err \<Rightarrow> Inl err | Inr m \<Rightarrow>
         let d1 = d\<lparr>f_budgets := m\<rparr>; own = the (fmlookup m (tm_BudgetID t))
         in case partial_amount q (map (\<lambda>k. the (fmlookup m k)) ids) of Inl err \<Rightarrow> Inl err | Inr partial \<Rightarrow>
            case ceiling_amount q (pl_ClientID pl) own partial d1 of Inl err \<Rightarrow> Inl err | Inr amount \<Rightarrow>
            if amount \<le> 0 then Inl ErrBudget
            else let grant = (if pl_CurrentGrantID pl \<noteq> None \<and> pl_CurrentGrantTermID pl = Some (cc_TermID q) then the (pl_CurrentGrantID pl) else fresh);
                     rq = \<lparr>rq_OperationID = ledger, rq_GrantID = grant, rq_NodeID = pl_NodeID pl, rq_InstallationID = pl_InstallationID pl,
                           rq_RuntimeID = pl_RuntimeID pl, rq_ClientID = pl_ClientID pl, rq_TermID = cc_TermID q, rq_BudgetIDs = ids, rq_Bytes = amount,
                           rq_Unlimited = False\<rparr>
                 in case normalize_reserve u rq of Inl err \<Rightarrow> Inl err | Inr rq' \<Rightarrow>
                    case reserve_tx dig now_ms rq' (cc_PlacementID q) d1 of Inl err \<Rightarrow> Inl err | Inr (g, d2) \<Rightarrow>
                    Inr (g, d2\<lparr>f_placements := fmupd (cc_PlacementID q) (pl\<lparr>pl_CurrentGrantID := Some (fg_ID g), pl_CurrentGrantTermID := Some (cc_TermID q)\<rparr>) (f_placements d2)\<rparr>))"

definition client_credit_tx :: "'u uuid_lib \<Rightarrow> (ClientCreditRequest \<Rightarrow> bytes) \<Rightarrow> (ReserveRequest \<Rightarrow> bytes) \<Rightarrow> (string \<Rightarrow> string) \<Rightarrow> string \<Rightarrow> int \<Rightarrow>
    ClientCreditRequest \<Rightarrow> FleetDB \<Rightarrow> (FleetGrant \<times> FleetDB) result" where
  "client_credit_tx u cdig dig sha1 fresh now_ms q d = (case lockAuthority d of Some err \<Rightarrow> Inl err | None \<Rightarrow>
     case First (f_placements d) (cc_PlacementID q) of Inl err \<Rightarrow> Inl err | Inr pl \<Rightarrow>
     case placement_guard q pl d of Some err \<Rightarrow> Inl err | None \<Rightarrow>
     case managedAuthority (pl_ClientID pl) (cc_TermID q) True d of Inl err \<Rightarrow> Inl err | Inr None \<Rightarrow> Inl ErrScope | Inr (Some t) \<Rightarrow>
     case fmlookup (f_operations d) (cc_OperationID q) of
       Some op \<Rightarrow> (case replay_grant (cdig q) op of Inl err \<Rightarrow> Inl err | Inr g \<Rightarrow> Inr (g, d))
     | None \<Rightarrow>
         case credit_claimed u dig (sha1 (cc_OperationID q)) fresh now_ms q pl t
                (d\<lparr>f_operations := fmupd (cc_OperationID q) \<lparr>op_Digest = cdig q, op_Result = OpNone\<rparr> (f_operations d)\<rparr>) of
           Inl err \<Rightarrow> Inl err
         | Inr (g, d') \<Rightarrow> Inr (g, d'\<lparr>f_operations := fmupd (cc_OperationID q) \<lparr>op_Digest = cdig q, op_Result = OpGrant g\<rparr> (f_operations d')\<rparr>))"

definition ReserveClientCredit :: "'u uuid_lib \<Rightarrow> (ClientCreditRequest \<Rightarrow> bytes) \<Rightarrow> (ReserveRequest \<Rightarrow> bytes) \<Rightarrow> (string \<Rightarrow> string) \<Rightarrow> string \<Rightarrow> int \<Rightarrow>
    ClientCreditRequest \<Rightarrow> FleetDB \<Rightarrow> FleetGrant result \<times> FleetDB" where
  "ReserveClientCredit u cdig dig sha1 fresh now_ms q d = (case normalize_credit u q of
      Inl err \<Rightarrow> (Inl err, d)
    | Inr q' \<Rightarrow> on_fleet (client_credit_tx u cdig dig sha1 fresh now_ms q') d)"

section \<open>The books\<close>

abbreviation grant_row :: "FleetDB \<Rightarrow> string \<Rightarrow> FleetGrant" where
  "grant_row d g \<equiv> the (fmlookup (f_grants d) g)"

definition funded_by :: "FleetDB \<Rightarrow> string \<Rightarrow> string set" where
  "funded_by d k = {g. (g, k) |\<in>| f_links d}"

text \<open>What the grants of a budget may still spend, what they have spent, and what the meters of a grant show.\<close>

definition owed :: "FleetDB \<Rightarrow> string \<Rightarrow> int" where
  "owed d k = (\<Sum>g \<in> funded_by d k. fg_IssuedBytes (grant_row d g) - fg_ConsumedBytes (grant_row d g))"

definition spent :: "FleetDB \<Rightarrow> string \<Rightarrow> int" where
  "spent d k = (\<Sum>g \<in> funded_by d k. fg_ConsumedBytes (grant_row d g))"

definition metered :: "FleetDB \<Rightarrow> string \<Rightarrow> int" where
  "metered d g = (\<Sum>k \<in> {k. k |\<in>| fmdom (f_meters d) \<and> fst k = g}. fm_Uploaded (the (fmlookup (f_meters d) k)) + fm_Downloaded (the (fmlookup (f_meters d) k)))"

definition budget_ok :: "FleetBudget \<Rightarrow> bool" where
  "budget_ok b \<longleftrightarrow> 0 \<le> b_UsedBytes b \<and> b_UsedBytes b \<le> maxInt64 \<and> 0 \<le> b_ReservedBytes b \<and> b_LimitBytes b \<le> maxInt64
     \<and> (\<not> b_Unlimited b \<longrightarrow> b_UsedBytes b + b_ReservedBytes b \<le> b_LimitBytes b)"

definition grant_ok :: "FleetGrant \<Rightarrow> bool" where
  "grant_ok g \<longleftrightarrow> 0 \<le> fg_ConsumedBytes g \<and> fg_ConsumedBytes g \<le> maxInt64 \<and> 0 \<le> fg_IssuedBytes g \<and> fg_IssuedBytes g \<le> maxInt64
     \<and> (\<not> fg_Unlimited g \<longrightarrow> fg_ConsumedBytes g \<le> fg_IssuedBytes g)"

text \<open>\<open>initial\<close> is what a budget had used when it was opened.\<close>

definition acct_ok :: "(string \<Rightarrow> int) \<Rightarrow> FleetDB \<Rightarrow> bool" where
  "acct_ok initial d \<longleftrightarrow>
     (\<forall>k b. fmlookup (f_budgets d) k = Some b \<longrightarrow> budget_ok b \<and> b_UsedBytes b = initial k + spent d k \<and> (\<not> b_Unlimited b \<longrightarrow> b_ReservedBytes b = owed d k))
     \<and> (\<forall>g x. fmlookup (f_grants d) g = Some x \<longrightarrow> grant_ok x \<and> fg_ConsumedBytes x = metered d g)
     \<and> (\<forall>g k. (g, k) |\<in>| f_links d \<longrightarrow> (\<exists>x b. fmlookup (f_grants d) g = Some x \<and> fmlookup (f_budgets d) k = Some b \<and> (fg_Unlimited x \<longrightarrow> b_Unlimited b)))
     \<and> (\<forall>k x. fmlookup (f_meters d) k = Some x \<longrightarrow> fmlookup (f_grants d) (fst k) \<noteq> None \<and> 0 \<le> fm_Uploaded x \<and> 0 \<le> fm_Downloaded x)"

lemma finite_funded: "finite (funded_by d k)"
proof -
  have "funded_by d k = fst ` {p \<in> fset (f_links d). snd p = k}" by (force simp: funded_by_def)
  then show ?thesis by simp
qed

lemma sum_at:
  fixes f f' :: "'a \<Rightarrow> int"
  assumes "finite A" and "\<And>x. x \<in> A \<Longrightarrow> x \<noteq> a \<Longrightarrow> f' x = f x"
  shows "sum f' A = sum f A + (if a \<in> A then f' a - f a else 0)"
proof (cases "a \<in> A")
  case True
  have "sum f' (A - {a}) = sum f (A - {a})" using assms(2) by (intro sum.cong) auto
  then show ?thesis using True assms(1) by (simp add: sum.remove [of A a])
next
  case False
  then show ?thesis using assms(2) by (auto intro: sum.cong)
qed

lemma links_of_set: "set (links_of g d) = {k. (g, k) |\<in>| f_links d}" "distinct (links_of g d)"
  by (force simp: links_of_def sorted_list_of_fset.rep_eq)+

lemma charge_budgets_spec:
  assumes "charge_budgets delta ks m ch = Inr (m', ch')" and "distinct ks" and "\<And>k. k \<in> set ks \<Longrightarrow> fmlookup m k \<noteq> None"
  shows "(\<forall>k. fmlookup m' k = (if k \<in> set ks then Some (let b = the (fmlookup m k) in b\<lparr>b_UsedBytes := b_UsedBytes b + delta,
        b_ReservedBytes := (if b_Unlimited b then b_ReservedBytes b else b_ReservedBytes b - delta)\<rparr>) else fmlookup m k))
    \<and> (\<forall>k \<in> set ks. let b = the (fmlookup m k) in \<not> exceeds (b_UsedBytes b) delta \<and> (\<not> b_Unlimited b \<longrightarrow> delta \<le> b_ReservedBytes b))
    \<and> ch' = (if delta > 0 then ch |\<union>| fset_of_list ks else ch)"
  using assms
proof (induction ks arbitrary: m ch)
  case (Cons k ks)
  let ?b = "the (fmlookup m k)"
  let ?b' = "?b\<lparr>b_UsedBytes := b_UsedBytes ?b + delta, b_ReservedBytes := (if b_Unlimited ?b then b_ReservedBytes ?b else b_ReservedBytes ?b - delta)\<rparr>"
  let ?ch = "if delta > 0 then finsert k ch else ch"
  have g: "\<not> exceeds (b_UsedBytes ?b) delta" "\<not> b_Unlimited ?b \<longrightarrow> delta \<le> b_ReservedBytes ?b"
    and rest: "charge_budgets delta ks (fmupd k ?b' m) ?ch = Inr (m', ch')"
    using Cons.prems(1) by (auto simp: Let_def split: if_splits)
  have nk: "k \<notin> set ks" "distinct ks" using Cons.prems(2) by simp_all
  have "\<And>j. j \<in> set ks \<Longrightarrow> fmlookup (fmupd k ?b' m) j \<noteq> None" using Cons.prems(3) by simp
  note IH = Cons.IH [OF rest nk(2) this]
  have same: "fmlookup (fmupd k ?b' m) j = fmlookup m j" if "j \<in> set ks" for j using that nk by auto
  have ch: "ch' = (if delta > 0 then ch |\<union>| fset_of_list (k # ks) else ch)" using IH by auto
  show ?case
  proof (intro conjI allI ballI ch)
    fix j
    show "fmlookup m' j = (if j \<in> set (k # ks) then Some (let b = the (fmlookup m j) in b\<lparr>b_UsedBytes := b_UsedBytes b + delta,
        b_ReservedBytes := (if b_Unlimited b then b_ReservedBytes b else b_ReservedBytes b - delta)\<rparr>) else fmlookup m j)"
    proof (cases "j \<in> set ks")
      case True
      then show ?thesis using IH same [OF True] by (simp add: Let_def)
    next
      case False
      then have "fmlookup m' j = fmlookup (fmupd k ?b' m) j" using IH by simp
      then show ?thesis using False by (simp add: Let_def)
    qed
  next
    fix j
    assume j: "j \<in> set (k # ks)"
    show "let b = the (fmlookup m j) in \<not> exceeds (b_UsedBytes b) delta \<and> (\<not> b_Unlimited b \<longrightarrow> delta \<le> b_ReservedBytes b)"
    proof (cases "j \<in> set ks")
      case True
      then show ?thesis using IH same [OF True] by (metis (no_types, lifting))
    next
      case False
      then show ?thesis using j g by (simp add: Let_def)
    qed
  qed
qed simp

lemma reserve_loop_spec:
  assumes "reserve_loop q ks m = Inr m'" and "distinct ks" and "\<And>k. k \<in> set ks \<Longrightarrow> fmlookup m k \<noteq> None"
  shows "(\<forall>k. fmlookup m' k = (if k \<in> set ks \<and> \<not> b_Unlimited (the (fmlookup m k))
        then Some ((the (fmlookup m k))\<lparr>b_ReservedBytes := b_ReservedBytes (the (fmlookup m k)) + rq_Bytes q\<rparr>) else fmlookup m k))
    \<and> (\<forall>k \<in> set ks. let b = the (fmlookup m k) in (rq_Unlimited q \<longrightarrow> b_Unlimited b)
        \<and> (\<not> b_Unlimited b \<longrightarrow> b_UsedBytes b + b_ReservedBytes b + rq_Bytes q \<le> b_LimitBytes b))"
  using assms
proof (induction ks arbitrary: m)
  case (Cons k ks)
  let ?b = "the (fmlookup m k)"
  let ?m = "if b_Unlimited ?b then m else fmupd k (?b\<lparr>b_ReservedBytes := b_ReservedBytes ?b + rq_Bytes q\<rparr>) m"
  have g: "rq_Unlimited q \<longrightarrow> b_Unlimited ?b" "\<not> b_Unlimited ?b \<longrightarrow> b_UsedBytes ?b + b_ReservedBytes ?b + rq_Bytes q \<le> b_LimitBytes ?b"
    and rest: "reserve_loop q ks ?m = Inr m'" using Cons.prems(1) by (auto simp: Let_def split: if_splits)
  have nk: "k \<notin> set ks" "distinct ks" using Cons.prems(2) by simp_all
  have "\<And>j. j \<in> set ks \<Longrightarrow> fmlookup ?m j \<noteq> None" using Cons.prems(3) by simp
  note IH = Cons.IH [OF rest nk(2) this]
  have same: "fmlookup ?m j = fmlookup m j" if "j \<in> set ks" for j using that nk by auto
  show ?case
  proof (intro conjI allI ballI)
    fix j
    show "fmlookup m' j = (if j \<in> set (k # ks) \<and> \<not> b_Unlimited (the (fmlookup m j))
        then Some ((the (fmlookup m j))\<lparr>b_ReservedBytes := b_ReservedBytes (the (fmlookup m j)) + rq_Bytes q\<rparr>) else fmlookup m j)"
    proof (cases "j \<in> set ks")
      case True
      then show ?thesis using IH same [OF True] by simp
    next
      case False
      then have "fmlookup m' j = fmlookup ?m j" using IH by simp
      then show ?thesis using False by auto
    qed
  next
    fix j
    assume j: "j \<in> set (k # ks)"
    show "let b = the (fmlookup m j) in (rq_Unlimited q \<longrightarrow> b_Unlimited b) \<and> (\<not> b_Unlimited b \<longrightarrow> b_UsedBytes b + b_ReservedBytes b + rq_Bytes q \<le> b_LimitBytes b)"
    proof (cases "j \<in> set ks")
      case True
      then show ?thesis using IH same [OF True] by (metis (no_types, lifting))
    next
      case False
      then show ?thesis using j g by (simp add: Let_def)
    qed
  qed
qed simp

lemma lockBudgets_all:
  assumes "lockBudgets ids d = Inr m"
  shows "ids \<noteq> []" "distinct ids" "k \<in> set ids \<Longrightarrow> fmlookup (f_budgets d) k \<noteq> None"
    "fmlookup m k = (if k \<in> set ids then fmlookup (f_budgets d) k else None)"
proof -
  let ?f = "fmfilter (\<lambda>k. k \<in> set ids) (f_budgets d)"
  have m: "ids \<noteq> []" "m = ?f" "fcard (fmdom ?f) = length ids" using assms by (auto simp: lockBudgets_def Let_def split: if_splits)
  have s: "fset (fmdom ?f) \<subseteq> set ids" by auto
  then have "card (fset (fmdom ?f)) \<le> card (set ids)" by (intro card_mono) simp_all
  then have c: "card (set ids) = length ids" "card (fset (fmdom ?f)) = card (set ids)" using m(3) card_length [of ids] by (simp_all add: fcard.rep_eq)
  have "fset (fmdom ?f) = set ids" using s c(2) by (intro card_subset_eq) simp_all
  then show "k \<in> set ids \<Longrightarrow> fmlookup (f_budgets d) k \<noteq> None" by (auto simp: fmlookup_dom_iff set_eq_iff)
  show "ids \<noteq> []" "distinct ids" using m(1) card_distinct [OF c(1)] by simp_all
  show "fmlookup m k = (if k \<in> set ids then fmlookup (f_budgets d) k else None)" using m(2) by simp
qed

lemma acct_parts:
  assumes "acct_ok initial d"
  shows "fmlookup (f_budgets d) k = Some b \<Longrightarrow> budget_ok b \<and> b_UsedBytes b = initial k + spent d k \<and> (\<not> b_Unlimited b \<longrightarrow> b_ReservedBytes b = owed d k)"
    "fmlookup (f_grants d) g = Some x \<Longrightarrow> grant_ok x \<and> fg_ConsumedBytes x = metered d g"
    "(g, k) |\<in>| f_links d \<Longrightarrow> \<exists>x b. fmlookup (f_grants d) g = Some x \<and> fmlookup (f_budgets d) k = Some b \<and> (fg_Unlimited x \<longrightarrow> b_Unlimited b)"
    "fmlookup (f_meters d) mk = Some y \<Longrightarrow> fmlookup (f_grants d) (fst mk) \<noteq> None \<and> 0 \<le> fm_Uploaded y \<and> 0 \<le> fm_Downloaded y"
  using assms unfolding acct_ok_def by blast+

text \<open>A grant gets more credit on all its budgets.\<close>

lemma credit_sums:
  assumes ok: "acct_ok initial d" and gr: "f_grants d' = fmupd gid g' (f_grants d)"
    and lk: "\<And>x k. (x, k) |\<in>| f_links d' \<longleftrightarrow> (x, k) |\<in>| f_links d \<or> x = gid \<and> k \<in> set ids"
    and g: "case fmlookup (f_grants d) gid of None \<Rightarrow> fg_IssuedBytes g' = n \<and> fg_ConsumedBytes g' = 0
        | Some x \<Rightarrow> fg_IssuedBytes g' = fg_IssuedBytes x + n \<and> fg_ConsumedBytes g' = fg_ConsumedBytes x \<and> set (links_of gid d) = set ids"
  shows "spent d' k = spent d k \<and> owed d' k = owed d k + (if k \<in> set ids then n else 0)"
proof -
  let ?A = "funded_by d k" and ?h = "\<lambda>d x. fg_IssuedBytes (grant_row d x) - fg_ConsumedBytes (grant_row d x)"
  have rows: "grant_row d' x = (if x = gid then g' else grant_row d x)" for x by (simp add: gr)
  have A': "funded_by d' k = (if k \<in> set ids then insert gid ?A else ?A)" by (auto simp: funded_by_def lk)
  show ?thesis
  proof (cases "fmlookup (f_grants d) gid")
    case None
    then have new: "gid \<notin> ?A" using acct_parts(3) [OF ok, of gid k] by (auto simp: funded_by_def)
    have s: "(\<Sum>x \<in> ?A. fg_ConsumedBytes (grant_row d' x)) = spent d k" "(\<Sum>x \<in> ?A. ?h d' x) = owed d k"
      unfolding spent_def owed_def using new by (auto intro!: sum.cong simp: rows)
    have g0: "fg_IssuedBytes g' = n" "fg_ConsumedBytes g' = 0" using g None by simp_all
    show ?thesis using s new finite_funded [of d k] by (simp add: spent_def [of d'] owed_def [of d'] A' rows g0)
  next
    case (Some x)
    then have g1: "fg_IssuedBytes g' = fg_IssuedBytes x + n" "fg_ConsumedBytes g' = fg_ConsumedBytes x" and l: "set (links_of gid d) = set ids"
      using g by simp_all
    have mem: "gid \<in> ?A \<longleftrightarrow> k \<in> set ids" using l by (auto simp: funded_by_def links_of_set)
    then have "funded_by d' k = ?A" using A' by auto
    moreover have "(\<Sum>y \<in> ?A. fg_ConsumedBytes (grant_row d' y)) = spent d k"
      unfolding spent_def by (intro sum.cong) (auto simp: rows Some g1)
    moreover have "(\<Sum>y \<in> ?A. ?h d' y) = owed d k + (if gid \<in> ?A then ?h d' gid - ?h d gid else 0)"
      unfolding owed_def by (rule sum_at [OF finite_funded]) (simp add: rows)
    ultimately show ?thesis using mem Some g1 by (simp add: spent_def [of d'] owed_def [of d'] rows)
  qed
qed

lemma acct_credit:
  assumes ok: "acct_ok initial d" and gr: "f_grants d' = fmupd gid g' (f_grants d)" and mt: "f_meters d' = f_meters d"
    and lk: "\<And>x k. (x, k) |\<in>| f_links d' \<longleftrightarrow> (x, k) |\<in>| f_links d \<or> x = gid \<and> k \<in> set ids"
    and g: "case fmlookup (f_grants d) gid of None \<Rightarrow> fg_IssuedBytes g' = n \<and> fg_ConsumedBytes g' = 0
        | Some x \<Rightarrow> fg_IssuedBytes g' = fg_IssuedBytes x + n \<and> fg_ConsumedBytes g' = fg_ConsumedBytes x \<and> fg_Unlimited g' = fg_Unlimited x
            \<and> set (links_of gid d) = set ids"
    and n: "0 \<le> n" "fg_IssuedBytes g' \<le> maxInt64"
    and bu: "\<And>k. fmlookup (f_budgets d') k = (if k \<in> set ids \<and> \<not> b_Unlimited (the (fmlookup (f_budgets d) k))
        then Some ((the (fmlookup (f_budgets d) k))\<lparr>b_ReservedBytes := b_ReservedBytes (the (fmlookup (f_budgets d) k)) + n\<rparr>) else fmlookup (f_budgets d) k)"
    and ids: "\<And>k. k \<in> set ids \<Longrightarrow> fmlookup (f_budgets d) k \<noteq> None"
    and gd: "\<And>k. k \<in> set ids \<Longrightarrow> let b = the (fmlookup (f_budgets d) k) in (fg_Unlimited g' \<longrightarrow> b_Unlimited b)
        \<and> (\<not> b_Unlimited b \<longrightarrow> b_UsedBytes b + b_ReservedBytes b + n \<le> b_LimitBytes b)"
  shows "acct_ok initial d'"
proof -
  have "case fmlookup (f_grants d) gid of None \<Rightarrow> fg_IssuedBytes g' = n \<and> fg_ConsumedBytes g' = 0
        | Some x \<Rightarrow> fg_IssuedBytes g' = fg_IssuedBytes x + n \<and> fg_ConsumedBytes g' = fg_ConsumedBytes x \<and> set (links_of gid d) = set ids"
    using g by (auto split: option.splits)
  note sums = credit_sums [OF ok gr lk this]
  have met: "metered d' x = metered d x" for x by (simp add: metered_def mt)
  have B: "budget_ok b \<and> b_UsedBytes b = initial k + spent d' k \<and> (\<not> b_Unlimited b \<longrightarrow> b_ReservedBytes b = owed d' k)"
    if b: "fmlookup (f_budgets d') k = Some b" for k b
  proof -
    have "fmlookup (f_budgets d) k \<noteq> None" using b bu [of k] ids [of k] by (auto split: if_splits)
    then obtain b0 where b0: "fmlookup (f_budgets d) k = Some b0" by blast
    note a = acct_parts(1) [OF ok b0]
    show ?thesis
    proof (cases "k \<in> set ids \<and> \<not> b_Unlimited b0")
      case True
      then have "b = b0\<lparr>b_ReservedBytes := b_ReservedBytes b0 + n\<rparr>" using b bu [of k] b0 by simp
      moreover have "b_UsedBytes b0 + b_ReservedBytes b0 + n \<le> b_LimitBytes b0" using gd [of k] True b0 by (simp add: Let_def)
      ultimately show ?thesis using a sums [of k] True n(1) by (simp add: budget_ok_def)
    next
      case False
      then have "b = b0" using b bu [of k] b0 by (auto split: if_splits)
      then show ?thesis using a sums [of k] False by auto
    qed
  qed
  have G: "grant_ok x \<and> fg_ConsumedBytes x = metered d' y" if "fmlookup (f_grants d') y = Some x" for x y
  proof (cases "y = gid")
    case True
    then have x: "x = g'" using that gr by simp
    show ?thesis
    proof (cases "fmlookup (f_grants d) gid")
      case None
      have "{k. k |\<in>| fmdom (f_meters d) \<and> fst k = gid} = {}" using acct_parts(4) [OF ok] None by (fastforce simp: fmlookup_dom_iff)
      then have "metered d gid = 0" unfolding metered_def by (simp only: sum.empty)
      then show ?thesis using g None n x True by (simp add: grant_ok_def met maxInt64_def)
    next
      case (Some z)
      then show ?thesis using acct_parts(2) [OF ok Some] g n x True by (auto simp: grant_ok_def met)
    qed
  next
    case False
    then show ?thesis using that gr acct_parts(2) [OF ok, of y x] by (simp add: met)
  qed
  have L: "\<exists>x b. fmlookup (f_grants d') y = Some x \<and> fmlookup (f_budgets d') k = Some b \<and> (fg_Unlimited x \<longrightarrow> b_Unlimited b)"
    if "(y, k) |\<in>| f_links d'" for y k
  proof -
    have bk: "fmlookup (f_budgets d') k = Some b \<Longrightarrow> b_Unlimited b = b_Unlimited (the (fmlookup (f_budgets d) k))" for b
      using bu [of k] by (auto split: if_splits)
    show ?thesis
    proof (cases "y = gid \<and> k \<in> set ids")
      case True
      then have "fmlookup (f_budgets d') k \<noteq> None" using bu [of k] ids [of k] by auto
      then show ?thesis using True gd [of k] bk gr by (auto simp: Let_def)
    next
      case False
      then have old: "(y, k) |\<in>| f_links d" using that lk by auto
      then obtain x b where xb: "fmlookup (f_grants d) y = Some x" "fmlookup (f_budgets d) k = Some b" "fg_Unlimited x \<longrightarrow> b_Unlimited b"
        using acct_parts(3) [OF ok] by blast
      have "fmlookup (f_budgets d') k \<noteq> None" using bu [of k] xb(2) by auto
      then obtain b' where b': "fmlookup (f_budgets d') k = Some b'" by blast
      have "\<exists>x'. fmlookup (f_grants d') y = Some x' \<and> fg_Unlimited x' = fg_Unlimited x"
        using g xb(1) gr by (cases "y = gid") auto
      then show ?thesis using xb b' bk [OF b'] by auto
    qed
  qed
  have M: "fmlookup (f_grants d') (fst k) \<noteq> None \<and> 0 \<le> fm_Uploaded x \<and> 0 \<le> fm_Downloaded x" if "fmlookup (f_meters d') k = Some x" for k x
    using that acct_parts(4) [OF ok, of k x] mt gr by auto
  show ?thesis unfolding acct_ok_def using B G L M by blast
qed

lemma acct_cong:
  assumes "f_budgets d' = f_budgets d" and "f_grants d' = f_grants d" and "f_links d' = f_links d" and "f_meters d' = f_meters d"
  shows "acct_ok initial d' = acct_ok initial d"
proof -
  have "spent d' = spent d" "owed d' = owed d" "metered d' = metered d"
    using assms by (simp_all add: spent_def owed_def metered_def funded_by_def fun_eq_iff)
  then show ?thesis using assms by (simp add: acct_ok_def)
qed

lemma reserve_tx_cases:
  assumes "reserve_tx dig now_ms q placement d = Inr (g, d')"
  obtains "d' = d"
    | m g0 budgets where "lockBudgets (rq_BudgetIDs q) d = Inr m" "reserve_grant q placement d = Inr g0" "\<not> exceeds (fg_IssuedBytes g0) (rq_Bytes q)"
        "reserve_loop q (rq_BudgetIDs q) (f_budgets d) = Inr budgets" "g = g0\<lparr>fg_IssuedBytes := fg_IssuedBytes g0 + rq_Bytes q\<rparr>"
        "d' = d\<lparr>f_budgets := budgets, f_grants := fmupd (rq_GrantID q) g (f_grants d),
            f_links := f_links d |\<union>| fset_of_list (map (\<lambda>b. (rq_GrantID q, b)) (rq_BudgetIDs q)),
            f_operations := fmupd (rq_OperationID q) \<lparr>op_Digest = dig q, op_Result = OpGrant g\<rparr> (f_operations d)\<rparr>"
proof (cases "fmlookup (f_operations d) (rq_OperationID q)")
  case None
  then show ?thesis using assms that(2) unfolding reserve_tx_def Let_def
    by (auto split: option.splits sum.splits if_splits)
next
  case (Some op)
  then have "d' = d" using assms unfolding reserve_tx_def by (auto split: option.splits sum.splits)
  then show ?thesis by (rule that(1))
qed

lemma reserve_tx_acct:
  assumes tx: "reserve_tx dig now_ms q placement d = Inr (g, d')" and ok: "acct_ok initial d" and n: "0 \<le> rq_Bytes q"
  shows "acct_ok initial d'"
  using tx
proof (cases rule: reserve_tx_cases)
  case 1
  then show ?thesis using ok by simp
next
  case (2 m g0 budgets)
  note lock = lockBudgets_all [OF 2(1)]
  note loop = reserve_loop_spec [OF 2(4) lock(2) lock(3)]
  show ?thesis
  proof (rule acct_credit [OF ok, where d' = d' and gid = "rq_GrantID q" and g' = g and ids = "rq_BudgetIDs q" and n = "rq_Bytes q"])
    show "f_grants d' = fmupd (rq_GrantID q) g (f_grants d)" "f_meters d' = f_meters d" using 2(6) by simp_all
    show "(x, k) |\<in>| f_links d' \<longleftrightarrow> (x, k) |\<in>| f_links d \<or> x = rq_GrantID q \<and> k \<in> set (rq_BudgetIDs q)" for x k
      using 2(6) by (auto simp: fset_of_list_elem)
    show "case fmlookup (f_grants d) (rq_GrantID q) of None \<Rightarrow> fg_IssuedBytes g = rq_Bytes q \<and> fg_ConsumedBytes g = 0
        | Some x \<Rightarrow> fg_IssuedBytes g = fg_IssuedBytes x + rq_Bytes q \<and> fg_ConsumedBytes g = fg_ConsumedBytes x \<and> fg_Unlimited g = fg_Unlimited x
            \<and> set (links_of (rq_GrantID q) d) = set (rq_BudgetIDs q)"
      using 2(2,5) by (auto simp: reserve_grant_def split: option.splits if_splits)
    show "fg_IssuedBytes g \<le> maxInt64" using 2(3,5) by (simp add: exceeds_def)
    have "fg_Unlimited g = rq_Unlimited q" using 2(2,5) by (auto simp: reserve_grant_def split: option.splits if_splits)
    then show "let b = the (fmlookup (f_budgets d) k) in (fg_Unlimited g \<longrightarrow> b_Unlimited b)
        \<and> (\<not> b_Unlimited b \<longrightarrow> b_UsedBytes b + b_ReservedBytes b + rq_Bytes q \<le> b_LimitBytes b)" if "k \<in> set (rq_BudgetIDs q)" for k
      using loop that by simp
    show "fmlookup (f_budgets d') k = (if k \<in> set (rq_BudgetIDs q) \<and> \<not> b_Unlimited (the (fmlookup (f_budgets d) k))
        then Some ((the (fmlookup (f_budgets d) k))\<lparr>b_ReservedBytes := b_ReservedBytes (the (fmlookup (f_budgets d) k)) + rq_Bytes q\<rparr>) else fmlookup (f_budgets d) k)" for k
      using loop 2(6) by simp
    show "fmlookup (f_budgets d) k \<noteq> None" if "k \<in> set (rq_BudgetIDs q)" for k using that by (rule lock(3))
  qed (rule n)
qed

lemma normalize_reserve_bytes:
  assumes "normalize_reserve u q = Inr q'"
  shows "0 \<le> rq_Bytes q'"
  using assms by (auto simp: normalize_reserve_def reserve_check_def Let_def split: if_splits)

lemma on_fleet_acct:
  assumes "on_fleet f d = (r, d')" and "acct_ok initial d" and "\<And>x d''. f d = Inr (x, d'') \<Longrightarrow> acct_ok initial d''"
  shows "acct_ok initial d'"
proof (cases "f d")
  case (Inl err)
  then show ?thesis using assms(1,2) by (simp add: on_fleet_def)
next
  case (Inr p)
  obtain x d'' where p: "p = (x, d'')" by force
  have "acct_ok initial d''" using assms(3) Inr p by simp
  then have "acct_ok initial (d''\<lparr>f_faults := fs\<rparr>)" "acct_ok initial (d\<lparr>f_faults := fs\<rparr>)" for fs
    using assms(2) acct_cong [of "d''\<lparr>f_faults := fs\<rparr>" d'' initial] acct_cong [of "d\<lparr>f_faults := fs\<rparr>" d initial] by simp_all
  then show ?thesis using assms(1,3) Inr p by (auto simp: on_fleet_def split: list.splits option.splits)
qed

lemma reserve_acct:
  assumes "reserve u dig now_ms q placement d = (r, d')" and ok: "acct_ok initial d"
  shows "acct_ok initial d'"
proof (cases "normalize_reserve u q")
  case (Inl err)
  then show ?thesis using assms by (simp add: reserve_def)
next
  case (Inr q')
  have "on_fleet (reserve_tx dig now_ms q' placement) d = (r, d')" using assms(1) Inr by (simp add: reserve_def)
  then show ?thesis by (rule on_fleet_acct [OF _ ok]) (rule reserve_tx_acct [OF _ ok normalize_reserve_bytes [OF Inr]])
qed

text \<open>A meter moves on: its grant and all budgets of the grant are charged with the difference.\<close>

definition meter_at :: "FleetDB \<Rightarrow> string \<times> string \<times> string \<Rightarrow> FleetMeter" where
  "meter_at d mk = (case fmlookup (f_meters d) mk of None \<Rightarrow> \<lparr>fm_Uploaded = 0, fm_Downloaded = 0\<rparr> | Some x \<Rightarrow> x)"

lemma metered_step:
  assumes "f_meters d' = fmupd mk x (f_meters d)"
  shows "metered d' g = metered d g + (if fst mk = g then fm_Uploaded x + fm_Downloaded x - (fm_Uploaded (meter_at d mk) + fm_Downloaded (meter_at d mk)) else 0)"
proof -
  let ?A = "{k. k |\<in>| fmdom (f_meters d) \<and> fst k = g}" and ?h = "\<lambda>d k. fm_Uploaded (the (fmlookup (f_meters d) k)) + fm_Downloaded (the (fmlookup (f_meters d) k))"
  have fin: "finite ?A" by (rule finite_subset [of _ "fset (fmdom (f_meters d))"]) auto
  have A': "{k. k |\<in>| fmdom (f_meters d') \<and> fst k = g} = (if fst mk = g then insert mk ?A else ?A)" by (auto simp: assms)
  have rows: "k \<noteq> mk \<Longrightarrow> ?h d' k = ?h d k" for k by (simp add: assms)
  have row: "?h d' mk = fm_Uploaded x + fm_Downloaded x" by (simp add: assms)
  show ?thesis
  proof (cases "fst mk = g \<and> mk |\<notin>| fmdom (f_meters d)")
    case True
    then have "meter_at d mk = \<lparr>fm_Uploaded = 0, fm_Downloaded = 0\<rparr>" by (simp add: meter_at_def fmdom_notD)
    moreover have "sum (?h d') ?A = sum (?h d) ?A" 
    proof (intro sum.cong refl)
      fix k
      assume "k \<in> ?A"
      then have "k \<noteq> mk" using True by blast
      then show "?h d' k = ?h d k" by (rule rows)
    qed
    moreover have "sum (?h d') (insert mk ?A) = ?h d' mk + sum (?h d') ?A" using True fin by (intro sum.insert) auto
    ultimately show ?thesis using True row unfolding metered_def A' by (simp only: if_True) simp
  next
    case False
    then have same: "{k. k |\<in>| fmdom (f_meters d') \<and> fst k = g} = ?A" using A' by auto
    have "sum (?h d') ?A = sum (?h d) ?A + (if mk \<in> ?A then ?h d' mk - ?h d mk else 0)" by (rule sum_at [OF fin]) (rule rows)
    moreover have "mk \<in> ?A \<longleftrightarrow> fst mk = g" using False by auto
    moreover have "mk \<in> ?A \<Longrightarrow> meter_at d mk = the (fmlookup (f_meters d) mk)" by (auto simp: meter_at_def fmlookup_dom_iff)
    ultimately show ?thesis using row unfolding metered_def same by simp
  qed
qed

lemma charge_sums:
  assumes g: "fmlookup (f_grants d) gid = Some g" and gr: "f_grants d' = fmupd gid (g\<lparr>fg_ConsumedBytes := fg_ConsumedBytes g + delta\<rparr>) (f_grants d)"
    and lk: "f_links d' = f_links d"
  shows "spent d' k = spent d k + (if k \<in> set (links_of gid d) then delta else 0) \<and> owed d' k = owed d k - (if k \<in> set (links_of gid d) then delta else 0)"
proof -
  let ?h = "\<lambda>d x. fg_IssuedBytes (grant_row d x) - fg_ConsumedBytes (grant_row d x)" and ?c = "\<lambda>d x. fg_ConsumedBytes (grant_row d x)"
  have A: "funded_by d' k = funded_by d k" by (simp add: funded_by_def lk)
  have mem: "gid \<in> funded_by d k \<longleftrightarrow> k \<in> set (links_of gid d)" by (simp add: funded_by_def links_of_set)
  have "sum (?c d') (funded_by d k) = sum (?c d) (funded_by d k) + (if gid \<in> funded_by d k then ?c d' gid - ?c d gid else 0)"
    by (rule sum_at [OF finite_funded]) (simp add: gr)
  moreover have "sum (?h d') (funded_by d k) = sum (?h d) (funded_by d k) + (if gid \<in> funded_by d k then ?h d' gid - ?h d gid else 0)"
    by (rule sum_at [OF finite_funded]) (simp add: gr)
  ultimately show ?thesis by (simp add: spent_def owed_def A mem gr g)
qed

lemma acct_charge:
  assumes ok: "acct_ok initial d" and g: "fmlookup (f_grants d) gid = Some g"
    and gr: "f_grants d' = fmupd gid (g\<lparr>fg_ConsumedBytes := fg_ConsumedBytes g + delta\<rparr>) (f_grants d)"
    and mt: "f_meters d' = fmupd (gid, r) x (f_meters d)" and lk: "f_links d' = f_links d"
    and x: "fm_Uploaded x + fm_Downloaded x = fm_Uploaded (meter_at d (gid, r)) + fm_Downloaded (meter_at d (gid, r)) + delta"
    and pos: "0 \<le> fm_Uploaded x" "0 \<le> fm_Downloaded x" "0 \<le> delta"
    and guard: "\<not> exceeds (fg_ConsumedBytes g) delta" "\<not> fg_Unlimited g \<Longrightarrow> delta \<le> fg_IssuedBytes g - fg_ConsumedBytes g"
    and bu: "\<And>k. fmlookup (f_budgets d') k = (if k \<in> set (links_of gid d) then Some (let b = the (fmlookup (f_budgets d) k) in b\<lparr>b_UsedBytes := b_UsedBytes b + delta,
        b_ReservedBytes := (if b_Unlimited b then b_ReservedBytes b else b_ReservedBytes b - delta)\<rparr>) else fmlookup (f_budgets d) k)"
    and bg: "\<And>k. k \<in> set (links_of gid d) \<Longrightarrow> let b = the (fmlookup (f_budgets d) k) in \<not> exceeds (b_UsedBytes b) delta \<and> (\<not> b_Unlimited b \<longrightarrow> delta \<le> b_ReservedBytes b)"
  shows "acct_ok initial d'"
proof -
  note sums = charge_sums [OF g gr lk]
  have met: "metered d' y = metered d y + (if y = gid then delta else 0)" for y using metered_step [OF mt, of y] x by auto
  have B: "budget_ok b \<and> b_UsedBytes b = initial k + spent d' k \<and> (\<not> b_Unlimited b \<longrightarrow> b_ReservedBytes b = owed d' k)"
    if b: "fmlookup (f_budgets d') k = Some b" for k b
  proof (cases "k \<in> set (links_of gid d)")
    case True
    then obtain b0 where b0: "fmlookup (f_budgets d) k = Some b0" using acct_parts(3) [OF ok, of gid k] by (auto simp: links_of_set)
    have "b = b0\<lparr>b_UsedBytes := b_UsedBytes b0 + delta, b_ReservedBytes := (if b_Unlimited b0 then b_ReservedBytes b0 else b_ReservedBytes b0 - delta)\<rparr>"
      using b bu [of k] True b0 by (simp add: Let_def)
    moreover have "\<not> exceeds (b_UsedBytes b0) delta" "\<not> b_Unlimited b0 \<longrightarrow> delta \<le> b_ReservedBytes b0" using bg [OF True] b0 by (simp_all add: Let_def)
    ultimately show ?thesis using acct_parts(1) [OF ok b0] sums [of k] True pos(3) by (auto simp: budget_ok_def exceeds_def)
  next
    case False
    then show ?thesis using b bu [of k] acct_parts(1) [OF ok, of k b] sums [of k] by simp
  qed
  have G: "grant_ok y \<and> fg_ConsumedBytes y = metered d' z" if "fmlookup (f_grants d') z = Some y" for y z
  proof (cases "z = gid")
    case True
    then have "y = g\<lparr>fg_ConsumedBytes := fg_ConsumedBytes g + delta\<rparr>" using that gr by simp
    then show ?thesis using acct_parts(2) [OF ok g] guard pos(3) True met [of z] by (auto simp: grant_ok_def exceeds_def)
  next
    case False
    then show ?thesis using that gr acct_parts(2) [OF ok, of z y] met [of z] by simp
  qed
  have L: "\<exists>y b. fmlookup (f_grants d') z = Some y \<and> fmlookup (f_budgets d') k = Some b \<and> (fg_Unlimited y \<longrightarrow> b_Unlimited b)"
    if zk: "(z, k) |\<in>| f_links d'" for z k
  proof -
    obtain y b where yb: "fmlookup (f_grants d) z = Some y" "fmlookup (f_budgets d) k = Some b" "fg_Unlimited y \<longrightarrow> b_Unlimited b"
      using zk acct_parts(3) [OF ok, of z k] lk by auto
    have "\<exists>y'. fmlookup (f_grants d') z = Some y' \<and> fg_Unlimited y' = fg_Unlimited y" using yb(1) g gr by (cases "z = gid") auto
    moreover have "\<exists>b'. fmlookup (f_budgets d') k = Some b' \<and> b_Unlimited b' = b_Unlimited b" using yb(2) bu [of k] by (auto simp: Let_def)
    ultimately show ?thesis using yb(3) by auto
  qed
  have M: "fmlookup (f_grants d') (fst k) \<noteq> None \<and> 0 \<le> fm_Uploaded y \<and> 0 \<le> fm_Downloaded y" if "fmlookup (f_meters d') k = Some y" for k y
    using that acct_parts(4) [OF ok, of k y] mt gr g pos by (cases "k = (gid, r)") auto
  show ?thesis unfolding acct_ok_def using B G L M by blast
qed

text \<open>The tables as they would be after the writes of a batch booked so far.\<close>

definition overlay :: "ingest \<Rightarrow> FleetDB \<Rightarrow> FleetDB" where
  "overlay st d = d\<lparr>f_meters := fold (\<lambda>(k, x) m. fmupd k x m) (ig_meters st) (f_meters d),
     f_budgets := f_budgets d ++\<^sub>f ig_budgets st, f_grants := f_grants d ++\<^sub>f ig_grants st\<rparr>"

definition ingest_inv :: "(string \<Rightarrow> int) \<Rightarrow> FleetDB \<Rightarrow> (string \<times> string \<times> string) fset \<Rightarrow> ingest \<Rightarrow> bool" where
  "ingest_inv initial d seen st \<longleftrightarrow> acct_ok initial (overlay st d)
     \<and> (\<forall>g k. g |\<in>| fmdom (ig_grants st) \<longrightarrow> (g, k) |\<in>| f_links d \<longrightarrow> k |\<in>| fmdom (ig_budgets st))
     \<and> (\<forall>k \<in> fst ` set (ig_meters st). k |\<in>| seen)
     \<and> (\<forall>g. g |\<in>| fmdom (ig_grants st) \<longrightarrow> g |\<notin>| ig_changedGrants st \<longrightarrow> fmlookup (ig_grants st) g = fmlookup (f_grants d) g)
     \<and> (\<forall>k. k |\<in>| fmdom (ig_budgets st) \<longrightarrow> k |\<notin>| ig_changedBudgets st \<longrightarrow> fmlookup (ig_budgets st) k = fmlookup (f_budgets d) k)"

lemma fold_fmupd_other: "k \<notin> fst ` set xs \<Longrightarrow> fmlookup (fold (\<lambda>(k, x) m. fmupd k x m) xs m) k = fmlookup m k"
  by (induction xs arbitrary: m) auto

lemma ingest_checkpoint_cases:
  assumes "ingest_checkpoint d c st = Inr st'" and "g = the (fmlookup (ig_grants st) (uc_GrantId c))"
    and "mk = (uc_GrantId c, uc_MeterId c, uc_Incarnation c)"
  obtains delta where "uint (uc_Uploaded c) + uint (uc_Downloaded c) = fm_Uploaded (meter_at d mk) + fm_Downloaded (meter_at d mk) + delta"
    "0 \<le> delta" "\<not> exceeds (fg_ConsumedBytes g) delta" "\<not> fg_Unlimited g \<Longrightarrow> delta \<le> fg_IssuedBytes g - fg_ConsumedBytes g"
    "charge_budgets delta (links_of (uc_GrantId c) d) (ig_budgets st) (ig_changedBudgets st) = Inr (ig_budgets st', ig_changedBudgets st')"
    "ig_grants st' = fmupd (uc_GrantId c) (g\<lparr>fg_ConsumedBytes := fg_ConsumedBytes g + delta\<rparr>) (ig_grants st)"
    "ig_meters st' = ig_meters st @ [(mk, \<lparr>fm_Uploaded = uint (uc_Uploaded c), fm_Downloaded = uint (uc_Downloaded c)\<rparr>)]"
    "ig_changedGrants st' = (if delta > 0 then finsert (uc_GrantId c) (ig_changedGrants st) else ig_changedGrants st)"
    "fg_RuntimeID g = uc_MeterId c"
proof -
  let ?x = "meter_at d mk" and ?up = "uint (uc_Uploaded c)" and ?down = "uint (uc_Downloaded c)"
  let ?delta = "?up - fm_Uploaded ?x + (?down - fm_Downloaded ?x)"
  have c: "\<not> (?up < fm_Uploaded ?x \<or> ?down < fm_Downloaded ?x)" "\<not> exceeds (fg_ConsumedBytes g) ?delta" "\<not> (\<not> fg_Unlimited g \<and> ?delta > fg_IssuedBytes g - fg_ConsumedBytes g)"
    "charge_budgets ?delta (links_of (uc_GrantId c) d) (ig_budgets st) (ig_changedBudgets st) = Inr (ig_budgets st', ig_changedBudgets st')"
    "ig_grants st' = fmupd (uc_GrantId c) (g\<lparr>fg_ConsumedBytes := fg_ConsumedBytes g + ?delta\<rparr>) (ig_grants st)"
    "ig_meters st' = ig_meters st @ [(mk, \<lparr>fm_Uploaded = ?up, fm_Downloaded = ?down\<rparr>)]"
    "ig_changedGrants st' = (if ?delta > 0 then finsert (uc_GrantId c) (ig_changedGrants st) else ig_changedGrants st)" "fg_RuntimeID g = uc_MeterId c"
    using assms(1) unfolding ingest_checkpoint_def Let_def meter_at_def [symmetric] assms(2) [symmetric] assms(3) [symmetric]
    by (auto split: if_splits sum.splits prod.splits)
  show ?thesis by (rule that [of ?delta]) (use c in auto)
qed

lemma ingest_checkpoint_inv:
  assumes st: "ingest_checkpoint d c st = Inr st'" and iv: "ingest_inv initial d seen st"
    and mk: "(uc_GrantId c, uc_MeterId c, uc_Incarnation c) |\<notin>| seen" and gd: "uc_GrantId c |\<in>| fmdom (ig_grants st)"
  shows "ingest_inv initial d (finsert (uc_GrantId c, uc_MeterId c, uc_Incarnation c) seen) st' \<and> fmdom (ig_grants st') = fmdom (ig_grants st)"
proof -
  let ?gid = "uc_GrantId c" and ?r = "(uc_MeterId c, uc_Incarnation c)" and ?x = "\<lparr>fm_Uploaded = uint (uc_Uploaded c), fm_Downloaded = uint (uc_Downloaded c)\<rparr>"
  let ?D = "overlay st d" and ?D' = "overlay st' d" and ?ks = "links_of (uc_GrantId c) d"
  obtain g where g: "fmlookup (ig_grants st) ?gid = Some g" using gd by (auto simp: fmlookup_dom_iff)
  have iv': "acct_ok initial ?D" "\<And>h k. h |\<in>| fmdom (ig_grants st) \<Longrightarrow> (h, k) |\<in>| f_links d \<Longrightarrow> k |\<in>| fmdom (ig_budgets st)"
    "\<And>k. k \<in> fst ` set (ig_meters st) \<Longrightarrow> k |\<in>| seen"
    "\<And>h. h |\<in>| fmdom (ig_grants st) \<Longrightarrow> h |\<notin>| ig_changedGrants st \<Longrightarrow> fmlookup (ig_grants st) h = fmlookup (f_grants d) h"
    "\<And>k. k |\<in>| fmdom (ig_budgets st) \<Longrightarrow> k |\<notin>| ig_changedBudgets st \<Longrightarrow> fmlookup (ig_budgets st) k = fmlookup (f_budgets d) k"
    using iv unfolding ingest_inv_def by blast+
  have "g = the (fmlookup (ig_grants st) (uc_GrantId c))" using g by simp
  then obtain delta where c: "uint (uc_Uploaded c) + uint (uc_Downloaded c) = fm_Uploaded (meter_at d (?gid, ?r)) + fm_Downloaded (meter_at d (?gid, ?r)) + delta"
    "0 \<le> delta" "\<not> exceeds (fg_ConsumedBytes g) delta" "\<not> fg_Unlimited g \<Longrightarrow> delta \<le> fg_IssuedBytes g - fg_ConsumedBytes g"
    "charge_budgets delta ?ks (ig_budgets st) (ig_changedBudgets st) = Inr (ig_budgets st', ig_changedBudgets st')"
    "ig_grants st' = fmupd ?gid (g\<lparr>fg_ConsumedBytes := fg_ConsumedBytes g + delta\<rparr>) (ig_grants st)"
    "ig_meters st' = ig_meters st @ [((?gid, ?r), ?x)]"
    "ig_changedGrants st' = (if delta > 0 then finsert ?gid (ig_changedGrants st) else ig_changedGrants st)"
    using ingest_checkpoint_cases [OF st _ refl] by blast
  have held: "k |\<in>| fmdom (ig_budgets st)" if "k \<in> set ?ks" for k using iv'(2) [OF gd] that by (simp add: links_of_set)
  then have "\<And>k. k \<in> set ?ks \<Longrightarrow> fmlookup (ig_budgets st) k \<noteq> None" by (auto simp: fmlookup_dom_iff)
  note ch = charge_budgets_spec [OF c(5) links_of_set(2) this]
  have bl: "fmlookup (ig_budgets st') k = (if k \<in> set ?ks then Some (let b = the (fmlookup (ig_budgets st) k) in b\<lparr>b_UsedBytes := b_UsedBytes b + delta,
        b_ReservedBytes := (if b_Unlimited b then b_ReservedBytes b else b_ReservedBytes b - delta)\<rparr>) else fmlookup (ig_budgets st) k)" for k
    using ch by blast
  have bdom: "fmdom (ig_budgets st') = fmdom (ig_budgets st)"
    using held by (intro fset_eqI) (auto simp: fmlookup_dom_iff bl split: if_splits)
  have row: "the (fmlookup (f_budgets ?D) k) = the (fmlookup (ig_budgets st) k)" if "k \<in> set ?ks" for k using held [OF that] by (simp add: overlay_def)
  have links: "links_of ?gid ?D = ?ks" by (simp add: links_of_def overlay_def)
  have bD: "fmlookup (f_budgets ?D) k = (if k |\<in>| fmdom (ig_budgets st) then fmlookup (ig_budgets st) k else fmlookup (f_budgets d) k)"
    and bD': "fmlookup (f_budgets ?D') k = (if k |\<in>| fmdom (ig_budgets st') then fmlookup (ig_budgets st') k else fmlookup (f_budgets d) k)" for k
    by (simp_all add: overlay_def)
  have acct: "acct_ok initial ?D'"
  proof (rule acct_charge [OF iv'(1), where gid = ?gid and r = ?r and g = g and delta = delta and x = ?x])
    show "fmlookup (f_grants ?D) ?gid = Some g" using g gd by (simp add: overlay_def)
    show "f_grants ?D' = fmupd ?gid (g\<lparr>fg_ConsumedBytes := fg_ConsumedBytes g + delta\<rparr>) (f_grants ?D)"
      by (intro fmap_ext) (auto simp: overlay_def c(6))
    show "f_meters ?D' = fmupd (?gid, ?r) ?x (f_meters ?D)" by (simp add: overlay_def c(7))
    have "(?gid, ?r) \<notin> fst ` set (ig_meters st)" using iv'(3) mk by blast
    then have "meter_at ?D (?gid, ?r) = meter_at d (?gid, ?r)" by (simp add: meter_at_def overlay_def fold_fmupd_other)
    then show "fm_Uploaded ?x + fm_Downloaded ?x = fm_Uploaded (meter_at ?D (?gid, ?r)) + fm_Downloaded (meter_at ?D (?gid, ?r)) + delta" using c(1) by simp
    show "fmlookup (f_budgets ?D') k = (if k \<in> set (links_of ?gid ?D) then Some (let b = the (fmlookup (f_budgets ?D) k) in b\<lparr>b_UsedBytes := b_UsedBytes b + delta,
        b_ReservedBytes := (if b_Unlimited b then b_ReservedBytes b else b_ReservedBytes b - delta)\<rparr>) else fmlookup (f_budgets ?D) k)" for k
      using held [of k] row [of k] unfolding links bD bD' by (auto simp: bdom bl)
    show "let b = the (fmlookup (f_budgets ?D) k) in \<not> exceeds (b_UsedBytes b) delta \<and> (\<not> b_Unlimited b \<longrightarrow> delta \<le> b_ReservedBytes b)"
      if "k \<in> set (links_of ?gid ?D)" for k
      using ch that row [of k] by (simp add: links)
  qed (use c in \<open>auto simp: overlay_def\<close>)
  have gdom: "fmdom (ig_grants st') = fmdom (ig_grants st)" by (simp only: c(6) fmdom_fmupd finsert_absorb [OF gd])
  have "fmlookup (ig_grants st') h = fmlookup (f_grants d) h" if "h |\<in>| fmdom (ig_grants st')" "h |\<notin>| ig_changedGrants st'" for h
  proof (cases "h = ?gid")
    case True
    then have "delta = 0" "h |\<notin>| ig_changedGrants st" using that(2) c(2) unfolding c(8) by (auto split: if_splits)
    then show ?thesis using True iv'(4) [OF gd] g by (simp add: c(6))
  next
    case False
    then have "h |\<notin>| ig_changedGrants st" using that(2) unfolding c(8) by (auto split: if_splits)
    then show ?thesis using False that(1) iv'(4) [of h] unfolding gdom by (simp add: c(6))
  qed
  moreover have "fmlookup (ig_budgets st') k = fmlookup (f_budgets d) k" if "k |\<in>| fmdom (ig_budgets st')" "k |\<notin>| ig_changedBudgets st'" for k
  proof (cases "k \<in> set ?ks")
    case True
    then have z: "delta = 0" "k |\<notin>| ig_changedBudgets st" using that(2) ch c(2) by (auto simp: fset_of_list_elem split: if_splits)
    obtain b where "fmlookup (ig_budgets st) k = Some b" using held [OF True] by (auto simp: fmlookup_dom_iff)
    then show ?thesis using True z bl [of k] iv'(5) [of k] that(1) by (auto simp: bdom Let_def)
  next
    case False
    then have "k |\<notin>| ig_changedBudgets st" using that(2) ch by (auto split: if_splits)
    then show ?thesis using False bl [of k] iv'(5) [of k] that(1) by (simp add: bdom)
  qed
  ultimately show ?thesis unfolding ingest_inv_def using acct iv'(2,3) c(7) gdom bdom by auto
qed

lemma ingest_loop_inv:
  assumes "ingest_loop d cs st = Inr st'" and "ingest_inv initial d seen st" and "checkpoints_ok u cs seen"
    and "\<And>c. Some c \<in> set cs \<Longrightarrow> uc_GrantId c |\<in>| fmdom (ig_grants st)"
  shows "\<exists>seen'. ingest_inv initial d seen' st'"
  using assms
proof (induction cs arbitrary: st seen)
  case (Cons x cs)
  obtain c where c: "x = Some c" "(uc_GrantId c, uc_MeterId c, uc_Incarnation c) |\<notin>| seen"
      "checkpoints_ok u cs (finsert (uc_GrantId c, uc_MeterId c, uc_Incarnation c) seen)"
    using Cons.prems(3) by (auto simp: Let_def split: option.splits)
  obtain st1 where st1: "ingest_checkpoint d c st = Inr st1" "ingest_loop d cs st1 = Inr st'" using Cons.prems(1) c(1) by (auto split: sum.splits)
  have gd: "uc_GrantId c |\<in>| fmdom (ig_grants st)" using Cons.prems(4) c(1) by simp
  note step = ingest_checkpoint_inv [OF st1(1) Cons.prems(2) c(2) gd]
  show ?case by (rule Cons.IH [OF st1(2) _ c(3)]) (use step Cons.prems(4) in auto)
qed auto

lemma ingest_start_inv:
  assumes st: "ingest_start p b d = Inr (st, grantIDs, budgetIDs)" and ok: "acct_ok initial d"
  shows "ingest_inv initial d {||} st \<and> (\<forall>c. Some c \<in> set (ub_Checkpoints b) \<longrightarrow> uc_GrantId c |\<in>| fmdom (ig_grants st))"
proof -
  let ?G = "uc_GrantId ` the ` set (ub_Checkpoints b)" and ?ks = "sorted_list_of_set (\<Union>g \<in> uc_GrantId ` the ` set (ub_Checkpoints b). set (links_of g d))"
  let ?grants = "fmfilter (\<lambda>k. k \<in> ?G) (f_grants d)"
  obtain m where m: "lockBudgets ?ks d = Inr m" "fcard (fmdom ?grants) = card ?G"
      "st = \<lparr>ig_grants = ?grants, ig_budgets = m, ig_meters = [], ig_terms = fmempty, ig_changedGrants = {||}, ig_changedBudgets = {||}\<rparr>"
    using st unfolding ingest_start_def Let_def by (auto split: sum.splits if_splits)
  note lock = lockBudgets_all [OF m(1)]
  have sub: "fset (fmdom ?grants) \<subseteq> ?G" by auto
  have dom: "fset (fmdom ?grants) = ?G" using sub m(2) by (intro card_subset_eq) (simp_all add: fcard.rep_eq)
  have same: "f_grants (overlay st d) = f_grants d" "f_budgets (overlay st d) = f_budgets d" "f_meters (overlay st d) = f_meters d" "f_links (overlay st d) = f_links d"
    by (auto simp: overlay_def m(3) lock(4) fmlookup_dom_iff split: if_splits intro!: fmap_ext)
  have acct: "acct_ok initial (overlay st d)" using ok acct_cong [OF same(2,1,4,3)] by simp
  have links: "k |\<in>| fmdom m" if "g |\<in>| fmdom ?grants" "(g, k) |\<in>| f_links d" for g k
  proof -
    have "g \<in> ?G" using that(1) dom by blast
    moreover have "set ?ks = (\<Union>g \<in> ?G. set (links_of g d))" by simp
    ultimately have "k \<in> set ?ks" using that(2) by (auto simp: links_of_set)
    then show ?thesis using lock(3,4) by (auto simp: fmlookup_dom_iff)
  qed
  have "uc_GrantId c |\<in>| fmdom ?grants" if "Some c \<in> set (ub_Checkpoints b)" for c
    using that dom by (metis (no_types, lifting) image_eqI option.sel)
  then show ?thesis unfolding ingest_inv_def using acct links m(3) lock(4) by (auto simp: fmlookup_dom_iff split: if_splits)
qed

lemma ingest_writes_acct: "ingest_inv initial d seen st \<Longrightarrow> acct_ok initial (ingest_writes st d)"
proof -
  assume iv: "ingest_inv initial d seen st"
  have b: "fmlookup (f_budgets (ingest_writes st d)) k = fmlookup (f_budgets (overlay st d)) k" for k
    using iv by (auto simp: ingest_inv_def ingest_writes_def overlay_def changed_rows_def)
  have g: "fmlookup (f_grants (ingest_writes st d)) k = fmlookup (f_grants (overlay st d)) k" for k
    using iv by (auto simp: ingest_inv_def ingest_writes_def overlay_def changed_rows_def)
  have "acct_ok initial (ingest_writes st d) = acct_ok initial (overlay st d)"
    by (rule acct_cong) (auto intro!: fmap_ext simp: b g, auto simp: ingest_writes_def overlay_def)
  then show ?thesis using iv by (simp add: ingest_inv_def)
qed

lemma record_terms_tables:
  "record_terms now_ms deltas ks d = Inr d' \<Longrightarrow> \<exists>a b. d' = d\<lparr>f_term_usage := a, f_term_days := b\<rparr>"
proof (induction ks arbitrary: d)
  case Nil
  then have "d' = d\<lparr>f_term_usage := f_term_usage d, f_term_days := f_term_days d\<rparr>" by simp
  then show ?case by blast
next
  case (Cons k ks)
  obtain client t where k: "k = (client, t)" by force
  show ?case
  proof (cases "fmlookup (f_terms d) t")
    case None
    then show ?thesis using Cons k by simp
  next
    case (Some tm)
    obtain a b where "record_terms now_ms deltas ks (d\<lparr>f_term_usage := a, f_term_days := b\<rparr>) = Inr d'"
      using Cons.prems k Some by (auto simp: Let_def split: if_splits)
    from Cons.IH [OF this] obtain a' b' where "d' = (d\<lparr>f_term_usage := a, f_term_days := b\<rparr>)\<lparr>f_term_usage := a', f_term_days := b'\<rparr>" by blast
    then have "d' = d\<lparr>f_term_usage := a', f_term_days := b'\<rparr>" by simp
    then show ?thesis by blast
  qed
qed

lemma ingest_tx_cases:
  assumes "ingest_tx cert verified now_ms p b digest d = Inr (r, d')"
  obtains "uint (ub_Sequence b) \<le> cu_Sequence (cursor_of p d)" "r = cu_Sequence (cursor_of p d)" "d' = d"
      "uint (ub_Sequence b) = cu_Sequence (cursor_of p d) \<Longrightarrow> cu_Digest (cursor_of p d) = digest"
    | st0 grantIDs budgetIDs st a t where "uint (ub_Sequence b) = cu_Sequence (cursor_of p d) + 1" "r = uint (ub_Sequence b)"
        "ingest_start p b d = Inr (st0, grantIDs, budgetIDs)" "ingest_loop d (ub_Checkpoints b) st0 = Inr st"
        "d' = (ingest_writes st d)\<lparr>f_term_usage := a, f_term_days := t,
            f_cursors := fmupd (pr_NodeID p, pr_InstallationID p) \<lparr>cu_Sequence = uint (ub_Sequence b), cu_Digest = digest\<rparr> (f_cursors d)\<rparr>"
proof -
  have free: "lockAuthority d = None" "lockAuthenticatedNode cert verified p d = None" using assms by (auto simp: ingest_tx_def split: option.splits)
  note body = assms [unfolded ingest_tx_def free option.case Let_def]
  show ?thesis
  proof (cases "uint (ub_Sequence b) \<le> cu_Sequence (cursor_of p d)")
    case True
    then have "\<not> (uint (ub_Sequence b) = cu_Sequence (cursor_of p d) \<and> cu_Digest (cursor_of p d) \<noteq> digest)" "r = cu_Sequence (cursor_of p d)" "d' = d"
      using body by (auto split: if_splits)
    then show ?thesis using that(1) True by blast
  next
    case False
    then obtain st0 grantIDs budgetIDs st d1 where s: "uint (ub_Sequence b) = cu_Sequence (cursor_of p d) + 1"
        "ingest_start p b d = Inr (st0, grantIDs, budgetIDs)" "ingest_loop d (ub_Checkpoints b) st0 = Inr st"
        "recordTermUsage now_ms (ig_terms st) (ingest_writes st d) = Inr d1" "r = uint (ub_Sequence b)"
        "d' = d1\<lparr>f_cursors := fmupd (pr_NodeID p, pr_InstallationID p) \<lparr>cu_Sequence = uint (ub_Sequence b), cu_Digest = digest\<rparr> (f_cursors d1)\<rparr>"
      using body by (cases "ingest_start p b d") (fastforce split: if_splits sum.splits)+
    obtain a t where d1: "d1 = (ingest_writes st d)\<lparr>f_term_usage := a, f_term_days := t\<rparr>"
      using s(4) by (auto simp: recordTermUsage_def split: if_splits dest!: record_terms_tables)
    show ?thesis by (rule that(2) [OF s(1,5,2,3), of t a]) (simp add: s(6) d1 ingest_writes_def)
  qed
qed

lemma Ingest_tx_acct:
  assumes "ingest_tx cert verified now_ms p b digest d = Inr (x, e)" and cs: "checkpoints_ok u (ub_Checkpoints b) {||}" and ok: "acct_ok initial d"
  shows "acct_ok initial e"
  using assms(1)
proof (cases rule: ingest_tx_cases)
  case 1
  then show ?thesis using ok by simp
next
  case (2 st0 grantIDs budgetIDs st a t)
  note start = ingest_start_inv [OF 2(3) ok]
  have "\<exists>seen. ingest_inv initial d seen st" by (rule ingest_loop_inv [OF 2(4) _ cs]) (use start in auto)
  then have "acct_ok initial (ingest_writes st d)" using ingest_writes_acct by blast
  then show ?thesis using acct_cong [of e "ingest_writes st d" initial] 2(5) by simp
qed

text \<open>A new limit for a parent budget never falls below what is used and reserved on it.\<close>

lemma acct_limit:
  assumes ok: "acct_ok initial d" and b: "fmlookup (f_budgets d) k = Some b" and l: "b_UsedBytes b + b_ReservedBytes b \<le> limit" "limit \<le> maxInt64"
  shows "acct_ok initial (d\<lparr>f_budgets := fmupd k (b\<lparr>b_LimitBytes := limit\<rparr>) (f_budgets d)\<rparr>)" (is "acct_ok _ ?d")
proof -
  have same: "spent ?d = spent d" "owed ?d = owed d" "metered ?d = metered d"
    by (simp_all add: spent_def owed_def metered_def funded_by_def fun_eq_iff)
  have "budget_ok (b\<lparr>b_LimitBytes := limit\<rparr>)" using acct_parts(1) [OF ok b] l by (auto simp: budget_ok_def)
  then show ?thesis using ok b unfolding acct_ok_def same by (fastforce split: if_splits)
qed

lemma parent_limits_acct:
  assumes "parent_limits q ks m = Inr m'" and "acct_ok initial (d\<lparr>f_budgets := m\<rparr>)" and "\<And>k. k \<in> set ks \<Longrightarrow> fmlookup m k \<noteq> None"
    and "\<And>k. k \<in> set ks \<Longrightarrow> the (fmlookup (cc_ParentLimitBytes q) k) \<le> maxInt64"
  shows "acct_ok initial (d\<lparr>f_budgets := m'\<rparr>)"
  using assms
proof (induction ks arbitrary: m)
  case (Cons k ks)
  obtain b where b: "fmlookup m k = Some b" using Cons.prems(3) by fastforce
  let ?l = "the (fmlookup (cc_ParentLimitBytes q) k)"
  let ?m = "if b_LimitBytes b \<noteq> ?l then fmupd k (b\<lparr>b_LimitBytes := ?l\<rparr>) m else m"
  have g: "b_UsedBytes b + b_ReservedBytes b \<le> ?l" and rest: "parent_limits q ks ?m = Inr m'" using Cons.prems(1) b by (auto simp: Let_def split: if_splits)
  have "acct_ok initial (d\<lparr>f_budgets := ?m\<rparr>)" using acct_limit [OF Cons.prems(2), of k b ?l] b g Cons.prems(2,4) by simp
  then show ?case by (rule Cons.IH [OF rest]) (use Cons.prems(3,4) in auto)
qed simp

definition int64_limits :: "ClientCreditRequest \<Rightarrow> bool" where
  "int64_limits q \<longleftrightarrow> (\<forall>l \<in> fset (fmran (cc_ParentLimitBytes q)). l \<le> maxInt64)"

lemma credit_claimed_acct:
  assumes c: "credit_claimed u dig ledger fresh now_ms q pl t d = Inr (g, d')" and ok: "acct_ok initial d"
    and lim: "\<And>k. k \<in> set (cc_ParentBudgetIDs q) \<Longrightarrow> fmlookup (cc_ParentLimitBytes q) k \<noteq> None \<and> the (fmlookup (cc_ParentLimitBytes q) k) \<le> maxInt64"
  shows "acct_ok initial d'"
proof -
  obtain m0 m rq rq' d2 where m: "lockBudgets (tm_BudgetID t # cc_ParentBudgetIDs q) d = Inr m0" "parent_limits q (cc_ParentBudgetIDs q) (f_budgets d) = Inr m"
      "normalize_reserve u rq = Inr rq'" "reserve_tx dig now_ms rq' (cc_PlacementID q) (d\<lparr>f_budgets := m\<rparr>) = Inr (g, d2)"
      "d' = d2\<lparr>f_placements := fmupd (cc_PlacementID q) (pl\<lparr>pl_CurrentGrantID := Some (fg_ID g), pl_CurrentGrantTermID := Some (cc_TermID q)\<rparr>) (f_placements d2)\<rparr>"
    using c unfolding credit_claimed_def Let_def by (auto split: sum.splits if_split_asm)
  have "acct_ok initial (d\<lparr>f_budgets := m\<rparr>)"
    by (rule parent_limits_acct [OF m(2)]) (use ok lim lockBudgets_all(3) [OF m(1)] in auto)
  then have "acct_ok initial d2" by (rule reserve_tx_acct [OF m(4) _ normalize_reserve_bytes [OF m(3)]])
  then show ?thesis using m(5) acct_cong [of d' d2 initial] by simp
qed

lemma client_credit_acct:
  assumes "ReserveClientCredit u cdig dig sha1 fresh now_ms q d = (r, d')" and ok: "acct_ok initial d" and lim: "int64_limits q"
  shows "acct_ok initial d'"
proof (cases "normalize_credit u q")
  case (Inl err)
  then show ?thesis using assms(1) ok by (simp add: ReserveClientCredit_def)
next
  case (Inr q')
  have tx: "on_fleet (client_credit_tx u cdig dig sha1 fresh now_ms q') d = (r, d')" using assms(1) Inr by (simp add: ReserveClientCredit_def)
  have lims: "fmlookup (cc_ParentLimitBytes q') k \<noteq> None \<and> the (fmlookup (cc_ParentLimitBytes q') k) \<le> maxInt64" if "k \<in> set (cc_ParentBudgetIDs q')" for k
  proof -
    have "k \<in> set (cc_ParentBudgetIDs q)" "cc_ParentLimitBytes q' = cc_ParentLimitBytes q"
        "\<forall>k \<in> set (cc_ParentBudgetIDs q). fmlookup (cc_ParentLimitBytes q) k \<noteq> None"
      using Inr that by (auto simp: normalize_credit_def Let_def list_ex_iff split: if_splits option.splits)
    then show ?thesis using lim by (auto simp: int64_limits_def dest!: bspec intro: fmranI)
  qed
  show ?thesis
  proof (rule on_fleet_acct [OF tx ok])
    fix x d''
    assume step: "client_credit_tx u cdig dig sha1 fresh now_ms q' d = Inr (x, d'')"
    show "acct_ok initial d''"
    proof (cases "fmlookup (f_operations d) (cc_OperationID q')")
      case (Some op)
      then show ?thesis using step ok by (auto simp: client_credit_tx_def split: option.splits sum.splits)
    next
      case None
      let ?d = "d\<lparr>f_operations := fmupd (cc_OperationID q') \<lparr>op_Digest = cdig q', op_Result = OpNone\<rparr> (f_operations d)\<rparr>"
      obtain pl t g d1 where c: "credit_claimed u dig (sha1 (cc_OperationID q')) fresh now_ms q' pl t ?d = Inr (g, d1)"
        and d'': "d'' = d1\<lparr>f_operations := fmupd (cc_OperationID q') \<lparr>op_Digest = cdig q', op_Result = OpGrant g\<rparr> (f_operations d1)\<rparr>"
        using step None by (auto simp: client_credit_tx_def split: option.splits sum.splits)
      have "acct_ok initial ?d" using ok acct_cong [of ?d d initial] by simp
      then have "acct_ok initial d1" by (rule credit_claimed_acct [OF c _ lims])
      then show ?thesis using d'' acct_cong [of d'' d1 initial] by simp
    qed
  qed
qed

section \<open>Who is given credit\<close>

text \<open>A grant whose client the fleet manages: its term is the current one, active and not expired.\<close>

definition authorized_now :: "int \<Rightarrow> FleetGrant \<Rightarrow> FleetDB \<Rightarrow> bool" where
  "authorized_now now_ms x d \<longleftrightarrow> (\<forall>c. fmlookup (f_clients d) (fg_ClientID x) = Some c \<longrightarrow> cl_CurrentTermID c = Some (fg_TermID x)
     \<and> (\<exists>t. fmlookup (f_terms d) (fg_TermID x) = Some t \<and> tm_ClientID t = fg_ClientID x \<and> tm_State t = ''active''
          \<and> (tm_ExpiresUnixMilli t = 0 \<or> now_ms < tm_ExpiresUnixMilli t)))"

lemma authorized_cong:
  assumes "f_clients d' = f_clients d" "f_terms d' = f_terms d"
  shows "authorized_now now_ms x d' = authorized_now now_ms x d"
  using assms by (simp add: authorized_now_def)

lemma managed_active: "managedAuthority client t True d = Inr r \<Longrightarrow> fmlookup (f_clients d) client = Some c \<Longrightarrow>
    cl_CurrentTermID c = Some t \<and> (\<exists>row. r = Some row \<and> fmlookup (f_terms d) t = Some row \<and> tm_State row = ''active'' \<and> tm_ClientID row = client)"
  by (auto simp: managedAuthority_def split: option.splits if_splits)

text \<open>Grants stay with their client and term, and only an authorized one is opened or given more.\<close>

definition grants_step :: "int \<Rightarrow> FleetDB \<Rightarrow> FleetDB \<Rightarrow> bool" where
  "grants_step now_ms d d' \<longleftrightarrow> fmdom (f_grants d) |\<subseteq>| fmdom (f_grants d') \<and> (\<forall>g x'. fmlookup (f_grants d') g = Some x' \<longrightarrow>
     (case fmlookup (f_grants d) g of
        None \<Rightarrow> authorized_now now_ms x' d
      | Some x \<Rightarrow> fg_ClientID x' = fg_ClientID x \<and> fg_TermID x' = fg_TermID x \<and> (fg_IssuedBytes x' \<noteq> fg_IssuedBytes x \<longrightarrow> authorized_now now_ms x' d)))"

lemma grants_step_same: "f_grants d' = f_grants d \<Longrightarrow> grants_step now_ms d d'"
  by (auto simp: grants_step_def split: option.splits)

lemma grants_step_cong:
  assumes "f_grants e = f_grants d" "f_clients e = f_clients d" "f_terms e = f_terms d" "f_grants e' = f_grants d'"
  shows "grants_step now_ms e e' = grants_step now_ms d d'"
  unfolding grants_step_def assms authorized_cong [OF assms(2,3)] by (rule refl)

lemma guard_authorized:
  assumes "guardManagedReservation now_ms q placement d = None" "fg_ClientID x = rq_ClientID q" "fg_TermID x = rq_TermID q"
  shows "authorized_now now_ms x d"
  unfolding authorized_now_def
proof (intro allI impI)
  fix c
  assume c: "fmlookup (f_clients d) (fg_ClientID x) = Some c"
  obtain r where r: "managedAuthority (rq_ClientID q) (rq_TermID q) True d = Inr r"
    using assms(1) by (auto simp: guardManagedReservation_def split: sum.splits)
  note a = managed_active [OF r, unfolded assms(2,3) [symmetric], OF c]
  then show "cl_CurrentTermID c = Some (fg_TermID x) \<and> (\<exists>t. fmlookup (f_terms d) (fg_TermID x) = Some t \<and> tm_ClientID t = fg_ClientID x \<and> tm_State t = ''active''
          \<and> (tm_ExpiresUnixMilli t = 0 \<or> now_ms < tm_ExpiresUnixMilli t))"
    using assms(1) r by (auto simp: guardManagedReservation_def split: if_splits)
qed

lemma reserve_tx_guard:
  assumes "reserve_tx dig now_ms q placement d = Inr (g, d')" "d' \<noteq> d"
  shows "guardManagedReservation now_ms q placement d = None"
proof (cases "fmlookup (f_operations d) (rq_OperationID q)")
  case None
  then show ?thesis using assms unfolding reserve_tx_def by (auto split: option.splits)
next
  case (Some op)
  then show ?thesis using assms unfolding reserve_tx_def by (auto split: option.splits sum.splits)
qed

lemma reserve_tx_grants:
  assumes "reserve_tx dig now_ms q placement d = Inr (g, d')"
  shows "grants_step now_ms d d' \<and> f_clients d' = f_clients d \<and> f_terms d' = f_terms d \<and> f_rate_budgets d' = f_rate_budgets d \<and> f_rate_shares d' = f_rate_shares d"
  using assms
proof (cases rule: reserve_tx_cases)
  case 1
  then show ?thesis by (simp add: grants_step_same)
next
  case (2 m g0 budgets)
  show ?thesis
  proof (cases "d' = d")
    case False
    have g: "fg_ClientID g = rq_ClientID q \<and> fg_TermID g = rq_TermID q"
      "\<And>x. fmlookup (f_grants d) (rq_GrantID q) = Some x \<Longrightarrow> fg_ClientID x = rq_ClientID q \<and> fg_TermID x = rq_TermID q"
      using 2(2,5) by (auto simp: reserve_grant_def split: option.splits if_splits)
    then have "authorized_now now_ms g d" by (intro guard_authorized [OF reserve_tx_guard [OF assms False]]) simp_all
    then show ?thesis using 2(6) g by (auto simp: grants_step_def split: option.splits)
  qed (simp add: grants_step_same)
qed

lemma credit_claimed_grants:
  assumes "credit_claimed u dig ledger fresh now_ms q pl t d = Inr (g, d')"
  shows "grants_step now_ms d d' \<and> f_clients d' = f_clients d \<and> f_terms d' = f_terms d \<and> f_rate_budgets d' = f_rate_budgets d \<and> f_rate_shares d' = f_rate_shares d"
proof -
  obtain m rq' d2 where m: "reserve_tx dig now_ms rq' (cc_PlacementID q) (d\<lparr>f_budgets := m\<rparr>) = Inr (g, d2)"
      "d' = d2\<lparr>f_placements := fmupd (cc_PlacementID q) (pl\<lparr>pl_CurrentGrantID := Some (fg_ID g), pl_CurrentGrantTermID := Some (cc_TermID q)\<rparr>) (f_placements d2)\<rparr>"
    using assms unfolding credit_claimed_def Let_def by (auto split: sum.splits if_split_asm)
  show ?thesis using reserve_tx_grants [OF m(1)] grants_step_cong [of "d\<lparr>f_budgets := m\<rparr>" d d2 d'] by (simp add: m(2))
qed

lemma client_credit_grants:
  assumes "client_credit_tx u cdig dig sha1 fresh now_ms q d = Inr (g, d')"
  shows "grants_step now_ms d d' \<and> f_clients d' = f_clients d \<and> f_terms d' = f_terms d \<and> f_rate_budgets d' = f_rate_budgets d \<and> f_rate_shares d' = f_rate_shares d"
proof (cases "fmlookup (f_operations d) (cc_OperationID q)")
  case (Some op)
  then have "d' = d" using assms by (auto simp: client_credit_tx_def split: option.splits sum.splits)
  then show ?thesis by (simp add: grants_step_same)
next
  case None
  let ?d = "d\<lparr>f_operations := fmupd (cc_OperationID q) \<lparr>op_Digest = cdig q, op_Result = OpNone\<rparr> (f_operations d)\<rparr>"
  obtain pl t d1 where c: "credit_claimed u dig (sha1 (cc_OperationID q)) fresh now_ms q pl t ?d = Inr (g, d1)"
    and d': "d' = d1\<lparr>f_operations := fmupd (cc_OperationID q) \<lparr>op_Digest = cdig q, op_Result = OpGrant g\<rparr> (f_operations d1)\<rparr>"
    using assms None by (auto simp: client_credit_tx_def split: option.splits sum.splits)
  show ?thesis using credit_claimed_grants [OF c] grants_step_cong [of ?d d d1 d'] by (simp add: d')
qed

lemma ingest_loop_grants:
  assumes "ingest_loop d cs st = Inr st'" and "\<And>c. c \<in> set cs \<Longrightarrow> uc_GrantId (the c) |\<in>| fmdom (ig_grants st)"
  shows "fmdom (ig_grants st') = fmdom (ig_grants st) \<and> (\<forall>g x'. fmlookup (ig_grants st') g = Some x' \<longrightarrow> (\<exists>x. fmlookup (ig_grants st) g = Some x
     \<and> fg_ClientID x' = fg_ClientID x \<and> fg_TermID x' = fg_TermID x \<and> fg_IssuedBytes x' = fg_IssuedBytes x))"
  using assms
proof (induction cs arbitrary: st)
  case (Cons c cs)
  obtain st1 where s: "ingest_checkpoint d (the c) st = Inr st1" "ingest_loop d cs st1 = Inr st'" using Cons.prems(1) by (auto split: sum.splits)
  let ?g = "uc_GrantId (the c)"
  obtain x where x: "fmlookup (ig_grants st) ?g = Some x" using Cons.prems(2) by (fastforce simp: fmlookup_dom_iff)
  obtain delta where st1: "ig_grants st1 = fmupd ?g (x\<lparr>fg_ConsumedBytes := fg_ConsumedBytes x + delta\<rparr>) (ig_grants st)"
    by (rule ingest_checkpoint_cases [OF s(1) refl refl]) (simp add: x)
  have dom: "fmdom (ig_grants st1) = fmdom (ig_grants st)" using x by (auto simp: st1 fmlookup_dom_iff)
  have "\<And>c. c \<in> set cs \<Longrightarrow> uc_GrantId (the c) |\<in>| fmdom (ig_grants st1)" using Cons.prems(2) by (simp add: dom)
  note IH = Cons.IH [OF s(2) this]
  show ?case
  proof (intro conjI allI impI)
    show "fmdom (ig_grants st') = fmdom (ig_grants st)" using IH dom by simp
    fix g x'
    assume "fmlookup (ig_grants st') g = Some x'"
    then obtain y where y: "fmlookup (ig_grants st1) g = Some y" "fg_ClientID x' = fg_ClientID y" "fg_TermID x' = fg_TermID y" "fg_IssuedBytes x' = fg_IssuedBytes y"
      using IH by blast
    then show "\<exists>x. fmlookup (ig_grants st) g = Some x \<and> fg_ClientID x' = fg_ClientID x \<and> fg_TermID x' = fg_TermID x \<and> fg_IssuedBytes x' = fg_IssuedBytes x"
      using x by (auto simp: st1 split: if_splits)
  qed
qed simp

lemma ingest_tx_grants:
  assumes "ingest_tx cert verified now_ms p b digest d = Inr (r, d')" and cs: "checkpoints_ok u (ub_Checkpoints b) {||}" and ok: "acct_ok initial d"
  shows "grants_step later d d' \<and> f_clients d' = f_clients d \<and> f_terms d' = f_terms d \<and> f_rate_budgets d' = f_rate_budgets d \<and> f_rate_shares d' = f_rate_shares d"
  using assms(1)
proof (cases rule: ingest_tx_cases)
  case 1
  then show ?thesis by (simp add: grants_step_same)
next
  case (2 st0 grantIDs budgetIDs st a t)
  have some: "c \<noteq> None" if "c \<in> set xs" "checkpoints_ok u xs seen" for c xs seen
    using that by (induction xs arbitrary: seen) (auto simp: Let_def split: option.splits)
  have dom: "uc_GrantId (the c) |\<in>| fmdom (ig_grants st0)" if "c \<in> set (ub_Checkpoints b)" for c
    using ingest_start_inv [OF 2(3) ok] some [OF that cs] that by (cases c) auto
  have st0: "fmlookup (ig_grants st0) g = Some x \<Longrightarrow> fmlookup (f_grants d) g = Some x" for g x
    using 2(3) unfolding ingest_start_def Let_def by (auto split: sum.splits if_splits)
  note lp = ingest_loop_grants [OF 2(4) dom]
  have "\<exists>x. fmlookup (f_grants d) g = Some x \<and> fg_ClientID x' = fg_ClientID x \<and> fg_TermID x' = fg_TermID x \<and> fg_IssuedBytes x' = fg_IssuedBytes x"
    if "fmlookup (f_grants d') g = Some x'" for g x'
    using that lp st0 unfolding 2(5) by (fastforce simp: ingest_writes_def changed_rows_def split: if_splits)
  moreover have "fmdom (f_grants d) |\<subseteq>| fmdom (f_grants d')" by (auto simp: 2(5) ingest_writes_def)
  ultimately have "grants_step later d d'" unfolding grants_step_def by (fastforce split: option.splits)
  then show ?thesis by (simp add: 2(5) ingest_writes_def)
qed

end
