(* ===== verification/Rates.thy ===== *)
theory Rates
  imports Accounting
begin

text \<open>
  Shared rates of the control plane (\<open>internal/controlplane/rates.go\<close>, \<open>rate_allocation.go\<close>): a rate
  budget bounds the sum of what its shares may forward, a share holds the envelope of every rate its node
  may still enforce, and the allocator splits a budget among the participants. Rates are kept as records;
  the JSON text they are saved as is read back unchanged. \<open>now_ms\<close> is the time in milliseconds.
\<close>

section \<open>Rates\<close>

definition validate_rates :: "Rates \<Rightarrow> error option" where
  "validate_rates r = validate \<lparr>Term = ''rate-validation'', Revision = 1, AuthorityRevision = 0, Enabled = False, ExpiresUnixMilli = 0,
     QuotaUnlimited = False, CreditCeiling = 0, CreditRevision = 0, p_Upload = ra_Upload r, p_Download = ra_Download r\<rparr>"

definition decodeRates :: "Rates \<Rightarrow> Rates result" where
  "decodeRates r = (case validate_rates r of Some err \<Rightarrow> Inl err | None \<Rightarrow> Inr r)"

definition blocked_rate :: Rate where
  "blocked_rate = \<lparr>r_Mode = Blocked, BitsPerSecond = 0, BurstBytes = 0\<rparr>"

definition no_rates :: Rates where
  "no_rates = \<lparr>ra_Upload = blocked_rate, ra_Download = blocked_rate\<rparr>"

definition envelope :: "Rate \<Rightarrow> Rate \<Rightarrow> Rate" where
  "envelope a b =
     (if r_Mode a = Unlimited \<or> r_Mode b = Unlimited then \<lparr>r_Mode = Unlimited, BitsPerSecond = 0, BurstBytes = 0\<rparr>
      else if r_Mode a = Blocked then b
      else if r_Mode b = Blocked then a
      else \<lparr>r_Mode = Limited, BitsPerSecond = max (BitsPerSecond a) (BitsPerSecond b), BurstBytes = max (BurstBytes a) (BurstBytes b)\<rparr>)"

fun fits_loop :: "Rate \<Rightarrow> Rate list \<Rightarrow> u64 \<Rightarrow> u64 \<Rightarrow> bool" where
  "fits_loop bound [] bits burst \<longleftrightarrow> bits \<le> BitsPerSecond bound \<and> burst \<le> word_of_int (BurstBytes bound)"
| "fits_loop bound (v # vs) bits burst =
     (if r_Mode v = Blocked then fits_loop bound vs bits burst
      else if r_Mode v = Unlimited \<or> r_Mode bound = Blocked \<or> BitsPerSecond v > - 1 - bits \<or> word_of_int (BurstBytes v) > - 1 - burst then False
      else fits_loop bound vs (bits + BitsPerSecond v) (burst + word_of_int (BurstBytes v)))"

definition fitsRates :: "Rate \<Rightarrow> Rate list \<Rightarrow> bool" where
  "fitsRates bound vs = (if r_Mode bound = Unlimited then True else fits_loop bound vs 0 0)"

definition Contains_rates :: "Rates \<Rightarrow> Rates \<Rightarrow> bool" where
  "Contains_rates r other \<longleftrightarrow> validate_rates r = None \<and> validate_rates other = None
     \<and> fitsRates (ra_Upload r) [ra_Upload other] \<and> fitsRates (ra_Download r) [ra_Download other]"

section \<open>Budgets and shares\<close>

text \<open>The insert does nothing where the identifier or the client already has a budget.\<close>

definition rate_insert :: "string \<Rightarrow> FleetRateBudget \<Rightarrow> FleetDB \<Rightarrow> FleetDB" where
  "rate_insert k row d =
     (if k |\<in>| fmdom (f_rate_budgets d) \<or> rb_ClientID row |\<in>| rb_ClientID |`| fmran (f_rate_budgets d) then d
      else d\<lparr>f_rate_budgets := fmupd k row (f_rate_budgets d)\<rparr>)"

definition set_rate_budget_tx :: "'u uuid_lib \<Rightarrow> string \<Rightarrow> string \<Rightarrow> string \<Rightarrow> u64 \<Rightarrow> Rates \<Rightarrow> FleetDB \<Rightarrow> (unit \<times> FleetDB) result" where
  "set_rate_budget_tx u k client t revision desired d =
     (if \<not> ValidID u k \<or> \<not> ValidID u client \<or> \<not> ValidID u t \<or> revision = 0 \<or> revision > maxInt64u \<or> validate_rates desired \<noteq> None then Inl ErrInvalid
      else case lockAuthority d of Some err \<Rightarrow> Inl err | None \<Rightarrow>
      case managedAuthority client t True d of Inl err \<Rightarrow> Inl err | Inr _ \<Rightarrow>
      let d1 = rate_insert k \<lparr>rb_ClientID = client, rb_TermID = t, rb_Revision = uint revision, rb_Desired = desired\<rparr> d
      in case fmlookup (f_rate_budgets d1) k of None \<Rightarrow> Inl ErrScope | Some current \<Rightarrow>
         if rb_ClientID current \<noteq> client then Inl ErrScope
         else case decodeRates (rb_Desired current) of Inl err \<Rightarrow> Inl err | Inr previous \<Rightarrow>
           if rb_Revision current > uint revision \<or> rb_Revision current = uint revision \<and> (previous \<noteq> desired \<or> rb_TermID current \<noteq> t) then Inl ErrRevision
           else Inr ((), d1\<lparr>f_rate_budgets := fmupd k (current\<lparr>rb_TermID := t, rb_Revision := uint revision, rb_Desired := desired\<rparr>) (f_rate_budgets d1)\<rparr>))"

definition SetRateBudget :: "'u uuid_lib \<Rightarrow> string \<Rightarrow> string \<Rightarrow> string \<Rightarrow> u64 \<Rightarrow> Rates \<Rightarrow> FleetDB \<Rightarrow> unit result \<times> FleetDB" where
  "SetRateBudget u k client t revision desired d = on_fleet (set_rate_budget_tx u k client t revision desired) d"

record RateRequest =
  rr_OperationID :: string
  rr_GrantID :: string
  rr_BudgetID :: string
  rr_NodeID :: string
  rr_InstallationID :: string
  rr_RuntimeID :: string
  rr_Desired :: Rates

definition shares_of :: "string \<Rightarrow> FleetDB \<Rightarrow> (string \<times> FleetRateShare) list" where
  "shares_of k d = filter (\<lambda>(g, s). rs_BudgetID s = k) (entries_by_key (f_rate_shares d))"

text \<open>The loop over the shares: the share of the grant itself, if it has one, and what the others hold.\<close>

fun share_loop :: "RateRequest \<Rightarrow> (string \<times> FleetRateShare) list \<Rightarrow> (FleetRateShare \<times> Rates) option \<Rightarrow> Rates list \<Rightarrow>
    ((FleetRateShare \<times> Rates) option \<times> Rates list) result" where
  "share_loop q [] own others = Inr (own, others)"
| "share_loop q ((g, s) # xs) own others = (case decodeRates (rs_Outstanding s) of Inl err \<Rightarrow> Inl err | Inr outstanding \<Rightarrow>
     if g = rr_GrantID q then
       (if rs_NodeID s \<noteq> rr_NodeID q \<or> rs_InstallationID s \<noteq> rr_InstallationID q \<or> rs_RuntimeID s \<noteq> rr_RuntimeID q then Inl ErrScope
        else share_loop q xs (Some (s, outstanding)) others)
     else share_loop q xs own (others @ [outstanding]))"

definition replay_share :: "bytes \<Rightarrow> FleetOperation \<Rightarrow> FleetRateShare result" where
  "replay_share digest op = (if op_Digest op \<noteq> digest then Inl ErrConflict
     else case op_Result op of OpShare s \<Rightarrow> Inr s | _ \<Rightarrow> Inl ErrDecode)"

definition rates_fit :: "Rates \<Rightarrow> Rates list \<Rightarrow> bool" where
  "rates_fit bound rs \<longleftrightarrow> fitsRates (ra_Upload bound) (map ra_Upload rs) \<and> fitsRates (ra_Download bound) (map ra_Download rs)"

text \<open>The rates a request holds after it, or the error of its guards.\<close>

definition share_guard :: "int \<Rightarrow> RateRequest \<Rightarrow> FleetGrant \<Rightarrow> FleetTerm option \<Rightarrow> FleetRateBudget \<Rightarrow> Rates \<Rightarrow> Rates list \<Rightarrow> FleetDB \<Rightarrow> Rates result" where
  "share_guard now_ms q g term budget previous others d =
     (let outstanding = \<lparr>ra_Upload = envelope (ra_Upload previous) (ra_Upload (rr_Desired q)), ra_Download = envelope (ra_Download previous) (ra_Download (rr_Desired q))\<rparr>
      in if fg_TermID g \<noteq> rb_TermID budget \<and> outstanding \<noteq> previous then Inl ErrScope
         else case (case term of
               Some t \<Rightarrow>
                 if outstanding \<noteq> previous then
                   (if tm_ExpiresUnixMilli t \<noteq> 0 \<and> tm_ExpiresUnixMilli t \<le> now_ms then Some ErrScope
                    else case managedAuthority (fg_ClientID g) (fg_TermID g) True d of Inl err \<Rightarrow> Some err | Inr _ \<Rightarrow> None)
                 else None
             | None \<Rightarrow> None) of
             Some err \<Rightarrow> Inl err
           | None \<Rightarrow>
               case decodeRates (rb_Desired budget) of Inl err \<Rightarrow> Inl err | Inr bound \<Rightarrow>
               if outstanding \<noteq> previous \<and> \<not> rates_fit bound (others @ [outstanding]) then Inl ErrBudget else Inr outstanding)"

definition share_tx :: "(RateRequest \<Rightarrow> bytes) \<Rightarrow> int \<Rightarrow> RateRequest \<Rightarrow> FleetDB \<Rightarrow> (FleetRateShare \<times> FleetDB) result" where
  "share_tx dig now_ms q d = (case lockAuthority d of Some err \<Rightarrow> Inl err | None \<Rightarrow>
     case fmlookup (f_operations d) (rr_OperationID q) of
       Some op \<Rightarrow> (case replay_share (dig q) op of Inl err \<Rightarrow> Inl err | Inr s \<Rightarrow> Inr (s, d))
     | None \<Rightarrow>
         case lockNode (rr_NodeID q) (rr_InstallationID q) d of Some err \<Rightarrow> Inl err | None \<Rightarrow>
         case First (f_grants d) (rr_GrantID q) of Inl err \<Rightarrow> Inl err | Inr g \<Rightarrow>
         case managedAuthority (fg_ClientID g) (fg_TermID g) False d of Inl err \<Rightarrow> Inl err | Inr term \<Rightarrow>
         case First (f_rate_budgets d) (rr_BudgetID q) of Inl err \<Rightarrow> Inl err | Inr budget \<Rightarrow>
           if fg_NodeID g \<noteq> rr_NodeID q \<or> fg_InstallationID g \<noteq> rr_InstallationID q \<or> fg_RuntimeID g \<noteq> rr_RuntimeID q \<or> fg_ClientID g \<noteq> rb_ClientID budget
           then Inl ErrScope
           else case share_loop q (shares_of (rr_BudgetID q) d) None [] of Inl err \<Rightarrow> Inl err | Inr (own, others) \<Rightarrow>
             case share_guard now_ms q g term budget (case own of None \<Rightarrow> no_rates | Some (s, r) \<Rightarrow> r) others d of Inl err \<Rightarrow> Inl err | Inr outstanding \<Rightarrow>
             let s = (case own of Some (s, _) \<Rightarrow> s | None \<Rightarrow> \<lparr>rs_ID = rr_GrantID q, rs_BudgetID = rr_BudgetID q, rs_NodeID = rr_NodeID q,
                   rs_InstallationID = rr_InstallationID q, rs_RuntimeID = rr_RuntimeID q, rs_Revision = 0, rs_AppliedRevision = 0,
                   rs_Desired = no_rates, rs_Outstanding = no_rates\<rparr>)
             in if rs_Revision s = maxInt64 then Inl ErrRevision
                else let s' = s\<lparr>rs_Revision := rs_Revision s + 1, rs_Desired := rr_Desired q, rs_Outstanding := outstanding\<rparr>;
                         owner = (case fmlookup (f_rate_shares d) (rr_GrantID q) of None \<Rightarrow> s' | Some row \<Rightarrow> row)
                     in if rs_BudgetID owner \<noteq> rr_BudgetID q then Inl ErrScope
                        else Inr (s', d\<lparr>f_rate_shares := fmupd (rr_GrantID q)
                               (owner\<lparr>rs_Revision := rs_Revision s', rs_Desired := rs_Desired s', rs_Outstanding := rs_Outstanding s'\<rparr>) (f_rate_shares d),
                             f_operations := fmupd (rr_OperationID q) \<lparr>op_Digest = dig q, op_Result = OpShare s'\<rparr> (f_operations d)\<rparr>))"

definition RequestRateShare :: "'u uuid_lib \<Rightarrow> (RateRequest \<Rightarrow> bytes) \<Rightarrow> int \<Rightarrow> RateRequest \<Rightarrow> FleetDB \<Rightarrow> FleetRateShare result \<times> FleetDB" where
  "RequestRateShare u dig now_ms q d =
     (if \<not> ValidID u (rr_OperationID q) \<or> \<not> ValidID u (rr_GrantID q) \<or> \<not> ValidID u (rr_BudgetID q) \<or> \<not> ValidID u (rr_NodeID q)
         \<or> \<not> ValidID u (rr_InstallationID q) \<or> \<not> runtimeName (rr_RuntimeID q) \<or> validate_rates (rr_Desired q) \<noteq> None then (Inl ErrInvalid, d)
      else on_fleet (share_tx dig now_ms q) d)"

definition confirm_tx :: "Principal \<Rightarrow> string \<Rightarrow> u64 \<Rightarrow> Rates \<Rightarrow> FleetDB \<Rightarrow> (unit \<times> FleetDB) result" where
  "confirm_tx p g revision applied d = (case lockAuthority d of Some err \<Rightarrow> Inl err | None \<Rightarrow>
     case lockNode (pr_NodeID p) (pr_InstallationID p) d of Some err \<Rightarrow> Inl err | None \<Rightarrow>
     case First (f_rate_shares d) g of Inl err \<Rightarrow> Inl err | Inr s \<Rightarrow>
       if rs_NodeID s \<noteq> pr_NodeID p \<or> rs_InstallationID s \<noteq> pr_InstallationID p then Inl ErrScope
       else case First (f_rate_budgets d) (rs_BudgetID s) of Inl err \<Rightarrow> Inl err | Inr _ \<Rightarrow>
         case decodeRates (rs_Desired s) of Inl err \<Rightarrow> Inl err | Inr desired \<Rightarrow>
         if rs_Revision s \<noteq> uint revision \<or> desired \<noteq> applied then Inl ErrRevision
         else Inr ((), d\<lparr>f_rate_shares := fmupd g (s\<lparr>rs_AppliedRevision := uint revision, rs_Outstanding := applied\<rparr>) (f_rate_shares d)\<rparr>))"

definition ConfirmRateShare :: "'u uuid_lib \<Rightarrow> Principal \<Rightarrow> string \<Rightarrow> u64 \<Rightarrow> Rates \<Rightarrow> FleetDB \<Rightarrow> unit result \<times> FleetDB" where
  "ConfirmRateShare u p g revision applied d =
     (if \<not> ValidID u g \<or> revision = 0 \<or> revision > maxInt64u \<or> validate_rates applied \<noteq> None then (Inl ErrInvalid, d)
      else on_fleet (confirm_tx p g revision applied) d)"

fun outstanding_rates :: "(string \<times> FleetRateShare) list \<Rightarrow> Rates list result" where
  "outstanding_rates [] = Inr []"
| "outstanding_rates ((g, s) # xs) = (case decodeRates (rs_Outstanding s) of Inl err \<Rightarrow> Inl err | Inr r \<Rightarrow>
     (case outstanding_rates xs of Inl err \<Rightarrow> Inl err | Inr rs \<Rightarrow> Inr (r # rs)))"

definition RateBudgetPending :: "'u uuid_lib \<Rightarrow> string \<Rightarrow> FleetDB \<Rightarrow> bool result" where
  "RateBudgetPending u k d = (if \<not> ValidID u k then Inl ErrInvalid else
     case First (f_rate_budgets d) k of Inl err \<Rightarrow> Inl err | Inr budget \<Rightarrow>
     case decodeRates (rb_Desired budget) of Inl err \<Rightarrow> Inl err | Inr bound \<Rightarrow>
     case outstanding_rates (shares_of k d) of Inl err \<Rightarrow> Inl ErrBudget | Inr rs \<Rightarrow> Inr (\<not> rates_fit bound rs))"

section \<open>Allocation of a shared budget\<close>

record RateParticipant =
  rp_ID :: string
  rp_Outstanding :: Rates
  rp_Eligible :: bool
  rp_Frozen :: bool
  rp_MinimumBurst :: int

record RateAllocation =
  al_ID :: string
  al_Target :: Rates
  al_Next :: Rates

record RateCapacityError =
  ce_Direction :: Direction
  ce_AvailableBits :: u64
  ce_AvailableBurst :: int
  ce_Participants :: int
  ce_RequiredBurst :: u64

record rateTotals =
  rt_bits :: u64
  rt_high :: u64
  rt_burst :: u64
  rt_unlimited :: int

text \<open>\<open>bits.Add64\<close> and \<open>bits.Sub64\<close>: the carry and the borrow are one when the word wraps.\<close>

definition add_total :: "Rate \<Rightarrow> rateTotals \<Rightarrow> rateTotals" where
  "add_total v s =
     (if r_Mode v = Unlimited then s\<lparr>rt_unlimited := rt_unlimited s + 1\<rparr>
      else if r_Mode v = Limited then
        s\<lparr>rt_bits := rt_bits s + BitsPerSecond v, rt_high := rt_high s + (if rt_bits s + BitsPerSecond v < rt_bits s then 1 else 0),
          rt_burst := rt_burst s + word_of_int (BurstBytes v)\<rparr>
      else s)"

definition remove_total :: "Rate \<Rightarrow> rateTotals \<Rightarrow> rateTotals" where
  "remove_total v s =
     (if r_Mode v = Unlimited then s\<lparr>rt_unlimited := rt_unlimited s - 1\<rparr>
      else if r_Mode v = Limited then
        s\<lparr>rt_bits := rt_bits s - BitsPerSecond v, rt_high := rt_high s - (if rt_bits s < BitsPerSecond v then 1 else 0),
          rt_burst := rt_burst s - word_of_int (BurstBytes v)\<rparr>
      else s)"

definition fits_total :: "rateTotals \<Rightarrow> Rate \<Rightarrow> bool" where
  "fits_total s bound \<longleftrightarrow> r_Mode bound = Unlimited
     \<or> rt_unlimited s = 0 \<and> rt_high s = 0 \<and> rt_bits s \<le> BitsPerSecond bound \<and> rt_burst s \<le> word_of_int (BurstBytes bound)"

definition lowerRate :: "Rate \<Rightarrow> Rate \<Rightarrow> Rate" where
  "lowerRate a b =
     (if r_Mode a = Blocked \<or> r_Mode b = Blocked then blocked_rate
      else if r_Mode a = Unlimited then b
      else if r_Mode b = Unlimited then a
      else \<lparr>r_Mode = Limited, BitsPerSecond = min (BitsPerSecond a) (BitsPerSecond b), BurstBytes = min (BurstBytes a) (BurstBytes b)\<rparr>)"

definition open_to :: "RateParticipant \<Rightarrow> bool" where
  "open_to p \<longleftrightarrow> rp_Eligible p \<and> \<not> rp_Frozen p"

text \<open>What the frozen participants leave of the budget, and whether they fit in it.\<close>

fun frozen_loop :: "Rate \<Rightarrow> (RateParticipant \<times> Rate) list \<Rightarrow> u64 \<Rightarrow> u64 \<Rightarrow> bool \<Rightarrow> u64 \<times> u64 \<times> bool" where
  "frozen_loop bound [] bits burst insufficient = (bits, burst, insufficient)"
| "frozen_loop bound ((p, c) # xs) bits burst insufficient =
     (if rp_Frozen p \<and> r_Mode bound \<noteq> Unlimited \<and> r_Mode c \<noteq> Blocked then
        (if r_Mode c = Unlimited \<or> BitsPerSecond c > bits \<or> word_of_int (BurstBytes c) > burst then frozen_loop bound xs bits burst True
         else frozen_loop bound xs (bits - BitsPerSecond c) (burst - word_of_int (BurstBytes c)) insufficient)
      else frozen_loop bound xs bits burst insufficient)"

definition minimum_burst :: "RateParticipant list \<Rightarrow> u64" where
  "minimum_burst ps = sum_list (map (\<lambda>p. word_of_int (rp_MinimumBurst p)) (filter open_to ps))"

fun assign_fair :: "u64 \<Rightarrow> u64 \<Rightarrow> u64 \<Rightarrow> u64 \<Rightarrow> (RateParticipant \<times> Rate) list \<Rightarrow> Rate list" where
  "assign_fair bits extra n rank [] = []"
| "assign_fair bits extra n rank ((p, c) # xs) =
     (if open_to p then
        \<lparr>r_Mode = Limited, BitsPerSecond = bits div n + (if rank < bits mod n then 1 else 0),
         BurstBytes = sint (word_of_int (rp_MinimumBurst p) + extra div n + (if rank < extra mod n then 1 else 0))\<rparr>
          # assign_fair bits extra n (rank + 1) xs
      else (if rp_Frozen p then c else blocked_rate) # assign_fair bits extra n rank xs)"

definition frozen_targets :: "(RateParticipant \<times> Rate) list \<Rightarrow> Rate list" where
  "frozen_targets xs = map (\<lambda>(p, c). if rp_Frozen p then c else blocked_rate) xs"

definition retainFeasibleRates :: "Rate \<Rightarrow> (RateParticipant \<times> Rate) list \<Rightarrow> Rate list \<Rightarrow> Rate list" where
  "retainFeasibleRates bound xs result =
     (if fitsRates bound (map snd xs) then map2 (\<lambda>(p, c) r. if rp_Eligible p \<and> \<not> rp_Frozen p then c else r) xs result else result)"

definition fairRateTargets :: "Rate \<Rightarrow> (RateParticipant \<times> Rate) list \<Rightarrow> Rate list" where
  "fairRateTargets bound xs =
     (case frozen_loop bound xs (BitsPerSecond bound) (word_of_int (BurstBytes bound)) (r_Mode bound = Blocked) of (bits, burst, insufficient) \<Rightarrow>
        let result = frozen_targets xs; eligible = filter open_to (map fst xs)
        in if eligible = [] \<or> insufficient then result
           else if r_Mode bound = Unlimited then
             map2 (\<lambda>(p, c) r. if open_to p then \<lparr>r_Mode = Unlimited, BitsPerSecond = 0, BurstBytes = 0\<rparr> else r) xs result
           else if bits < of_nat (length eligible) then retainFeasibleRates bound xs result
           else let minimum = minimum_burst (map fst xs)
                in if minimum > burst then retainFeasibleRates bound xs result
                   else assign_fair bits (burst - minimum) (of_nat (length eligible)) 0 xs)"

fun next_loop :: "Rate \<Rightarrow> rateTotals \<Rightarrow> (RateParticipant \<times> Rate \<times> Rate) list \<Rightarrow> Rate list" where
  "next_loop bound totals [] = []"
| "next_loop bound totals ((p, c, t) # xs) =
     (let nxt = (if rp_Frozen p then c
                   else if fits_total (add_total (envelope c t) (remove_total c totals)) bound then t else lowerRate c t)
      in nxt # next_loop bound (add_total (envelope c nxt) (remove_total c totals)) xs)"

text \<open>One round of the loop over the directions: the capacity error if any, the targets and the next rates.\<close>

definition capacity_error :: "Direction \<Rightarrow> Rate \<Rightarrow> RateParticipant list \<Rightarrow> RateCapacityError list" where
  "capacity_error direction bound ps =
     (let n = length (filter open_to ps); minimum = minimum_burst ps
      in if r_Mode bound = Limited \<and> (of_nat n > BitsPerSecond bound \<or> minimum > word_of_int (BurstBytes bound))
         then [\<lparr>ce_Direction = direction, ce_AvailableBits = BitsPerSecond bound, ce_AvailableBurst = BurstBytes bound, ce_Participants = int n, ce_RequiredBurst = minimum\<rparr>]
         else [])"

definition allocate_direction :: "Rate \<Rightarrow> (RateParticipant \<times> Rate) list \<Rightarrow> Rate list \<times> Rate list" where
  "allocate_direction bound xs =
     (let target = fairRateTargets bound xs;
          totals = fold add_total (map snd xs) \<lparr>rt_bits = 0, rt_high = 0, rt_burst = 0, rt_unlimited = 0\<rparr>
      in (target, next_loop bound totals (map2 (\<lambda>(p, c) t. (p, c, t)) xs target)))"

definition participant_ok :: "'u uuid_lib \<Rightarrow> RateParticipant \<Rightarrow> bool" where
  "participant_ok u p \<longleftrightarrow> ValidID u (rp_ID p) \<and> validate_rates (rp_Outstanding p) = None \<and> 1 \<le> rp_MinimumBurst p \<and> rp_MinimumBurst p \<le> 2 ^ 20"

definition AllocateSharedRates :: "'u uuid_lib \<Rightarrow> Rates \<Rightarrow> RateParticipant list \<Rightarrow> (RateAllocation list \<times> RateCapacityError list) result" where
  "AllocateSharedRates u budget ps =
     (if validate_rates budget \<noteq> None \<or> length ps > 32768 then Inl ErrInvalid
      else let ps = sort_key rp_ID ps
      in if \<not> list_all (participant_ok u) ps \<or> adjacent_equal (map rp_ID ps) then Inl ErrInvalid
         else case allocate_direction (ra_Upload budget) (map (\<lambda>p. (p, ra_Upload (rp_Outstanding p))) ps) of (targetUp, nextUp) \<Rightarrow>
              case allocate_direction (ra_Download budget) (map (\<lambda>p. (p, ra_Download (rp_Outstanding p))) ps) of (targetDown, nextDown) \<Rightarrow>
              Inr (map (\<lambda>(p, (tu, nu), (td, nd)). \<lparr>al_ID = rp_ID p, al_Target = \<lparr>ra_Upload = tu, ra_Download = td\<rparr>, al_Next = \<lparr>ra_Upload = nu, ra_Download = nd\<rparr>\<rparr>)
                     (zip ps (zip (zip targetUp nextUp) (zip targetDown nextDown))),
                   capacity_error Upload (ra_Upload budget) ps @ capacity_error Download (ra_Download budget) ps))"

section \<open>What fitting a budget means\<close>

text \<open>Sums of rates without a machine's width, and the order of rates.\<close>

definition within :: "Rate \<Rightarrow> Rate list \<Rightarrow> bool" where
  "within bound vs \<longleftrightarrow> r_Mode bound = Unlimited \<or> (\<forall>v \<in> set vs. r_Mode v \<noteq> Unlimited)
     \<and> (\<Sum>v \<leftarrow> vs. unat (BitsPerSecond v)) \<le> unat (BitsPerSecond bound) \<and> (\<Sum>v \<leftarrow> vs. BurstBytes v) \<le> BurstBytes bound"

definition at_most :: "Rate \<Rightarrow> Rate \<Rightarrow> bool" where
  "at_most a b \<longleftrightarrow> r_Mode b = Unlimited \<or> r_Mode a \<noteq> Unlimited \<and> unat (BitsPerSecond a) \<le> unat (BitsPerSecond b) \<and> BurstBytes a \<le> BurstBytes b"

lemma valid_rate:
  assumes "validate_rate r"
  shows "0 \<le> BurstBytes r" "BurstBytes r \<le> 2 ^ 20" "unat (BitsPerSecond r) \<le> 2 ^ 53" "r_Mode r \<noteq> Limited \<Longrightarrow> BitsPerSecond r = 0 \<and> BurstBytes r = 0"
    "r_Mode r = Limited \<Longrightarrow> 1 \<le> BurstBytes r \<and> 1 \<le> unat (BitsPerSecond r)" "r_Mode r = Blocked \<or> r_Mode r = Limited \<or> r_Mode r = Unlimited"
proof -
  have "unat (2 ^ 53 :: u64) = 2 ^ 53" by simp
  then have big: "\<not> BitsPerSecond r > 2 ^ 53 \<Longrightarrow> unat (BitsPerSecond r) \<le> 2 ^ 53" by (simp add: word_less_nat_alt)
  show "0 \<le> BurstBytes r" "BurstBytes r \<le> 2 ^ 20" "r_Mode r \<noteq> Limited \<Longrightarrow> BitsPerSecond r = 0 \<and> BurstBytes r = 0"
    "r_Mode r = Blocked \<or> r_Mode r = Limited \<or> r_Mode r = Unlimited"
    using assms by (auto simp: validate_rate_def split: if_splits)
  show "unat (BitsPerSecond r) \<le> 2 ^ 53" using assms big by (auto simp: validate_rate_def split: if_splits)
  show "r_Mode r = Limited \<Longrightarrow> 1 \<le> BurstBytes r \<and> 1 \<le> unat (BitsPerSecond r)"
    using assms by (auto simp: validate_rate_def unat_gt_0 Suc_le_eq split: if_splits)
qed

lemma burst_word:
  assumes "0 \<le> b" "b \<le> 2 ^ 40"
  shows "uint (word_of_int b :: u64) = b"
  using assms by (simp add: uint_word_of_int_eq take_bit_int_eq_self)

lemma room_nat: "x > - 1 - (y :: u64) \<longleftrightarrow> unat y + unat x \<ge> 2 ^ 64"
proof -
  have "unat (- 1 - y) = 2 ^ 64 - 1 - unat y" using unat_sub [of y "- 1"] by (simp add: unsigned_minus_1_eq_mask mask_eq_exp_minus_1)
  then show ?thesis using unsigned_less [where w = y, where 'a = nat] by (simp add: word_less_nat_alt) linarith
qed

lemma room_int: "x > - 1 - (y :: u64) \<longleftrightarrow> uint y + uint x \<ge> 2 ^ 64"
proof -
  have "uint y + uint x \<ge> 2 ^ 64 \<longleftrightarrow> int (unat y + unat x) \<ge> int (2 ^ 64)" by simp
  then show ?thesis unfolding room_nat of_nat_le_iff by simp
qed

lemma fits_loop_iff:
  assumes "validate_rate bound" and "\<forall>v \<in> set vs. validate_rate v"
  shows "fits_loop bound vs bits burst \<longleftrightarrow> (\<forall>v \<in> set vs. r_Mode v \<noteq> Unlimited \<and> (r_Mode bound = Blocked \<longrightarrow> r_Mode v = Blocked))
     \<and> unat bits + (\<Sum>v \<leftarrow> vs. unat (BitsPerSecond v)) \<le> unat (BitsPerSecond bound) \<and> uint burst + (\<Sum>v \<leftarrow> vs. BurstBytes v) \<le> BurstBytes bound"
  using assms(2)
proof (induction vs arbitrary: bits burst)
  case Nil
  have "uint (word_of_int (BurstBytes bound) :: u64) = BurstBytes bound" using valid_rate(1,2) [OF assms(1)] by (intro burst_word) simp_all
  then have "burst \<le> word_of_int (BurstBytes bound) \<longleftrightarrow> uint burst \<le> BurstBytes bound" by (simp add: word_le_def)
  then show ?case by (simp add: word_le_nat_alt [of bits])
next
  case (Cons v vs)
  have v: "validate_rate v" and vs: "\<forall>v \<in> set vs. validate_rate v" using Cons.prems by simp_all
  have w: "uint (word_of_int (BurstBytes v) :: u64) = BurstBytes v" using valid_rate(1,2) [OF v] by (intro burst_word) simp_all
  have nn: "0 \<le> (\<Sum>v \<leftarrow> vs. BurstBytes v)" using vs valid_rate(1) by (intro sum_list_nonneg) auto
  show ?case
  proof (cases "r_Mode v = Blocked")
    case True
    then show ?thesis using Cons.IH [OF vs] valid_rate(4) [OF v] by simp
  next
    case False
    have b1: "BitsPerSecond v > - 1 - bits \<longleftrightarrow> unat bits + unat (BitsPerSecond v) \<ge> 2 ^ 64" by (rule room_nat)
    have b2: "word_of_int (BurstBytes v) > - 1 - burst \<longleftrightarrow> uint burst + BurstBytes v \<ge> 2 ^ 64" using room_int [of burst "word_of_int (BurstBytes v)"] w by simp
    show ?thesis
    proof (cases "r_Mode v = Unlimited \<or> r_Mode bound = Blocked \<or> BitsPerSecond v > - 1 - bits \<or> word_of_int (BurstBytes v) > - 1 - burst")
      case True
      then show ?thesis using False valid_rate(2,3) [OF assms(1)] nn by (auto simp: b1 b2)
    next
      case ok: False
      then have "unat (bits + BitsPerSecond v) = unat bits + unat (BitsPerSecond v)" "uint (burst + word_of_int (BurstBytes v)) = uint burst + BurstBytes v"
        using b1 b2 w valid_rate(1) [OF v] by (auto simp: unat_word_ariths uint_word_ariths mod_pos_pos_trivial)
      then show ?thesis using False ok Cons.IH [OF vs, of "bits + BitsPerSecond v" "burst + word_of_int (BurstBytes v)"] by auto
    qed
  qed
qed

lemma fitsRates_iff:
  assumes "validate_rate bound" and "\<forall>v \<in> set vs. validate_rate v"
  shows "fitsRates bound vs \<longleftrightarrow> within bound vs"
proof -
  have "r_Mode v = Blocked" if "r_Mode bound = Blocked" "v \<in> set vs" "r_Mode v \<noteq> Unlimited" "(\<Sum>v \<leftarrow> vs. unat (BitsPerSecond v)) \<le> unat (BitsPerSecond bound)" for v
  proof (rule ccontr)
    assume "r_Mode v \<noteq> Blocked"
    then have "1 \<le> unat (BitsPerSecond v)" using valid_rate(5,6) [of v] that assms by auto
    moreover have "unat (BitsPerSecond v) \<le> (\<Sum>v \<leftarrow> vs. unat (BitsPerSecond v))" using that(2) by (intro member_le_sum_list) auto
    moreover have "unat (BitsPerSecond bound) = 0" using that(1) valid_rate(4) [OF assms(1)] by simp
    ultimately show False using that(4) by linarith
  qed
  then show ?thesis unfolding fitsRates_def within_def fits_loop_iff [OF assms] by auto
qed

lemma within_mset: "mset vs = mset ws \<Longrightarrow> within bound vs = within bound ws"
proof -
  assume m: "mset vs = mset ws"
  have "set vs = set ws" using m by (rule mset_eq_setD)
  moreover have "(\<Sum>v \<leftarrow> vs. unat (BitsPerSecond v)) = (\<Sum>v \<leftarrow> ws. unat (BitsPerSecond v))" "(\<Sum>v \<leftarrow> vs. BurstBytes v) = (\<Sum>v \<leftarrow> ws. BurstBytes v)"
    using m by (metis mset_map sum_mset_sum_list)+
  ultimately show ?thesis by (simp add: within_def)
qed

lemma within_mono:
  assumes "within bound ws" and "list_all2 at_most vs ws"
  shows "within bound vs"
proof (cases "r_Mode bound = Unlimited")
  case False
  have m: "\<forall>w \<in> set ws. r_Mode w \<noteq> Unlimited" using assms(1) False by (simp add: within_def)
  have "(\<forall>v \<in> set vs. r_Mode v \<noteq> Unlimited) \<and> (\<Sum>v \<leftarrow> vs. unat (BitsPerSecond v)) \<le> (\<Sum>v \<leftarrow> ws. unat (BitsPerSecond v)) \<and> (\<Sum>v \<leftarrow> vs. BurstBytes v) \<le> (\<Sum>v \<leftarrow> ws. BurstBytes v)"
    using assms(2) m by (induction rule: list_all2_induct) (auto simp: at_most_def)
  then show ?thesis using assms(1) False by (auto simp: within_def)
qed (simp add: within_def)

lemma envelope_valid: "validate_rate a \<Longrightarrow> validate_rate b \<Longrightarrow> validate_rate (envelope a b)"
  by (auto simp: validate_rate_def envelope_def max_def split: if_splits)

lemma envelope_bounds:
  assumes "validate_rate a" "validate_rate b"
  shows "at_most a (envelope a b)" "at_most b (envelope a b)"
  using valid_rate(1,4) [OF assms(1)] valid_rate(1,4) [OF assms(2)] valid_rate(6) [OF assms(1)] valid_rate(6) [OF assms(2)]
  by (auto simp: at_most_def envelope_def max_def word_le_nat_alt not_le)

lemma at_most_refl [simp]: "at_most a a"
  by (simp add: at_most_def)

lemma at_most_trans: "at_most a b \<Longrightarrow> at_most b c \<Longrightarrow> at_most a c"
  by (auto simp: at_most_def)

lemma at_most_blocked:
  assumes "at_most a blocked_rate" "validate_rate a"
  shows "a = blocked_rate"
proof -
  have "r_Mode a \<noteq> Unlimited" "unat (BitsPerSecond a) = 0" "BurstBytes a \<le> 0" using assms(1) by (auto simp: at_most_def blocked_rate_def)
  then have "r_Mode a = Blocked" using valid_rate(5,6) [OF assms(2)] by auto
  then show ?thesis using valid_rate(4) [OF assms(2)] by (simp add: blocked_rate_def)
qed

section \<open>Shares of a budget\<close>

definition rates_at_most :: "Rates \<Rightarrow> Rates \<Rightarrow> bool" where
  "rates_at_most a b \<longleftrightarrow> at_most (ra_Upload a) (ra_Upload b) \<and> at_most (ra_Download a) (ra_Download b)"

definition join_rates :: "Rates \<Rightarrow> Rates \<Rightarrow> Rates" where
  "join_rates a b = \<lparr>ra_Upload = envelope (ra_Upload a) (ra_Upload b), ra_Download = envelope (ra_Download a) (ra_Download b)\<rparr>"

definition held :: "string \<Rightarrow> FleetDB \<Rightarrow> Rates list" where
  "held k d = map (\<lambda>(g, s). rs_Outstanding s) (shares_of k d)"

definition held_by_others :: "string \<Rightarrow> string \<Rightarrow> FleetDB \<Rightarrow> Rates list" where
  "held_by_others g k d = map (\<lambda>(h, s). rs_Outstanding s) (filter (\<lambda>(h, s). h \<noteq> g) (shares_of k d))"

definition fits_budget :: "string \<Rightarrow> FleetDB \<Rightarrow> bool" where
  "fits_budget k d \<longleftrightarrow> (\<forall>b. fmlookup (f_rate_budgets d) k = Some b \<longrightarrow> rates_fit (rb_Desired b) (held k d))"

definition shares_ok :: "FleetDB \<Rightarrow> bool" where
  "shares_ok d \<longleftrightarrow> (\<forall>k b. fmlookup (f_rate_budgets d) k = Some b \<longrightarrow> validate_rates (rb_Desired b) = None)
     \<and> (\<forall>g s. fmlookup (f_rate_shares d) g = Some s \<longrightarrow> validate_rates (rs_Desired s) = None \<and> validate_rates (rs_Outstanding s) = None
          \<and> rates_at_most (rs_Desired s) (rs_Outstanding s) \<and> g |\<in>| fmdom (f_grants d))"

lemma validate_rates_iff: "validate_rates r = None \<longleftrightarrow> validate_rate (ra_Upload r) \<and> validate_rate (ra_Download r)"
  by (simp add: validate_rates_def validate_def)

lemma decodeRates_iff: "decodeRates r = Inr r' \<longleftrightarrow> r' = r \<and> validate_rates r = None"
  by (auto simp: decodeRates_def split: option.splits)

lemma no_rates_valid [simp]: "validate_rates no_rates = None"
  by (simp add: validate_rates_iff no_rates_def validate_rate_def blocked_rate_def)

lemma join_rates_props:
  assumes "validate_rates a = None" "validate_rates b = None"
  shows "validate_rates (join_rates a b) = None" "rates_at_most a (join_rates a b)" "rates_at_most b (join_rates a b)"
  using assms envelope_valid envelope_bounds by (simp_all add: validate_rates_iff join_rates_def rates_at_most_def)

lemma rates_at_most_none: "rates_at_most a no_rates \<Longrightarrow> validate_rates a = None \<Longrightarrow> a = no_rates"
  using at_most_blocked by (simp add: rates_at_most_def no_rates_def validate_rates_iff)

lemma rates_fit_within:
  assumes "validate_rates bound = None" and "\<forall>r \<in> set rs. validate_rates r = None"
  shows "rates_fit bound rs \<longleftrightarrow> within (ra_Upload bound) (map ra_Upload rs) \<and> within (ra_Download bound) (map ra_Download rs)"
  using assms by (simp add: rates_fit_def fitsRates_iff validate_rates_iff)

lemma rates_fit_mset:
  assumes "validate_rates bound = None" and "\<forall>r \<in> set rs. validate_rates r = None" and "mset rs = mset ts"
  shows "rates_fit bound rs \<longleftrightarrow> rates_fit bound ts"
proof -
  have "\<forall>r \<in> set ts. validate_rates r = None" using assms(2) mset_eq_setD [OF assms(3)] by simp
  then show ?thesis using assms within_mset [of "map ra_Upload rs" "map ra_Upload ts"] within_mset [of "map ra_Download rs" "map ra_Download ts"]
    by (simp add: rates_fit_within)
qed

lemma rates_fit_mono:
  assumes "rates_fit bound ts" and "validate_rates bound = None" and "\<forall>r \<in> set rs \<union> set ts. validate_rates r = None" and "list_all2 rates_at_most rs ts"
  shows "rates_fit bound rs"
proof -
  have "list_all2 at_most (map ra_Upload rs) (map ra_Upload ts)" "list_all2 at_most (map ra_Download rs) (map ra_Download ts)"
    using assms(4) by (auto simp: list_all2_conv_all_nth rates_at_most_def)
  then show ?thesis using assms by (auto simp: rates_fit_within intro: within_mono)
qed

lemma entries_by_key_set: "(k, v) \<in> set (entries_by_key m) \<longleftrightarrow> fmlookup m k = Some v" "distinct (map fst (entries_by_key m))"
  by (auto simp: entries_by_key_def comp_def fmlookup_dom_iff image_iff sorted_list_of_fset.rep_eq)

lemma shares_of_set: "set (shares_of k d) = {(g, s). fmlookup (f_rate_shares d) g = Some s \<and> rs_BudgetID s = k}"
  by (auto simp: shares_of_def entries_by_key_set)

lemma shares_of_distinct: "distinct (map fst (shares_of k d))"
proof -
  have "distinct (map fst (filter P (entries_by_key m)))" for P and m :: "(string, FleetRateShare) fmap" by (intro distinct_map_filter entries_by_key_set)
  then show ?thesis by (simp add: shares_of_def)
qed

lemma share_loop_spec:
  assumes "share_loop q xs own others = Inr (own', others')" and "distinct (map fst xs)"
  shows "others' = others @ map (\<lambda>(g, s). rs_Outstanding s) (filter (\<lambda>(g, s). g \<noteq> rr_GrantID q) xs)
    \<and> own' = (case map_of xs (rr_GrantID q) of None \<Rightarrow> own | Some s \<Rightarrow> Some (s, rs_Outstanding s))"
  using assms
proof (induction xs arbitrary: own others)
  case (Cons x xs)
  obtain g s where x: "x = (g, s)" by force
  have d: "decodeRates (rs_Outstanding s) = Inr (rs_Outstanding s)" using Cons.prems(1) x by (auto simp: decodeRates_iff split: sum.splits)
  show ?case
  proof (cases "g = rr_GrantID q")
    case True
    then have "share_loop q xs (Some (s, rs_Outstanding s)) others = Inr (own', others')" using Cons.prems(1) x d by (auto split: if_splits)
    from Cons.IH [OF this] have IH: "others' = others @ map (\<lambda>(g, s). rs_Outstanding s) (filter (\<lambda>(g, s). g \<noteq> rr_GrantID q) xs)"
      "own' = (case map_of xs (rr_GrantID q) of None \<Rightarrow> Some (s, rs_Outstanding s) | Some s \<Rightarrow> Some (s, rs_Outstanding s))" using Cons.prems(2) by auto
    moreover have "map_of xs (rr_GrantID q) = None" using Cons.prems(2) x True by (auto simp: map_of_eq_None_iff)
    ultimately show ?thesis using x True by simp
  next
    case False
    then have "share_loop q xs own (others @ [rs_Outstanding s]) = Inr (own', others')" using Cons.prems(1) x d by auto
    from Cons.IH [OF this] show ?thesis using Cons.prems(2) x False by simp
  qed
qed simp

lemma map_of_shares: "map_of (shares_of k d) g = (case fmlookup (f_rate_shares d) g of None \<Rightarrow> None | Some s \<Rightarrow> if rs_BudgetID s = k then Some s else None)"
proof -
  have "map_of (shares_of k d) g = Some s \<longleftrightarrow> fmlookup (f_rate_shares d) g = Some s \<and> rs_BudgetID s = k" for s
    by (simp add: map_of_eq_Some_iff [OF shares_of_distinct] shares_of_set)
  note some = this
  show ?thesis
  proof (cases "map_of (shares_of k d) g")
    case None
    then have "\<not> (fmlookup (f_rate_shares d) g = Some s \<and> rs_BudgetID s = k)" for s using some [of s] by simp
    then show ?thesis using None by (cases "fmlookup (f_rate_shares d) g") auto
  next
    case (Some s)
    then show ?thesis using some [of s] by simp
  qed
qed

definition share_row :: "string \<Rightarrow> FleetDB \<Rightarrow> Rates" where
  "share_row g d = (case fmlookup (f_rate_shares d) g of None \<Rightarrow> no_rates | Some s \<Rightarrow> rs_Outstanding s)"

lemma share_guard_spec:
  assumes "share_guard now_ms q x term budget previous others d = Inr r" and m: "managedAuthority (fg_ClientID x) (fg_TermID x) False d = Inr term"
  shows "r = join_rates previous (rr_Desired q) \<and> validate_rates (rb_Desired budget) = None
    \<and> (r \<noteq> previous \<longrightarrow> rates_fit (rb_Desired budget) (others @ [r]) \<and> authorized_now now_ms x d)"
proof -
  let ?r = "join_rates previous (rr_Desired q)"
  have r: "r = ?r" "validate_rates (rb_Desired budget) = None" "?r \<noteq> previous \<Longrightarrow> rates_fit (rb_Desired budget) (others @ [?r])"
    using assms(1) unfolding share_guard_def Let_def join_rates_def [symmetric] by (auto simp: decodeRates_iff split: option.splits sum.splits if_splits)
  have "authorized_now now_ms x d" if change: "?r \<noteq> previous"
    unfolding authorized_now_def
  proof (intro allI impI)
    fix c
    assume c: "fmlookup (f_clients d) (fg_ClientID x) = Some c"
    have "term \<noteq> None" using m c by (cases "term") (auto simp: managedAuthority_def split: option.splits if_splits)
    then obtain t where t: "term = Some t" by blast
    then obtain y where y: "managedAuthority (fg_ClientID x) (fg_TermID x) True d = Inr y" "tm_ExpiresUnixMilli t = 0 \<or> now_ms < tm_ExpiresUnixMilli t"
      using assms(1) change unfolding share_guard_def Let_def join_rates_def [symmetric] by (auto split: option.splits sum.splits if_splits)
    have "fmlookup (f_terms d) (fg_TermID x) = Some t" using m t c by (auto simp: managedAuthority_def split: option.splits if_splits)
    then show "cl_CurrentTermID c = Some (fg_TermID x) \<and> (\<exists>t. fmlookup (f_terms d) (fg_TermID x) = Some t \<and> tm_ClientID t = fg_ClientID x \<and> tm_State t = ''active''
          \<and> (tm_ExpiresUnixMilli t = 0 \<or> now_ms < tm_ExpiresUnixMilli t))"
      using managed_active [OF y(1) c] y(2) by auto
  qed
  then show ?thesis using r by auto
qed

lemma share_tx_cases:
  assumes "share_tx dig now_ms q d = Inr (s, d')"
  obtains "d' = d"
    | x b ops where "fmlookup (f_grants d) (rr_GrantID q) = Some x" "fmlookup (f_rate_budgets d) (rr_BudgetID q) = Some b"
      "\<And>row. fmlookup (f_rate_shares d) (rr_GrantID q) = Some row \<Longrightarrow> rs_BudgetID row = rr_BudgetID q"
      "rs_BudgetID s = rr_BudgetID q" "rs_Desired s = rr_Desired q" "rs_Outstanding s = join_rates (share_row (rr_GrantID q) d) (rr_Desired q)"
      "rs_Outstanding s \<noteq> share_row (rr_GrantID q) d \<Longrightarrow>
         rates_fit (rb_Desired b) (held_by_others (rr_GrantID q) (rr_BudgetID q) d @ [rs_Outstanding s]) \<and> authorized_now now_ms x d"
      "d' = d\<lparr>f_rate_shares := fmupd (rr_GrantID q) s (f_rate_shares d), f_operations := ops\<rparr>"
proof (cases "fmlookup (f_operations d) (rr_OperationID q)")
  case (Some op)
  then have "d' = d" using assms by (auto simp: share_tx_def split: option.splits sum.splits)
  then show ?thesis by (rule that(1))
next
  case None
  have free: "lockAuthority d = None" "lockNode (rr_NodeID q) (rr_InstallationID q) d = None" using assms None by (auto simp: share_tx_def split: option.splits)
  obtain x trm b where l: "fmlookup (f_grants d) (rr_GrantID q) = Some x" "managedAuthority (fg_ClientID x) (fg_TermID x) False d = Inr trm"
      "fmlookup (f_rate_budgets d) (rr_BudgetID q) = Some b"
    using assms None free by (auto simp: share_tx_def First_def split: option.splits sum.splits)
  note body = assms [unfolded share_tx_def free None First_def l option.case sum.case]
  then obtain own others where lp: "share_loop q (shares_of (rr_BudgetID q) d) None [] = Inr (own, others)"
    by (auto split: if_splits sum.splits)
  then obtain r where g: "share_guard now_ms q x trm b (case own of None \<Rightarrow> no_rates | Some (s, r) \<Rightarrow> r) others d = Inr r"
    using body by (auto split: if_splits sum.splits)
  let ?row = "fmlookup (f_rate_shares d) (rr_GrantID q)"
  have scope: "\<And>row. ?row = Some row \<Longrightarrow> rs_BudgetID row = rr_BudgetID q"
    using body unfolding lp g sum.case prod.case Let_def by (auto split: if_splits)
  have lo: "others = held_by_others (rr_GrantID q) (rr_BudgetID q) d" "own = (case ?row of None \<Rightarrow> None | Some s \<Rightarrow> Some (s, rs_Outstanding s))"
    using share_loop_spec [OF lp shares_of_distinct] scope by (auto simp: map_of_shares held_by_others_def split: option.splits)
  have prev: "(case own of None \<Rightarrow> no_rates | Some (s, r) \<Rightarrow> r) = share_row (rr_GrantID q) d" by (simp add: lo(2) share_row_def split: option.splits)
  note gs = share_guard_spec [OF g l(2), unfolded prev lo(1)]
  have s: "rs_BudgetID s = rr_BudgetID q" "rs_Desired s = rr_Desired q" "rs_Outstanding s = r"
      "d' = d\<lparr>f_rate_shares := fmupd (rr_GrantID q) s (f_rate_shares d), f_operations := fmupd (rr_OperationID q) \<lparr>op_Digest = dig q, op_Result = OpShare s\<rparr> (f_operations d)\<rparr>"
    using body unfolding lp g sum.case prod.case Let_def by (cases ?row; auto simp: lo(2) split: if_splits)+
  show ?thesis by (rule that(2) [OF l(1,3) scope s(1,2) _ _ s(4)]) (use gs s(3) in auto)
qed

lemma filter_key:
  assumes "distinct (map fst xs)"
  shows "filter (\<lambda>(h, s). h = g) xs = (case map_of xs g of None \<Rightarrow> [] | Some s \<Rightarrow> [(g, s)])"
  using assms
proof (induction xs)
  case (Cons x xs)
  obtain h s where x: "x = (h, s)" by force
  show ?case
  proof (cases "h = g")
    case True
    then have "map_of xs g = None" using Cons.prems x by (simp add: map_of_eq_None_iff)
    then show ?thesis using Cons x True by simp
  next
    case False
    then show ?thesis using Cons x by simp
  qed
qed simp

lemma held_split:
  "mset (held k d) = mset (held_by_others g k d) + (case map_of (shares_of k d) g of None \<Rightarrow> {#} | Some s \<Rightarrow> {#rs_Outstanding s#})"
proof -
  let ?f = "\<lambda>(h, s). rs_Outstanding s"
  have "mset (shares_of k d) = mset (filter (\<lambda>(h, s). h \<noteq> g) (shares_of k d)) + mset (filter (\<lambda>(h, s). h = g) (shares_of k d))"
    using multiset_partition [of "mset (shares_of k d)" "\<lambda>(h, s). h \<noteq> g"] by (simp add: case_prod_beta)
  then have "mset (map ?f (shares_of k d)) = mset (map ?f (filter (\<lambda>(h, s). h \<noteq> g) (shares_of k d))) + mset (map ?f (filter (\<lambda>(h, s). h = g) (shares_of k d)))"
    by (simp flip: image_mset_union)
  then show ?thesis unfolding held_def held_by_others_def filter_key [OF shares_of_distinct] by (simp split: option.splits)
qed

lemma held_others_upd:
  assumes "f_rate_shares d' = fmupd g s (f_rate_shares d)"
  shows "mset (held_by_others g k d') = mset (held_by_others g k d)"
proof -
  let ?P = "\<lambda>(h, s). h \<noteq> g"
  have dist: "distinct (filter ?P (shares_of k e))" for e :: FleetDB
    using shares_of_distinct [of k e] by (intro distinct_filter) (simp add: distinct_map)
  have "set (filter ?P (shares_of k d')) = set (filter ?P (shares_of k d))" by (auto simp: shares_of_set assms)
  then have "mset (filter ?P (shares_of k d')) = mset (filter ?P (shares_of k d))" using set_eq_iff_mset_eq_distinct [OF dist dist] by blast
  then show ?thesis by (simp add: held_by_others_def)
qed

lemma held_upd:
  assumes upd: "f_rate_shares d' = fmupd g s (f_rate_shares d)" and same: "\<And>row. fmlookup (f_rate_shares d) g = Some row \<Longrightarrow> rs_BudgetID row = rs_BudgetID s"
  shows "mset (held k d') = (if k = rs_BudgetID s then mset (held_by_others g k d @ [rs_Outstanding s]) else mset (held k d))"
proof -
  have "map_of (shares_of k d') g = (if k = rs_BudgetID s then Some s else None)" by (simp add: map_of_shares upd)
  moreover have "k \<noteq> rs_BudgetID s \<Longrightarrow> map_of (shares_of k d) g = None" using same by (auto simp: map_of_shares split: option.splits)
  ultimately show ?thesis using held_split [of k d' g] held_split [of k d g] held_others_upd [OF upd, of k] by auto
qed

lemma held_valid: "shares_ok d \<Longrightarrow> r \<in> set (held k d) \<Longrightarrow> validate_rates r = None"
  by (auto simp: held_def shares_of_set shares_ok_def)

lemma within_blocked: "within bound (vs @ [blocked_rate]) = within bound vs"
  by (auto simp: within_def blocked_rate_def)

lemma rates_fit_none:
  assumes "validate_rates bound = None" and "\<forall>r \<in> set rs. validate_rates r = None"
  shows "rates_fit bound (rs @ [no_rates]) = rates_fit bound rs"
  using assms by (simp add: rates_fit_within within_blocked) (simp add: no_rates_def within_blocked)

text \<open>A request that is granted keeps the shares in order, and a budget that was not oversubscribed stays so.\<close>

lemma share_tx_ok:
  assumes tx: "share_tx dig now_ms q d = Inr (s, d')" and ok: "shares_ok d" and v: "validate_rates (rr_Desired q) = None"
  shows "shares_ok d' \<and> (\<forall>k. fits_budget k d \<longrightarrow> fits_budget k d')"
  using tx
proof (cases rule: share_tx_cases)
  case 1
  then show ?thesis using ok by simp
next
  case (2 x b ops)
  let ?g = "rr_GrantID q" and ?k = "rr_BudgetID q"
  have prev: "validate_rates (share_row ?g d) = None" using ok by (auto simp: share_row_def shares_ok_def split: option.splits)
  note j = join_rates_props [OF prev v]
  have sh: "f_rate_shares d' = fmupd ?g s (f_rate_shares d)" "f_rate_budgets d' = f_rate_budgets d" "f_grants d' = f_grants d" using 2(8) by simp_all
  have ok': "shares_ok d'" using ok 2(1,5,6) j v unfolding shares_ok_def sh by (auto simp: fmdomI split: if_splits)
  have "fits_budget k d'" if fit: "fits_budget k d" for k
  proof (cases "k = ?k")
    case False
    then have "mset (held k d') = mset (held k d)" using held_upd [OF sh(1), of k] 2(3,4) by auto
    then show ?thesis using fit ok sh(2) rates_fit_mset held_valid [OF ok] unfolding fits_budget_def shares_ok_def by metis
  next
    case True
    have m: "mset (held k d') = mset (held_by_others ?g k d @ [rs_Outstanding s])" using held_upd [OF sh(1), of k] 2(3,4) True by auto
    have bv: "validate_rates (rb_Desired b) = None" using ok 2(2) by (auto simp: shares_ok_def)
    have fit_b: "rates_fit (rb_Desired b) (held k d)" using fit 2(2) True by (simp add: fits_budget_def)
    have "rates_fit (rb_Desired b) (held_by_others ?g k d @ [rs_Outstanding s])"
    proof (cases "rs_Outstanding s = share_row ?g d")
      case False
      then show ?thesis using 2(7) True by simp
    next
      case same: True
      show ?thesis
      proof (cases "fmlookup (f_rate_shares d) ?g")
        case None
        then have "mset (held_by_others ?g k d) = mset (held k d)" using held_split [of k d ?g] by (simp add: map_of_shares)
        then have e: "mset (held_by_others ?g k d @ [no_rates]) = mset (held k d @ [no_rates])" by simp
        have "rates_fit (rb_Desired b) (held k d @ [no_rates])" using rates_fit_none [OF bv, of "held k d"] fit_b held_valid [OF ok] by blast
        then have "rates_fit (rb_Desired b) (held_by_others ?g k d @ [no_rates])"
          using rates_fit_mset [OF bv _ e [symmetric]] held_valid [OF ok] by auto
        then show ?thesis using same None by (simp add: share_row_def)
      next
        case (Some row)
        then have "mset (held_by_others ?g k d @ [rs_Outstanding s]) = mset (held k d)"
          using held_split [of k d ?g] 2(3) True same by (simp add: map_of_shares share_row_def)
        then show ?thesis using rates_fit_mset [OF bv, of "held k d"] fit_b held_valid [OF ok] by metis
      qed
    qed
    then have "rates_fit (rb_Desired b) (held k d')" using rates_fit_mset [OF bv _ m] held_valid [OF ok'] by blast
    then show ?thesis using 2(2) True sh(2) by (simp add: fits_budget_def)
  qed
  then show ?thesis using ok' by blast
qed

lemma confirm_tx_cases:
  assumes "confirm_tx p g revision applied d = Inr (r, d')"
  obtains s where "fmlookup (f_rate_shares d) g = Some s" "rs_Desired s = applied" "rs_Revision s = uint revision"
      "d' = d\<lparr>f_rate_shares := fmupd g (s\<lparr>rs_AppliedRevision := uint revision, rs_Outstanding := applied\<rparr>) (f_rate_shares d)\<rparr>"
  using assms by (auto simp: confirm_tx_def First_def decodeRates_iff split: option.splits sum.splits if_splits)

text \<open>A share that comes to hold no more than before.\<close>

lemma share_lowered:
  assumes ok: "shares_ok d" and r: "fmlookup (f_rate_shares d) g = Some r" and sh: "f_rate_shares d' = fmupd g s (f_rate_shares d)" "f_rate_budgets d' = f_rate_budgets d" "f_grants d' = f_grants d"
    and s: "rs_BudgetID s = rs_BudgetID r" "validate_rates (rs_Desired s) = None" "validate_rates (rs_Outstanding s) = None"
      "rates_at_most (rs_Desired s) (rs_Outstanding s)" "rates_at_most (rs_Outstanding s) (rs_Outstanding r)"
  shows "shares_ok d' \<and> (\<forall>k. fits_budget k d \<longrightarrow> fits_budget k d')"
proof -
  have rv: "validate_rates (rs_Outstanding r) = None" using ok r by (auto simp: shares_ok_def)
  have ok': "shares_ok d'" using ok r s unfolding shares_ok_def sh by (auto split: if_splits)
  have "fits_budget k d'" if fit: "fits_budget k d" for k
    unfolding fits_budget_def sh(2)
  proof (intro allI impI)
    fix b
    assume b: "fmlookup (f_rate_budgets d) k = Some b"
    have bv: "validate_rates (rb_Desired b) = None" using ok b by (auto simp: shares_ok_def)
    have fb: "rates_fit (rb_Desired b) (held k d)" using fit b by (simp add: fits_budget_def)
    have m: "mset (held k d') = (if k = rs_BudgetID s then mset (held_by_others g k d @ [rs_Outstanding s]) else mset (held k d))"
      using held_upd [OF sh(1), of k] r s(1) by simp
    show "rates_fit (rb_Desired b) (held k d')"
    proof (cases "k = rs_BudgetID s")
      case False
      then show ?thesis using m fb rates_fit_mset [OF bv, of "held k d"] held_valid [OF ok] by metis
    next
      case True
      have e: "mset (held k d) = mset (held_by_others g k d @ [rs_Outstanding r])" using held_split [of k d g] r s(1) True by (simp add: map_of_shares)
      have ov: "x \<in> set (held_by_others g k d) \<Longrightarrow> validate_rates x = None" for x using held_valid [OF ok, of x k] mset_eq_setD [OF e] by auto
      have "rates_fit (rb_Desired b) (held_by_others g k d @ [rs_Outstanding r])" using rates_fit_mset [OF bv _ e] held_valid [OF ok] fb by blast
      then have "rates_fit (rb_Desired b) (held_by_others g k d @ [rs_Outstanding s])"
        by (rule rates_fit_mono [OF _ bv]) (use ov s rv in \<open>auto intro!: list_all2_appendI list_all2_refl simp: rates_at_most_def\<close>)
      then show ?thesis using m True rates_fit_mset [OF bv, of "held k d'"] held_valid [OF ok'] by metis
    qed
  qed
  then show ?thesis using ok' by blast
qed

lemma confirm_tx_ok:
  assumes tx: "confirm_tx p g revision applied d = Inr (r, d')" and ok: "shares_ok d"
  shows "shares_ok d' \<and> (\<forall>k. fits_budget k d \<longrightarrow> fits_budget k d')"
  using tx
proof (cases rule: confirm_tx_cases)
  case (1 s)
  have "validate_rates applied = None" "rates_at_most applied (rs_Outstanding s)" using ok 1(1,2) by (auto simp: shares_ok_def)
  then show ?thesis by (intro share_lowered [OF ok 1(1), where s = "s\<lparr>rs_AppliedRevision := uint revision, rs_Outstanding := applied\<rparr>"]) (use 1 in \<open>auto simp: rates_at_most_def\<close>)
qed

lemma set_rate_budget_tx_cases:
  assumes "set_rate_budget_tx u k client t revision desired d = Inr (r, d')"
  obtains b m where "validate_rates desired = None" "rb_ClientID b = client" "rb_TermID b = t" "rb_Desired b = desired"
      "d' = d\<lparr>f_rate_budgets := fmupd k b m\<rparr>" "\<And>j. j \<noteq> k \<Longrightarrow> fmlookup m j = fmlookup (f_rate_budgets d) j"
proof -
  let ?d = "rate_insert k \<lparr>rb_ClientID = client, rb_TermID = t, rb_Revision = uint revision, rb_Desired = desired\<rparr> d"
  obtain b where b: "validate_rates desired = None" "rb_ClientID b = client"
      "d' = ?d\<lparr>f_rate_budgets := fmupd k (b\<lparr>rb_TermID := t, rb_Revision := uint revision, rb_Desired := desired\<rparr>) (f_rate_budgets ?d)\<rparr>"
    using assms unfolding set_rate_budget_tx_def Let_def by (auto split: option.splits sum.splits if_splits)
  show ?thesis
    by (rule that [of "b\<lparr>rb_TermID := t, rb_Revision := uint revision, rb_Desired := desired\<rparr>" "f_rate_budgets ?d"]) (use b in \<open>auto simp: rate_insert_def\<close>)
qed

definition same_bound :: "string \<Rightarrow> FleetDB \<Rightarrow> FleetDB \<Rightarrow> bool" where
  "same_bound k d d' \<longleftrightarrow> map_option rb_Desired (fmlookup (f_rate_budgets d') k) = map_option rb_Desired (fmlookup (f_rate_budgets d) k)"

lemma fits_cong:
  assumes "f_rate_shares d' = f_rate_shares d" and "same_bound k d d'"
  shows "fits_budget k d' = fits_budget k d"
proof -
  have "held k d' = held k d" using assms(1) by (simp add: held_def shares_of_def)
  then show ?thesis using assms(2) by (cases "fmlookup (f_rate_budgets d) k"; cases "fmlookup (f_rate_budgets d') k") (auto simp: fits_budget_def same_bound_def)
qed

lemma set_rate_budget_tx_ok:
  assumes tx: "set_rate_budget_tx u k client t revision desired d = Inr (r, d')" and ok: "shares_ok d"
  shows "shares_ok d' \<and> (\<forall>j. same_bound j d d' \<longrightarrow> fits_budget j d' = fits_budget j d)"
  using tx
proof (cases rule: set_rate_budget_tx_cases)
  case (1 b m)
  have "shares_ok d'" using ok 1 unfolding shares_ok_def by (auto split: if_splits)
  then show ?thesis using fits_cong [of d' d] 1(5) by simp
qed

lemma shares_ok_cong:
  assumes "f_rate_shares d' = f_rate_shares d" and "f_rate_budgets d' = f_rate_budgets d" and "fmdom (f_grants d) |\<subseteq>| fmdom (f_grants d')"
  shows "shares_ok d \<Longrightarrow> shares_ok d'"
  using assms by (auto simp: shares_ok_def)

text \<open>What \<open>RateBudgetPending\<close> answers.\<close>

lemma outstanding_rates_held:
  assumes "\<forall>(g, s) \<in> set xs. validate_rates (rs_Outstanding s) = None"
  shows "outstanding_rates xs = Inr (map (\<lambda>(g, s). rs_Outstanding s) xs)"
  using assms by (induction xs) (auto simp: decodeRates_def)

lemma RateBudgetPending_iff:
  assumes "shares_ok d" "ValidID u k" "fmlookup (f_rate_budgets d) k = Some b"
  shows "RateBudgetPending u k d = Inr (\<not> fits_budget k d)"
proof -
  have "outstanding_rates (shares_of k d) = Inr (held k d)" unfolding held_def
    by (rule outstanding_rates_held) (use assms(1) in \<open>auto simp: shares_of_set shares_ok_def\<close>)
  moreover have "decodeRates (rb_Desired b) = Inr (rb_Desired b)" using assms(1,3) by (auto simp: decodeRates_iff shares_ok_def)
  ultimately show ?thesis using assms(2,3) by (simp add: RateBudgetPending_def First_def fits_budget_def)
qed

section \<open>The running totals of the allocator\<close>

text \<open>The two words and the carry of \<open>rateTotals\<close> hold the sums without loss.\<close>

abbreviation sum_bits :: "Rate list \<Rightarrow> nat" where "sum_bits vs \<equiv> (\<Sum>v \<leftarrow> vs. unat (BitsPerSecond v))"
abbreviation sum_burst :: "Rate list \<Rightarrow> int" where "sum_burst vs \<equiv> (\<Sum>v \<leftarrow> vs. BurstBytes v)"
abbreviation unlimited_in :: "Rate list \<Rightarrow> int" where "unlimited_in vs \<equiv> (\<Sum>v \<leftarrow> vs. if r_Mode v = Unlimited then 1 else 0)"

definition totals_hold :: "rateTotals \<Rightarrow> nat \<Rightarrow> int \<Rightarrow> int \<Rightarrow> bool" where
  "totals_hold s b w n \<longleftrightarrow> unat (rt_bits s) + 2 ^ 64 * unat (rt_high s) = b \<and> uint (rt_burst s) = w \<and> rt_unlimited s = n"

lemma carry_add:
  assumes "unat (h :: u64) < 2 ^ 64 - 1"
  shows "unat ((x :: u64) + y) + 2 ^ 64 * unat (h + (if x + y < x then 1 else 0)) = unat x + unat y + 2 ^ 64 * unat h"
proof -
  have x: "unat x < 2 ^ 64" "unat y < 2 ^ 64" using unsigned_less [where w = x, where 'a = nat] unsigned_less [where w = y, where 'a = nat] by simp_all
  have h: "unat (h + 1) = unat h + 1" using assms by (simp add: unat_word_ariths)
  show ?thesis
  proof (cases "unat x + unat y < 2 ^ 64")
    case True
    then have s: "unat (x + y) = unat x + unat y" by (simp add: unat_word_ariths)
    then have "\<not> x + y < x" by (simp add: word_less_nat_alt)
    then show ?thesis using s by simp
  next
    case False
    then have s: "unat (x + y) = unat x + unat y - 2 ^ 64" using x by (simp add: unat_word_ariths mod_if)
    then have "x + y < x" using False x by (simp add: word_less_nat_alt)
    then show ?thesis using s h False by simp
  qed
qed

lemma borrow_sub:
  assumes "unat (y :: u64) \<le> unat (x :: u64) + 2 ^ 64 * unat (h :: u64)"
  shows "unat (x - y) + 2 ^ 64 * unat (h - (if x < y then 1 else 0)) + unat y = unat x + 2 ^ 64 * unat h"
proof (cases "x < y")
  case False
  then have "unat (x - y) = unat x - unat y" "unat y \<le> unat x" using unat_sub [of y x] by (simp_all add: word_le_nat_alt not_less)
  then show ?thesis using False by simp
next
  case True
  then have lt: "unat x < unat y" by (simp add: word_less_nat_alt)
  then have "0 < unat h" using assms by (cases "unat h = 0") simp_all
  then have h: "unat (h - 1) = unat h - 1" by (simp add: unat_minus_one unat_gt_0)
  have "unat (x - y) = unat x + 2 ^ 64 - unat y" using lt unat_sub_if_size [of x y] by (simp add: word_size not_le)
  moreover have "unat y < 2 ^ 64" using unsigned_less [where w = y, where 'a = nat] by simp
  ultimately show ?thesis using h \<open>0 < unat h\<close> lt True by (cases "unat h") simp_all
qed

lemma totals_add:
  assumes t: "totals_hold s b w n" and v: "validate_rate v" and b: "b < 2 ^ 100" and w: "0 \<le> w" "w < 2 ^ 60"
  shows "totals_hold (add_total v s) (b + unat (BitsPerSecond v)) (w + BurstBytes v) (n + (if r_Mode v = Unlimited then 1 else 0))"
proof (cases "r_Mode v = Limited")
  case False
  then show ?thesis using t valid_rate(4,6) [OF v] by (auto simp: totals_hold_def add_total_def)
next
  case True
  have "2 ^ 64 * unat (rt_high s) < 2 ^ 100" using t b unfolding totals_hold_def by linarith
  then have "unat (rt_high s) < 2 ^ 64 - 1" by simp
  note c = carry_add [OF this, of "rt_bits s" "BitsPerSecond v"]
  have u: "uint (word_of_int (BurstBytes v) :: u64) = BurstBytes v" using valid_rate(1,2) [OF v] by (intro burst_word) simp_all
  have "uint (rt_burst s + word_of_int (BurstBytes v)) = uint (rt_burst s) + BurstBytes v"
    using t w u valid_rate(1,2) [OF v] by (simp add: uint_word_ariths totals_hold_def mod_pos_pos_trivial)
  then show ?thesis using t c True by (auto simp: totals_hold_def add_total_def)
qed

lemma totals_remove:
  assumes t: "totals_hold s b w n" and v: "validate_rate v" and b: "unat (BitsPerSecond v) \<le> b" and w: "BurstBytes v \<le> w"
  shows "totals_hold (remove_total v s) (b - unat (BitsPerSecond v)) (w - BurstBytes v) (n - (if r_Mode v = Unlimited then 1 else 0))"
proof (cases "r_Mode v = Limited")
  case False
  then show ?thesis using t valid_rate(4,6) [OF v] by (auto simp: totals_hold_def remove_total_def)
next
  case True
  have "unat (BitsPerSecond v) \<le> unat (rt_bits s) + 2 ^ 64 * unat (rt_high s)" using t b by (simp add: totals_hold_def)
  note c = borrow_sub [OF this]
  have u: "uint (word_of_int (BurstBytes v) :: u64) = BurstBytes v" using valid_rate(1,2) [OF v] by (intro burst_word) simp_all
  have "uint (rt_burst s - word_of_int (BurstBytes v)) = uint (rt_burst s) - BurstBytes v"
    using t w u valid_rate(1,2) [OF v] uint_lt2p [of "rt_burst s"] by (simp add: uint_word_ariths totals_hold_def mod_pos_pos_trivial)
  then show ?thesis using t c True by (auto simp: totals_hold_def remove_total_def)
qed

lemma totals_fit:
  assumes t: "totals_hold s (sum_bits vs) (sum_burst vs) (unlimited_in vs)" and b: "validate_rate bound"
  shows "fits_total s bound \<longleftrightarrow> within bound vs"
proof -
  have n: "unlimited_in vs = 0 \<longleftrightarrow> (\<forall>v \<in> set vs. r_Mode v \<noteq> Unlimited)"
  proof (induction vs)
    case (Cons v vs)
    have "0 \<le> unlimited_in vs" by (rule sum_list_nonneg) auto
    then show ?case using Cons by auto
  qed simp
  have u: "uint (word_of_int (BurstBytes bound) :: u64) = BurstBytes bound" using valid_rate(1,2) [OF b] by (intro burst_word) simp_all
  have "rt_burst s \<le> word_of_int (BurstBytes bound) \<longleftrightarrow> sum_burst vs \<le> BurstBytes bound" using t u by (simp add: word_le_def totals_hold_def)
  moreover have "rt_high s = 0 \<and> rt_bits s \<le> BitsPerSecond bound \<longleftrightarrow> sum_bits vs \<le> unat (BitsPerSecond bound)"
  proof (cases "rt_high s = 0")
    case True
    then show ?thesis using t by (simp add: totals_hold_def word_le_nat_alt)
  next
    case False
    then have "0 < unat (rt_high s)" by (simp add: unat_gt_0)
    then have "2 ^ 64 \<le> sum_bits vs" using t by (cases "unat (rt_high s)") (auto simp: totals_hold_def)
    moreover have "unat (BitsPerSecond bound) < 2 ^ 64" using unsigned_less [where w = "BitsPerSecond bound", where 'a = nat] by simp
    ultimately show ?thesis using False by simp
  qed
  ultimately show ?thesis using t n by (auto simp: fits_total_def within_def totals_hold_def)
qed

lemma sum_rates_bound:
  assumes "\<forall>v \<in> set vs. validate_rate v" and "length vs \<le> 32768"
  shows "sum_bits vs \<le> 2 ^ 68" "0 \<le> sum_burst vs" "sum_burst vs \<le> 2 ^ 35"
proof -
  have b: "sum_bits vs \<le> length vs * 2 ^ 53" using assms(1) valid_rate(3) by (induction vs) fastforce+
  also have "\<dots> \<le> 32768 * 2 ^ 53" using assms(2) by (intro mult_right_mono) simp_all
  finally show "sum_bits vs \<le> 2 ^ 68" by simp
  show "0 \<le> sum_burst vs" using assms(1) valid_rate(1) by (intro sum_list_nonneg) auto
  have "sum_burst vs \<le> int (length vs) * 2 ^ 20"
  proof -
    have "sum_burst vs \<le> (\<Sum>v \<leftarrow> vs. 2 ^ 20)" using assms(1) valid_rate(2) by (intro sum_list_mono) auto
    then show ?thesis by (simp add: sum_list_triv)
  qed
  also have "\<dots> \<le> 32768 * 2 ^ 20" using assms(2) by (intro mult_right_mono) simp_all
  finally show "sum_burst vs \<le> 2 ^ 35" by simp
qed

lemma totals_fold:
  assumes "\<forall>v \<in> set (us @ vs). validate_rate v" and "length (us @ vs) \<le> 32768" and "totals_hold s (sum_bits us) (sum_burst us) (unlimited_in us)"
  shows "totals_hold (fold add_total vs s) (sum_bits (us @ vs)) (sum_burst (us @ vs)) (unlimited_in (us @ vs))"
  using assms
proof (induction vs arbitrary: us s)
  case (Cons v vs)
  have us: "\<forall>v \<in> set us. validate_rate v" "length us \<le> 32768" "validate_rate v" using Cons.prems by auto
  have "totals_hold (add_total v s) (sum_bits (us @ [v])) (sum_burst (us @ [v])) (unlimited_in (us @ [v]))"
    using totals_add [OF Cons.prems(3) us(3)] sum_rates_bound [OF us(1,2)] by simp
  then show ?case using Cons.IH [of "us @ [v]" "add_total v s"] Cons.prems by simp
qed simp

lemma lower_props:
  assumes "validate_rate a" "validate_rate b"
  shows "validate_rate (lowerRate a b)" "at_most (lowerRate a b) a" "at_most (lowerRate a b) b" "envelope a (lowerRate a b) = a"
proof -
  note va = valid_rate(1,4,6) [OF assms(1)] and vb = valid_rate(1,4,6) [OF assms(2)]
  show "validate_rate (lowerRate a b)" using assms by (auto simp: validate_rate_def lowerRate_def blocked_rate_def min_def split: if_splits)
  show "at_most (lowerRate a b) a" "at_most (lowerRate a b) b"
    using va vb by (auto simp: lowerRate_def at_most_def blocked_rate_def min_def word_le_nat_alt)
  show "envelope a (lowerRate a b) = a"
    using va vb by (cases a; cases b) (auto simp: lowerRate_def envelope_def blocked_rate_def max_def min_def)
qed

lemma envelope_self: "validate_rate a \<Longrightarrow> envelope a a = a"
  using valid_rate(4,6) [of a] by (cases a) (auto simp: envelope_def)

lemma envelope_absorb:
  assumes "validate_rate a" "validate_rate b" "at_most a b"
  shows "envelope a b = b"
proof (cases "r_Mode b = Blocked")
  case True
  then have "b = blocked_rate" using valid_rate(4) [OF assms(2)] by (cases b) (simp add: blocked_rate_def)
  then have "a = blocked_rate" using at_most_blocked assms(1,3) by simp
  then show ?thesis using \<open>b = blocked_rate\<close> by (simp add: envelope_def blocked_rate_def)
next
  case False
  then show ?thesis using assms(3) valid_rate(4,6) [OF assms(1)] valid_rate(4,6) [OF assms(2)]
    by (cases a; cases b) (auto simp: envelope_def at_most_def max_def word_le_nat_alt)
qed

lemma totals_replace:
  assumes t: "totals_hold s (sum_bits (us @ c # vs)) (sum_burst (us @ c # vs)) (unlimited_in (us @ c # vs))"
    and v: "\<forall>v \<in> set (us @ c # vs). validate_rate v" "validate_rate e" "length (us @ c # vs) \<le> 32768"
  shows "totals_hold (add_total e (remove_total c s)) (sum_bits (us @ e # vs)) (sum_burst (us @ e # vs)) (unlimited_in (us @ e # vs))"
proof -
  have c: "validate_rate c" and uv: "\<forall>v \<in> set (us @ vs). validate_rate v" "length (us @ vs) \<le> 32768" using v by auto
  note sb = sum_rates_bound [OF uv]
  have "totals_hold (remove_total c s) (sum_bits (us @ vs)) (sum_burst (us @ vs)) (unlimited_in (us @ vs))"
    using totals_remove [OF t c] sb by simp
  then show ?thesis using totals_add [OF _ v(2)] sb by (fastforce simp: algebra_simps)
qed

definition cur3 :: "RateParticipant \<times> Rate \<times> Rate \<Rightarrow> Rate" where "cur3 x = fst (snd x)"
definition tgt3 :: "RateParticipant \<times> Rate \<times> Rate \<Rightarrow> Rate" where "tgt3 x = snd (snd x)"

text \<open>Every next rate is the target or the lower of the two, and the envelopes stay in the budget when the rates held were in it.\<close>

lemma next_loop_spec:
  assumes "totals_hold s (sum_bits (ds @ map cur3 xs)) (sum_burst (ds @ map cur3 xs)) (unlimited_in (ds @ map cur3 xs))"
    and "\<forall>v \<in> set (ds @ map cur3 xs). validate_rate v" and "\<forall>x \<in> set xs. validate_rate (tgt3 x)" and "length (ds @ map cur3 xs) \<le> 32768" and "validate_rate bound"
  shows "list_all2 (\<lambda>(p, c, t) n. n = (if rp_Frozen p then c else t) \<or> \<not> rp_Frozen p \<and> n = lowerRate c t) xs (next_loop bound s xs)
    \<and> (let es = map2 (\<lambda>x n. envelope (cur3 x) n) xs (next_loop bound s xs)
       in if within bound (ds @ map cur3 xs) then within bound (ds @ es) else es = map cur3 xs)"
  using assms
proof (induction xs arbitrary: ds s)
  case (Cons x xs)
  obtain p c t where x: "x = (p, c, t)" by (cases x)
  have xs: "cur3 x = c" "tgt3 x = t" by (simp_all add: x cur3_def tgt3_def)
  have v: "validate_rate c" "validate_rate t" and vs: "\<forall>v \<in> set (ds @ c # map cur3 xs). validate_rate v" "length (ds @ c # map cur3 xs) \<le> 32768"
    using Cons.prems xs by auto
  let ?n = "if rp_Frozen p then c else if fits_total (add_total (envelope c t) (remove_total c s)) bound then t else lowerRate c t"
  let ?e = "envelope c ?n" and ?rest = "next_loop bound (add_total (envelope c ?n) (remove_total c s)) xs"
  have nl: "next_loop bound s (x # xs) = ?n # ?rest" by (simp add: x Let_def)
  have vn: "validate_rate ?n" using v lower_props(1) by simp
  have ve: "validate_rate ?e" by (rule envelope_valid [OF v(1) vn])
  have th: "totals_hold s (sum_bits (ds @ c # map cur3 xs)) (sum_burst (ds @ c # map cur3 xs)) (unlimited_in (ds @ c # map cur3 xs))" using Cons.prems(1) xs by simp
  have t1: "totals_hold (add_total e (remove_total c s)) (sum_bits (ds @ e # map cur3 xs)) (sum_burst (ds @ e # map cur3 xs)) (unlimited_in (ds @ e # map cur3 xs))"
    if "validate_rate e" for e by (rule totals_replace [OF th vs(1) that vs(2)])
  have fits: "fits_total (add_total (envelope c t) (remove_total c s)) bound \<longleftrightarrow> within bound (ds @ envelope c t # map cur3 xs)"
    by (rule totals_fit [OF t1 Cons.prems(5)]) (rule envelope_valid [OF v])
  have up: "within bound (ds @ envelope c t # map cur3 xs) \<Longrightarrow> within bound (ds @ c # map cur3 xs)"
    by (erule within_mono) (auto intro!: list_all2_appendI list_all2_refl envelope_bounds(1) v)
  have head: "if within bound (ds @ c # map cur3 xs) then within bound (ds @ ?e # map cur3 xs) else ?e = c"
    using fits up envelope_self [OF v(1)] lower_props(4) [OF v] by auto
  have "totals_hold (add_total ?e (remove_total c s)) (sum_bits ((ds @ [?e]) @ map cur3 xs)) (sum_burst ((ds @ [?e]) @ map cur3 xs)) (unlimited_in ((ds @ [?e]) @ map cur3 xs))"
    using t1 [OF ve] by simp
  from Cons.IH [OF this] have IH: "list_all2 (\<lambda>(p, c, t) n. n = (if rp_Frozen p then c else t) \<or> \<not> rp_Frozen p \<and> n = lowerRate c t) xs ?rest"
      "let es = map2 (\<lambda>x n. envelope (cur3 x) n) xs ?rest in if within bound ((ds @ [?e]) @ map cur3 xs) then within bound ((ds @ [?e]) @ es) else es = map cur3 xs"
    using vs ve Cons.prems by auto
  show ?case unfolding nl using IH head x xs by (auto simp: Let_def split: if_splits)
qed simp

lemma next_loop_reaches:
  assumes "totals_hold s (sum_bits (ds @ map cur3 xs)) (sum_burst (ds @ map cur3 xs)) (unlimited_in (ds @ map cur3 xs))"
    and "\<forall>v \<in> set (ds @ map cur3 xs). validate_rate v" and "\<forall>x \<in> set xs. validate_rate (tgt3 x)" and "length (ds @ map cur3 xs) \<le> 32768" and "validate_rate bound"
    and "\<forall>x \<in> set xs. at_most (cur3 x) (tgt3 x) \<and> (rp_Frozen (fst x) \<longrightarrow> cur3 x = tgt3 x)" and "within bound (ds @ map tgt3 xs)"
  shows "next_loop bound s xs = map tgt3 xs"
  using assms
proof (induction xs arbitrary: ds s)
  case (Cons x xs)
  obtain p c t where x: "x = (p, c, t)" by (cases x)
  have xs: "cur3 x = c" "tgt3 x = t" by (simp_all add: x cur3_def tgt3_def)
  have v: "validate_rate c" "validate_rate t" and vs: "\<forall>v \<in> set (ds @ c # map cur3 xs). validate_rate v" "length (ds @ c # map cur3 xs) \<le> 32768"
    using Cons.prems xs by auto
  have e: "envelope c t = t" using envelope_absorb [OF v] Cons.prems(6) xs by simp
  have th: "totals_hold s (sum_bits (ds @ c # map cur3 xs)) (sum_burst (ds @ c # map cur3 xs)) (unlimited_in (ds @ c # map cur3 xs))" using Cons.prems(1) xs by simp
  note t1 = totals_replace [OF th vs(1) v(2) vs(2)]
  have "list_all2 at_most (map cur3 xs) (map tgt3 xs)" using Cons.prems(6) by (simp add: list_all2_conv_all_nth)
  then have "list_all2 at_most (ds @ t # map cur3 xs) (ds @ t # map tgt3 xs)" by (intro list_all2_appendI) (auto intro: list_all2_refl)
  then have "within bound (ds @ t # map cur3 xs)" using within_mono Cons.prems(7) xs by simp
  then have "fits_total (add_total t (remove_total c s)) bound" using totals_fit [OF t1 Cons.prems(5)] by simp
  then have nl: "next_loop bound s (x # xs) = t # next_loop bound (add_total t (remove_total c s)) xs"
    using x e Cons.prems(6) xs envelope_self [OF v(2)] by (auto simp: Let_def)
  have "next_loop bound (add_total t (remove_total c s)) xs = map tgt3 xs"
    by (rule Cons.IH [of _ "ds @ [t]"]) (use t1 Cons.prems xs v in auto)
  then show ?case using nl xs by simp
qed simp

section \<open>Fair targets\<close>

definition frozen_rates :: "(RateParticipant \<times> Rate) list \<Rightarrow> Rate list" where
  "frozen_rates xs = map snd (filter (\<lambda>(p, c). rp_Frozen p) xs)"

definition burst_needed :: "RateParticipant list \<Rightarrow> int" where
  "burst_needed ps = (\<Sum>p \<leftarrow> filter open_to ps. rp_MinimumBurst p)"

lemma frozen_loop_fit:
  assumes "r_Mode bound \<noteq> Unlimited" and "\<forall>(p, c) \<in> set xs. validate_rate c" and "\<forall>v \<in> set (frozen_rates xs). r_Mode v \<noteq> Unlimited"
    and "sum_bits (frozen_rates xs) \<le> unat b" and "sum_burst (frozen_rates xs) \<le> uint w"
  shows "\<exists>b' w'. frozen_loop bound xs b w i = (b', w', i) \<and> unat b' = unat b - sum_bits (frozen_rates xs) \<and> uint w' = uint w - sum_burst (frozen_rates xs)"
  using assms(2-5)
proof (induction xs arbitrary: b w)
  case (Cons x xs)
  obtain p c where x: "x = (p, c)" by force
  have v: "validate_rate c" "\<forall>(p, c) \<in> set xs. validate_rate c" using Cons.prems(1) x by auto
  show ?case
  proof (cases "rp_Frozen p \<and> r_Mode c \<noteq> Blocked")
    case False
    then have z: "rp_Frozen p \<Longrightarrow> unat (BitsPerSecond c) = 0 \<and> BurstBytes c = 0" using valid_rate(4) [OF v(1)] by simp
    have "frozen_loop bound (x # xs) b w i = frozen_loop bound xs b w i" using False x by auto
    moreover have "sum_bits (frozen_rates (x # xs)) = sum_bits (frozen_rates xs)" "sum_burst (frozen_rates (x # xs)) = sum_burst (frozen_rates xs)"
      using z x by (auto simp: frozen_rates_def)
    moreover have "\<forall>v \<in> set (frozen_rates xs). r_Mode v \<noteq> Unlimited" using Cons.prems(2) x by (auto simp: frozen_rates_def)
    ultimately show ?thesis using Cons.IH [OF v(2), of b w] Cons.prems(3,4) by presburger
  next
    case True
    have f: "frozen_rates (x # xs) = c # frozen_rates xs" using True x by (simp add: frozen_rates_def)
    have u: "uint (word_of_int (BurstBytes c) :: u64) = BurstBytes c" using valid_rate(1,2) [OF v(1)] by (intro burst_word) simp_all
    have nn: "0 \<le> sum_burst (frozen_rates xs)" using v(2) valid_rate(1) by (intro sum_list_nonneg) (auto simp: frozen_rates_def)
    have le: "unat (BitsPerSecond c) \<le> unat b" "BurstBytes c \<le> uint w" using Cons.prems(3,4) f nn by simp_all
    have ok: "\<not> (r_Mode c = Unlimited \<or> BitsPerSecond c > b \<or> word_of_int (BurstBytes c) > w)"
      using Cons.prems(2) f le u by (simp add: word_less_nat_alt [of b] word_less_def [of w])
    have s1: "unat (b - BitsPerSecond c) = unat b - unat (BitsPerSecond c)" using le(1) unat_sub [of "BitsPerSecond c" b] by (simp add: word_le_nat_alt)
    have s2: "uint (w - word_of_int (BurstBytes c)) = uint w - BurstBytes c"
      using le(2) u valid_rate(1) [OF v(1)] uint_lt2p [of w] by (simp add: uint_word_ariths mod_pos_pos_trivial)
    have "frozen_loop bound (x # xs) b w i = frozen_loop bound xs (b - BitsPerSecond c) (w - word_of_int (BurstBytes c)) i" using ok True x assms(1) by auto
    moreover have pre: "\<forall>v \<in> set (frozen_rates xs). r_Mode v \<noteq> Unlimited" "sum_bits (frozen_rates xs) \<le> unat (b - BitsPerSecond c)"
        "sum_burst (frozen_rates xs) \<le> uint (w - word_of_int (BurstBytes c))"
      using Cons.prems(2-4) s1 s2 unfolding f by simp_all
    moreover obtain b' w' where "frozen_loop bound xs (b - BitsPerSecond c) (w - word_of_int (BurstBytes c)) i = (b', w', i)"
        "unat b' = unat (b - BitsPerSecond c) - sum_bits (frozen_rates xs)" "uint w' = uint (w - word_of_int (BurstBytes c)) - sum_burst (frozen_rates xs)"
      using Cons.IH [OF v(2) pre] by auto
    ultimately show ?thesis using f s1 s2 by (auto simp: algebra_simps)
  qed
qed (simp add: frozen_rates_def)

lemma minimum_burst_sum:
  assumes "length ps \<le> 32768" and "\<forall>p \<in> set ps. 1 \<le> rp_MinimumBurst p \<and> rp_MinimumBurst p \<le> 2 ^ 20"
  shows "uint (minimum_burst ps) = burst_needed ps" "0 \<le> burst_needed ps" "burst_needed ps \<le> 2 ^ 35" "int (length (filter open_to ps)) \<le> burst_needed ps"
proof -
  have b: "uint (minimum_burst ps) = burst_needed ps \<and> burst_needed ps \<le> int (length ps) * 2 ^ 20 \<and> int (length (filter open_to ps)) \<le> burst_needed ps" using assms
  proof (induction ps)
    case Nil
    then show ?case by (simp add: minimum_burst_def burst_needed_def)
  next
    case (Cons p ps)
    then have IH: "uint (minimum_burst ps) = burst_needed ps" "burst_needed ps \<le> int (length ps) * 2 ^ 20" "int (length (filter open_to ps)) \<le> burst_needed ps" by auto
    have m: "1 \<le> rp_MinimumBurst p" "rp_MinimumBurst p \<le> 2 ^ 20" "length ps \<le> 32768" using Cons.prems by auto
    have u: "uint (word_of_int (rp_MinimumBurst p) :: u64) = rp_MinimumBurst p" using m by (intro burst_word) simp_all
    have "burst_needed ps \<le> 32768 * 2 ^ 20" using IH(2) m(3) by simp
    moreover have "0 \<le> burst_needed ps" using IH(3) by simp
    ultimately have "uint (word_of_int (rp_MinimumBurst p) + minimum_burst ps) = rp_MinimumBurst p + burst_needed ps"
      using m u IH(1) by (simp add: uint_word_ariths mod_pos_pos_trivial)
    then show ?case using IH m by (cases "open_to p") (auto simp: minimum_burst_def burst_needed_def)
  qed
  then show "uint (minimum_burst ps) = burst_needed ps" "int (length (filter open_to ps)) \<le> burst_needed ps" by simp_all
  then show "0 \<le> burst_needed ps" using b by linarith
  show "burst_needed ps \<le> 2 ^ 35" using b assms(1) by simp
qed

text \<open>The shares of \<open>n\<close> participants: the quotient, and one more for the first ones as far as the remainder goes.\<close>

definition split_at :: "nat \<Rightarrow> nat \<Rightarrow> nat \<Rightarrow> nat" where
  "split_at a n k = a div n + (if k < a mod n then 1 else 0)"

lemma split_sum: "n > 0 \<Longrightarrow> (\<Sum>k < n. split_at a n k) = a"
proof -
  assume n: "n > 0"
  have "(\<Sum>k < n. split_at a n k) = n * (a div n) + (\<Sum>k < n. if k < a mod n then 1 else 0)" by (simp add: split_at_def sum.distrib)
  also have "(\<Sum>k < n. if k < a mod n then 1 else (0::nat)) = card ({k. k < a mod n} \<inter> {..<n})"
    by (simp add: sum.If_cases Int_commute)
  also have "{k. k < a mod n} \<inter> {..<n} = {..<a mod n}" using n by (auto intro: less_trans [OF _ mod_less_divisor])
  finally show ?thesis by simp
qed

lemma split_word:
  assumes "unat (r :: u64) = k" "0 < n" "n \<le> 32768"
  shows "unat (a div of_nat n + (if r < a mod of_nat n then 1 else 0) :: u64) = split_at (unat a) n k"
proof -
  have n: "unat (of_nat n :: u64) = n" using assms(3) by (simp add: unat_of_nat)
  have q: "unat (a div of_nat n) = unat a div n" "unat (a mod of_nat n) = unat a mod n" by (simp_all add: unat_div unat_mod n)
  have c: "r < a mod of_nat n \<longleftrightarrow> k < unat a mod n" by (simp add: word_less_nat_alt q assms(1))
  have "unat a div n + (if k < unat a mod n then 1 else 0) \<le> unat a"
  proof (cases "k < unat a mod n")
    case True
    have "unat a div n \<le> n * (unat a div n)" using assms(2) by (cases n) simp_all
    then have "unat a div n + 1 \<le> unat a" using True mult_div_mod_eq [of n "unat a"] by linarith
    then show ?thesis using True by simp
  qed simp
  moreover have "unat a < 2 ^ 64" using unsigned_less [where w = a, where 'a = nat] by simp
  ultimately have "unat a div n + (if k < unat a mod n then 1 else 0) < 2 ^ 64" by linarith
  note small = this
  show ?thesis
  proof (cases "k < unat a mod n")
    case True
    then have "unat (a div of_nat n + 1) = unat a div n + 1" using small unat_add_lem [of "a div of_nat n" 1] q(1) by simp
    then show ?thesis using True c by (simp add: split_at_def)
  next
    case False
    then show ?thesis using q(1) c by (simp add: split_at_def)
  qed
qed

definition fair_share :: "nat \<Rightarrow> nat \<Rightarrow> nat \<Rightarrow> RateParticipant \<times> Rate \<Rightarrow> Rate \<Rightarrow> bool" where
  "fair_share a e n x v \<longleftrightarrow> (case x of (p, c) \<Rightarrow>
     if open_to p then r_Mode v = Limited \<and> (\<exists>j < n. unat (BitsPerSecond v) = split_at a n j \<and> BurstBytes v = rp_MinimumBurst p + int (split_at e n j))
     else v = (if rp_Frozen p then c else blocked_rate))"

lemma split_le: "0 < n \<Longrightarrow> split_at a n j \<le> a"
proof -
  assume n: "0 < n"
  show ?thesis
  proof (cases "j < a mod n")
    case True
    have "a div n \<le> n * (a div n)" using n by (cases n) simp_all
    then have "a div n + 1 \<le> a" using True mult_div_mod_eq [of n a] by linarith
    then show ?thesis using True by (simp add: split_at_def)
  qed (simp add: split_at_def)
qed

lemma assign_burst:
  assumes "unat (r :: u64) = k" "0 < n" "n \<le> 32768" "unat (e :: u64) \<le> 2 ^ 20" "1 \<le> m" "m \<le> 2 ^ 20"
  shows "sint (word_of_int m + e div of_nat n + (if r < e mod of_nat n then 1 else 0) :: u64) = m + int (split_at (unat e) n k)"
proof -
  let ?x = "e div of_nat n + (if r < e mod of_nat n then 1 else 0)"
  have u: "uint (word_of_int m :: u64) = m" using assms by (intro burst_word) simp_all
  have "unat ?x = split_at (unat e) n k" by (rule split_word [OF assms(1-3)])
  then have x: "uint ?x = int (split_at (unat e) n k)" by (metis uint_nat)
  have s: "split_at (unat e) n k \<le> 2 ^ 20" using split_le [OF assms(2), of "unat e" k] assms(4) by linarith
  have "uint (word_of_int m + ?x) = m + int (split_at (unat e) n k)"
    using u x s assms(5,6) by (simp add: uint_word_ariths mod_pos_pos_trivial)
  moreover have "sint y = uint y" if "uint y < 2 ^ 40" for y :: u64
  proof -
    have "- (2 ^ 63) \<le> uint y" by (rule order_trans [of _ 0]) simp_all
    then show ?thesis using that signed_take_bit_int_eq_self [of 63 "uint y"] by (simp add: sint_uint)
  qed
  ultimately have "sint (word_of_int m + ?x) = m + int (split_at (unat e) n k)" using s assms(6) by simp
  then show ?thesis by (simp add: add.assoc)
qed

lemma assign_fair_spec:
  assumes n: "0 < n" "n \<le> 32768" and e: "unat extra \<le> 2 ^ 20"
    and "unat r = k" and "k + length (filter open_to (map fst xs)) \<le> n" and "\<forall>(p, c) \<in> set xs. 1 \<le> rp_MinimumBurst p \<and> rp_MinimumBurst p \<le> 2 ^ 20"
  shows "list_all2 (fair_share (unat bits) (unat extra) n) xs (assign_fair bits extra (of_nat n) r xs)
    \<and> sum_bits (assign_fair bits extra (of_nat n) r xs) = sum_bits (frozen_rates xs) + (\<Sum>j < length (filter open_to (map fst xs)). split_at (unat bits) n (k + j))
    \<and> sum_burst (assign_fair bits extra (of_nat n) r xs) = sum_burst (frozen_rates xs) + burst_needed (map fst xs)
        + int (\<Sum>j < length (filter open_to (map fst xs)). split_at (unat extra) n (k + j))"
  using assms(4-6)
proof (induction xs arbitrary: r k)
  case (Cons x xs)
  obtain p c where x: "x = (p, c)" by force
  have m: "1 \<le> rp_MinimumBurst p" "rp_MinimumBurst p \<le> 2 ^ 20" "\<forall>(p, c) \<in> set xs. 1 \<le> rp_MinimumBurst p \<and> rp_MinimumBurst p \<le> 2 ^ 20" using Cons.prems(3) x by auto
  let ?o = "length (filter open_to (map fst xs))"
  show ?case
  proof (cases "open_to p")
    case False
    then have "k + ?o \<le> n" using Cons.prems(2) x by simp
    note IH = Cons.IH [OF Cons.prems(1) this m(3)]
    show ?thesis
    proof (cases "rp_Frozen p")
      case True
      then show ?thesis using IH False x by (simp add: frozen_rates_def burst_needed_def fair_share_def)
    next
      case nf: False
      then show ?thesis using IH False x by (simp add: frozen_rates_def burst_needed_def fair_share_def blocked_rate_def)
    qed
  next
    case True
    have kn: "k < n" "Suc k + ?o \<le> n" using Cons.prems(2) x True by simp_all
    have "unat (r + 1) = Suc k" using unat_add_lem [of r 1] Cons.prems(1) kn(1) n(2) by simp
    note IH = Cons.IH [OF this kn(2) m(3)]
    let ?v = "\<lparr>r_Mode = Limited, BitsPerSecond = bits div of_nat n + (if r < bits mod of_nat n then 1 else 0),
         BurstBytes = sint (word_of_int (rp_MinimumBurst p) + extra div of_nat n + (if r < extra mod of_nat n then 1 else 0))\<rparr> :: Rate"
    have a: "assign_fair bits extra (of_nat n) r (x # xs) = ?v # assign_fair bits extra (of_nat n) (r + 1) xs" using True x by simp
    have b: "unat (BitsPerSecond ?v) = split_at (unat bits) n k" "BurstBytes ?v = rp_MinimumBurst p + int (split_at (unat extra) n k)"
      using split_word [OF Cons.prems(1) n] assign_burst [OF Cons.prems(1) n e m(1,2)] by simp_all
    have "fair_share (unat bits) (unat extra) n x ?v" using b kn(1) True x by (auto simp: fair_share_def)
    moreover have "frozen_rates (x # xs) = frozen_rates xs" using True x by (simp add: frozen_rates_def open_to_def)
    moreover have "burst_needed (map fst (x # xs)) = rp_MinimumBurst p + burst_needed (map fst xs)" "length (filter open_to (map fst (x # xs))) = Suc ?o"
      using True x by (simp_all add: burst_needed_def)
    ultimately show ?thesis using IH b unfolding a by (simp add: sum.lessThan_Suc_shift del: sum.lessThan_Suc)
  qed
qed (simp add: frozen_rates_def burst_needed_def)

lemma frozen_loop_true: "snd (snd (frozen_loop bound xs b w True))"
  by (induction bound xs b w True rule: frozen_loop.induct) auto

lemma frozen_loop_unlimited: "r_Mode bound = Unlimited \<Longrightarrow> frozen_loop bound xs b w i = (b, w, i)"
  by (induction bound xs b w i rule: frozen_loop.induct) auto

lemma frozen_loop_over:
  assumes "\<forall>(p, c) \<in> set xs. validate_rate c" and "r_Mode bound \<noteq> Unlimited"
    and "\<not> snd (snd (frozen_loop bound xs b w i))"
  shows "(\<forall>v \<in> set (frozen_rates xs). r_Mode v \<noteq> Unlimited) \<and> sum_bits (frozen_rates xs) \<le> unat b \<and> sum_burst (frozen_rates xs) \<le> uint w"
  using assms(1,3)
proof (induction xs arbitrary: b w i)
  case (Cons x xs)
  obtain p c where x: "x = (p, c)" by force
  have v: "validate_rate c" "\<forall>(p, c) \<in> set xs. validate_rate c" using Cons.prems(1) x by auto
  show ?case
  proof (cases "rp_Frozen p \<and> r_Mode c \<noteq> Blocked")
    case False
    then have z: "rp_Frozen p \<Longrightarrow> r_Mode c = Blocked \<and> unat (BitsPerSecond c) = 0 \<and> BurstBytes c = 0" using valid_rate(4) [OF v(1)] by simp
    have "\<not> snd (snd (frozen_loop bound xs b w i))" using False x Cons.prems(2) by auto
    from Cons.IH [OF v(2) this] show ?thesis using z x by (auto simp: frozen_rates_def)
  next
    case True
    have f: "frozen_rates (x # xs) = c # frozen_rates xs" using True x by (simp add: frozen_rates_def)
    have u: "uint (word_of_int (BurstBytes c) :: u64) = BurstBytes c" using valid_rate(1,2) [OF v(1)] by (intro burst_word) simp_all
    have ok: "\<not> (r_Mode c = Unlimited \<or> BitsPerSecond c > b \<or> word_of_int (BurstBytes c) > w)"
      using Cons.prems(2) True x assms(2) frozen_loop_true [of bound xs b w] by auto
    then have le: "unat (BitsPerSecond c) \<le> unat b" "BurstBytes c \<le> uint w" using u by (simp_all add: word_less_nat_alt [of b] word_less_def [of w])
    have s1: "unat (b - BitsPerSecond c) = unat b - unat (BitsPerSecond c)" using le(1) unat_sub [of "BitsPerSecond c" b] by (simp add: word_le_nat_alt)
    have s2: "uint (w - word_of_int (BurstBytes c)) = uint w - BurstBytes c"
      using le(2) u valid_rate(1) [OF v(1)] uint_lt2p [of w] by (simp add: uint_word_ariths mod_pos_pos_trivial)
    have "\<not> snd (snd (frozen_loop bound xs (b - BitsPerSecond c) (w - word_of_int (BurstBytes c)) i))" using ok True x assms(2) Cons.prems(2) by auto
    from Cons.IH [OF v(2) this] show ?thesis using ok f s1 s2 le by auto
  qed
qed (simp add: frozen_rates_def)

definition enough :: "Rate \<Rightarrow> (RateParticipant \<times> Rate) list \<Rightarrow> bool" where
  "enough bound xs \<longleftrightarrow> r_Mode bound = Limited \<and> within bound (frozen_rates xs) \<and> list_ex open_to (map fst xs)
     \<and> length (filter open_to (map fst xs)) + sum_bits (frozen_rates xs) \<le> unat (BitsPerSecond bound)
     \<and> burst_needed (map fst xs) + sum_burst (frozen_rates xs) \<le> BurstBytes bound"

definition xs_ok :: "(RateParticipant \<times> Rate) list \<Rightarrow> bool" where
  "xs_ok xs \<longleftrightarrow> length xs \<le> 32768 \<and> (\<forall>(p, c) \<in> set xs. validate_rate c \<and> 1 \<le> rp_MinimumBurst p \<and> rp_MinimumBurst p \<le> 2 ^ 20)"

lemma fair_cases:
  assumes xs: "xs_ok xs" and b: "validate_rate bound"
  obtains "r_Mode bound = Unlimited"
      "fairRateTargets bound xs = map (\<lambda>(p, c). if open_to p then \<lparr>r_Mode = Unlimited, BitsPerSecond = 0, BurstBytes = 0\<rparr> else if rp_Frozen p then c else blocked_rate) xs"
    | "r_Mode bound \<noteq> Unlimited" "\<not> enough bound xs" "fairRateTargets bound xs = frozen_targets xs"
    | "r_Mode bound = Limited" "\<not> enough bound xs" "within bound (frozen_rates xs)" "fairRateTargets bound xs = retainFeasibleRates bound xs (frozen_targets xs)"
    | bits extra where "enough bound xs" "unat bits = unat (BitsPerSecond bound) - sum_bits (frozen_rates xs)"
        "int (unat extra) = BurstBytes bound - sum_burst (frozen_rates xs) - burst_needed (map fst xs)"
        "fairRateTargets bound xs = assign_fair bits extra (of_nat (length (filter open_to (map fst xs)))) 0 xs"
proof (cases "r_Mode bound = Unlimited")
  case True
  have "map2 (\<lambda>(p, c) r. if open_to p then \<lparr>r_Mode = Unlimited, BitsPerSecond = 0, BurstBytes = 0\<rparr> else r) xs (frozen_targets xs)
      = map (\<lambda>(p, c). if open_to p then \<lparr>r_Mode = Unlimited, BitsPerSecond = 0, BurstBytes = 0\<rparr> else if rp_Frozen p then c else blocked_rate) xs"
    by (induction xs) (auto simp: frozen_targets_def)
  moreover have "frozen_targets xs = map (\<lambda>(p, c). if open_to p then \<lparr>r_Mode = Unlimited, BitsPerSecond = 0, BurstBytes = 0\<rparr> else if rp_Frozen p then c else blocked_rate) xs"
    if "filter open_to (map fst xs) = []"
    using that unfolding frozen_targets_def by (intro map_cong) (auto simp: filter_empty_conv)
  ultimately have "fairRateTargets bound xs = map (\<lambda>(p, c). if open_to p then \<lparr>r_Mode = Unlimited, BitsPerSecond = 0, BurstBytes = 0\<rparr> else if rp_Frozen p then c else blocked_rate) xs"
    unfolding fairRateTargets_def frozen_loop_unlimited [OF True] Let_def using True by auto
  then show ?thesis using that(1) True by blast
next
  case False
  let ?B = "BitsPerSecond bound" and ?W = "word_of_int (BurstBytes bound) :: u64" and ?n = "length (filter open_to (map fst xs))"
  have vc: "\<forall>(p, c) \<in> set xs. validate_rate c" using xs by (auto simp: xs_ok_def)
  have u: "uint ?W = BurstBytes bound" using valid_rate(1,2) [OF b] by (intro burst_word) simp_all
  have fit: "within bound (frozen_rates xs) \<longleftrightarrow> (\<forall>v \<in> set (frozen_rates xs). r_Mode v \<noteq> Unlimited) \<and> sum_bits (frozen_rates xs) \<le> unat ?B \<and> sum_burst (frozen_rates xs) \<le> uint ?W"
    using False u by (simp add: within_def)
  obtain b' w' ins where fl: "frozen_loop bound xs ?B ?W (r_Mode bound = Blocked) = (b', w', ins)" by (metis prod_cases3)
  show ?thesis
  proof (cases "filter open_to (map fst xs) = [] \<or> ins")
    case True
    have "\<not> enough bound xs"
    proof
      assume en: "enough bound xs"
      then have "filter open_to (map fst xs) \<noteq> []" by (auto simp: enough_def filter_empty_conv list_ex_iff)
      moreover have "\<not> ins" using frozen_loop_fit [OF False vc, of ?B ?W "r_Mode bound = Blocked"] fit en fl by (auto simp: enough_def)
      ultimately show False using True by blast
    qed
    moreover have "fairRateTargets bound xs = frozen_targets xs" unfolding fairRateTargets_def fl prod.case Let_def using True by simp
    ultimately show ?thesis using that(2) False by blast
  next
    case no: False
    then have "\<not> snd (snd (frozen_loop bound xs ?B ?W (r_Mode bound = Blocked)))" using fl by simp
    from frozen_loop_over [OF vc False this] have fits: "within bound (frozen_rates xs)" using fit by blast
    have lim: "r_Mode bound = Limited" using no fl frozen_loop_true [of bound xs ?B ?W] valid_rate(6) [OF b] False by auto
    have bw: "unat b' = unat ?B - sum_bits (frozen_rates xs)" "uint w' = BurstBytes bound - sum_burst (frozen_rates xs)"
      using frozen_loop_fit [OF False vc, of ?B ?W "r_Mode bound = Blocked"] fit fits fl u by auto
    have "?n \<le> length xs" using length_filter_le [of open_to "map fst xs"] by (simp only: length_map)
    then have len: "?n \<le> 32768" using xs unfolding xs_ok_def by linarith
    have n: "unat (of_nat ?n :: u64) = ?n" using len by (simp add: unat_of_nat)
    have m: "uint (minimum_burst (map fst xs)) = burst_needed (map fst xs)" by (rule minimum_burst_sum(1)) (use xs in \<open>auto simp: xs_ok_def\<close>)
    have c1: "b' < of_nat ?n \<longleftrightarrow> \<not> ?n + sum_bits (frozen_rates xs) \<le> unat ?B" 
      using fits fit unfolding word_less_nat_alt n bw(1) by linarith
    have c2: "minimum_burst (map fst xs) > w' \<longleftrightarrow> \<not> burst_needed (map fst xs) + sum_burst (frozen_rates xs) \<le> BurstBytes bound" by (auto simp: word_less_def m bw(2))
    have some: "list_ex open_to (map fst xs)" using no by (auto simp: filter_empty_conv list_ex_iff)
    show ?thesis
    proof (cases "enough bound xs")
      case True
      have le: "minimum_burst (map fst xs) \<le> w'" using True c2 by (auto simp: enough_def not_less)
      then have "uint (w' - minimum_burst (map fst xs)) = uint w' - burst_needed (map fst xs)" 
        using m by (metis uint_minus_simple_iff word_le_def word_sub_le)
      then have "int (unat (w' - minimum_burst (map fst xs))) = BurstBytes bound - sum_burst (frozen_rates xs) - burst_needed (map fst xs)" using bw(2) by simp
      moreover have "fairRateTargets bound xs = assign_fair b' (w' - minimum_burst (map fst xs)) (of_nat ?n) 0 xs"
        unfolding fairRateTargets_def fl prod.case Let_def using no False True c1 c2 by (simp add: enough_def)
      ultimately show ?thesis using that(4) [OF True bw(1)] by blast
    next
      case ne: False
      then have "b' < of_nat ?n \<or> minimum_burst (map fst xs) > w'" using c1 c2 lim fits some by (auto simp: enough_def)
      then have "fairRateTargets bound xs = retainFeasibleRates bound xs (frozen_targets xs)"
        unfolding fairRateTargets_def fl prod.case Let_def using no False by auto
      then show ?thesis using that(3) [OF lim ne fits] by blast
    qed
  qed
qed

lemma frozen_targets_sums:
  "sum_bits (frozen_targets xs) = sum_bits (frozen_rates xs)" "sum_burst (frozen_targets xs) = sum_burst (frozen_rates xs)"
  "(\<forall>v \<in> set (frozen_targets xs). r_Mode v \<noteq> Unlimited) \<longleftrightarrow> (\<forall>v \<in> set (frozen_rates xs). r_Mode v \<noteq> Unlimited)"
  by (induction xs) (auto simp: frozen_targets_def frozen_rates_def blocked_rate_def)

lemma within_frozen: "within bound (frozen_targets xs) = within bound (frozen_rates xs)"
  unfolding within_def frozen_targets_sums ..

definition target_ok :: "RateParticipant \<times> Rate \<Rightarrow> Rate \<Rightarrow> bool" where
  "target_ok x t \<longleftrightarrow> validate_rate t \<and> (rp_Frozen (fst x) \<longrightarrow> t = snd x) \<and> (\<not> rp_Frozen (fst x) \<and> \<not> rp_Eligible (fst x) \<longrightarrow> t = blocked_rate)"

lemma blocked_valid [simp]: "validate_rate blocked_rate"
  by (simp add: validate_rate_def blocked_rate_def)

lemma xs_ok_mem: "xs_ok xs \<Longrightarrow> x \<in> set xs \<Longrightarrow> validate_rate (snd x) \<and> 1 \<le> rp_MinimumBurst (fst x) \<and> rp_MinimumBurst (fst x) \<le> 2 ^ 20"
  unfolding xs_ok_def by fastforce

lemma xs_ok_nth: "xs_ok xs \<Longrightarrow> i < length xs \<Longrightarrow> validate_rate (snd (xs ! i))"
  using xs_ok_mem [OF _ nth_mem] by blast

lemma frozen_targets_ok:
  assumes "xs_ok xs"
  shows "list_all2 target_ok xs (frozen_targets xs)"
  using xs_ok_nth [OF assms] by (auto simp: frozen_targets_def list_all2_conv_all_nth target_ok_def case_prod_beta)

lemma retain_spec:
  assumes xs: "xs_ok xs" and b: "validate_rate bound" and f: "within bound (frozen_rates xs)"
  shows "list_all2 target_ok xs (retainFeasibleRates bound xs (frozen_targets xs)) \<and> within bound (retainFeasibleRates bound xs (frozen_targets xs))"
proof (cases "fitsRates bound (map snd xs)")
  case False
  then show ?thesis using frozen_targets_ok [OF xs] f within_frozen by (simp add: retainFeasibleRates_def)
next
  case True
  have w: "within bound (map snd xs)" using True fitsRates_iff [OF b, of "map snd xs"] xs_ok_mem [OF xs] by auto
  have e: "retainFeasibleRates bound xs (frozen_targets xs) = map (\<lambda>(p, c). if rp_Frozen p \<or> rp_Eligible p then c else blocked_rate) xs"
    using True by (auto simp: retainFeasibleRates_def frozen_targets_def list_eq_iff_nth_eq case_prod_beta)
  have "list_all2 at_most (map (\<lambda>(p, c). if rp_Frozen p \<or> rp_Eligible p then c else blocked_rate) xs) (map snd xs)"
    using valid_rate(1) [OF xs_ok_nth [OF xs]] by (auto simp: list_all2_conv_all_nth at_most_def blocked_rate_def case_prod_beta)
  then show ?thesis unfolding e using within_mono [OF w] xs_ok_nth [OF xs] by (auto simp: list_all2_conv_all_nth target_ok_def case_prod_beta)
qed

lemma limited_valid:
  assumes "r_Mode v = Limited" "1 \<le> unat (BitsPerSecond v)" "unat (BitsPerSecond v) \<le> 2 ^ 53" "1 \<le> BurstBytes v" "BurstBytes v \<le> 2 ^ 20"
  shows "validate_rate v"
proof -
  have "BitsPerSecond v \<noteq> 0" using assms(2) by auto
  moreover have "\<not> BitsPerSecond v > 2 ^ 53" using assms(3) by (simp add: word_less_nat_alt)
  ultimately show ?thesis using assms by (simp add: validate_rate_def)
qed

lemma assigned_spec:
  assumes xs: "xs_ok xs" and b: "validate_rate bound" and en: "enough bound xs"
    and bits: "unat bits = unat (BitsPerSecond bound) - sum_bits (frozen_rates xs)"
    and extra: "int (unat extra) = BurstBytes bound - sum_burst (frozen_rates xs) - burst_needed (map fst xs)"
    and t: "ts = assign_fair bits extra (of_nat (length (filter open_to (map fst xs)))) 0 xs"
  shows "list_all2 (fair_share (unat bits) (unat extra) (length (filter open_to (map fst xs)))) xs ts"
    "sum_bits ts = unat (BitsPerSecond bound)" "sum_burst ts = BurstBytes bound" "list_all2 target_ok xs ts" "within bound ts"
proof -
  let ?n = "length (filter open_to (map fst xs))"
  have n: "0 < ?n" using en by (auto simp: enough_def list_ex_iff filter_empty_conv simp del: filter_map)
  have "?n \<le> length xs" using length_filter_le [of open_to "map fst xs"] by (simp only: length_map)
  then have n2: "?n \<le> 32768" using xs unfolding xs_ok_def by linarith
  have vf: "\<forall>v \<in> set (frozen_rates xs). validate_rate v" using xs by (auto simp: frozen_rates_def xs_ok_def)
  have f0: "0 \<le> sum_burst (frozen_rates xs)" using vf valid_rate(1) by (intro sum_list_nonneg) auto
  have m0: "0 \<le> burst_needed (map fst xs)" by (rule minimum_burst_sum(2)) (use xs in \<open>auto simp: xs_ok_def\<close>)
  have "int (unat extra) \<le> int (2 ^ 20)" unfolding of_nat_power of_nat_numeral using extra f0 m0 valid_rate(2) [OF b] by linarith
  then have e: "unat extra \<le> 2 ^ 20" by (rule of_nat_le_iff [THEN iffD1])
  have min: "\<forall>(p, c) \<in> set xs. 1 \<le> rp_MinimumBurst p \<and> rp_MinimumBurst p \<le> 2 ^ 20" using xs by (auto simp: xs_ok_def)
  have "unat (0 :: u64) = 0" "0 + ?n \<le> ?n" by simp_all
  note sp = assign_fair_spec [OF n n2 e this min, of bits, folded t, unfolded add_0]
  have sb: "sum_bits (frozen_rates xs) \<le> unat (BitsPerSecond bound)" using en by (simp add: enough_def)
  show fs: "list_all2 (fair_share (unat bits) (unat extra) ?n) xs ts" using sp by blast
  show s1: "sum_bits ts = unat (BitsPerSecond bound)" using sp split_sum [OF n, of "unat bits"] bits sb by simp
  show s2: "sum_burst ts = BurstBytes bound" using sp extra unfolding split_sum [OF n, of "unat extra"] by linarith
  have lim: "r_Mode bound = Limited" using en by (simp add: enough_def)
  have len: "length xs = length ts" using fs by (rule list_all2_lengthD)
  have ge: "?n \<le> unat bits" using en bits unfolding enough_def by linarith
  have pt: "(if open_to (fst x) then r_Mode v = Limited \<and> 1 \<le> unat (BitsPerSecond v) \<and> 1 \<le> BurstBytes v else v = (if rp_Frozen (fst x) then snd x else blocked_rate))"
    if "x \<in> set xs" "fair_share (unat bits) (unat extra) ?n x v" for x v
  proof -
    have "1 \<le> unat bits div ?n" using ge n by (simp add: Suc_le_eq div_greater_zero_iff del: filter_map)
    then have "1 \<le> split_at (unat bits) ?n j" for j by (simp add: split_at_def del: filter_map)
    then show ?thesis using that min by (cases x) (fastforce simp: fair_share_def simp del: filter_map split: if_splits)
  qed
  have nn: "0 \<le> BurstBytes v \<and> r_Mode v \<noteq> Unlimited" if v: "v \<in> set ts" for v
  proof -
    obtain i where i: "i < length xs" "v = ts ! i" using v len by (metis in_set_conv_nth)
    have x: "xs ! i \<in> set xs" "fair_share (unat bits) (unat extra) ?n (xs ! i) (ts ! i)" using fs i by (auto simp: list_all2_conv_all_nth)
    obtain p c where pc: "xs ! i = (p, c)" by force
    have "validate_rate c" using xs_ok_mem [OF xs x(1)] pc by simp
    moreover have "rp_Frozen p \<Longrightarrow> r_Mode c \<noteq> Unlimited" using en x(1) pc lim by (force simp: enough_def within_def frozen_rates_def)
    ultimately show ?thesis using pt [OF x] i(2) pc valid_rate(1) [of c] by (auto simp: blocked_rate_def split: if_splits)
  qed
  show "within bound ts" using s1 s2 nn lim by (simp add: within_def)
  have cap: "unat (BitsPerSecond v) \<le> 2 ^ 53 \<and> BurstBytes v \<le> 2 ^ 20" if "v \<in> set ts" for v
  proof -
    have "unat (BitsPerSecond v) \<le> sum_bits ts" using that by (intro member_le_sum_list) auto
    moreover have "BurstBytes v \<le> sum_burst ts" using that nn by (intro member_le_sum_list) auto
    ultimately show ?thesis using s1 s2 valid_rate(2,3) [OF b] by simp
  qed
  have "target_ok (xs ! i) (ts ! i)" if i: "i < length xs" for i
  proof -
    have x: "xs ! i \<in> set xs" "ts ! i \<in> set ts" "fair_share (unat bits) (unat extra) ?n (xs ! i) (ts ! i)" using fs i len by (auto simp: list_all2_conv_all_nth)
    obtain p c where pc: "xs ! i = (p, c)" by force
    have vc: "validate_rate c" using xs_ok_mem [OF xs x(1)] pc by simp
    show ?thesis using pt [OF x(1,3)] pc vc cap [OF x(2)] limited_valid [of "ts ! i"]
      by (cases "open_to p") (auto simp: target_ok_def open_to_def)
  qed
  then show "list_all2 target_ok xs ts" using len by (simp add: list_all2_conv_all_nth)
qed

lemma fair_ok:
  assumes xs: "xs_ok xs" and b: "validate_rate bound"
  shows "list_all2 target_ok xs (fairRateTargets bound xs) \<and> (within bound (frozen_rates xs) \<longrightarrow> within bound (fairRateTargets bound xs))"
proof (cases rule: fair_cases [OF xs b])
  case 1
  have "validate_rate \<lparr>r_Mode = Unlimited, BitsPerSecond = 0, BurstBytes = 0\<rparr>" by (simp add: validate_rate_def)
  then show ?thesis using 1 xs_ok_nth [OF xs] by (auto simp: list_all2_conv_all_nth target_ok_def open_to_def within_def case_prod_beta)
next
  case 2
  then show ?thesis using frozen_targets_ok [OF xs] within_frozen by simp
next
  case 3
  then show ?thesis using retain_spec [OF xs b] by simp
next
  case (4 bits extra)
  then show ?thesis using assigned_spec(4,5) [OF xs b 4(1-4)] by blast
qed

lemma direction_totals:
  assumes "xs_ok xs"
  shows "totals_hold (fold add_total (map snd xs) \<lparr>rt_bits = 0, rt_high = 0, rt_burst = 0, rt_unlimited = 0\<rparr>) (sum_bits (map snd xs)) (sum_burst (map snd xs)) (unlimited_in (map snd xs))"
proof -
  have "totals_hold \<lparr>rt_bits = 0, rt_high = 0, rt_burst = 0, rt_unlimited = 0\<rparr> (sum_bits []) (sum_burst []) (unlimited_in [])" by (simp add: totals_hold_def)
  moreover have "\<forall>v \<in> set ([] @ map snd xs). validate_rate v" "length ([] @ map snd xs) \<le> 32768" using xs_ok_mem [OF assms] assms by (auto simp: xs_ok_def)
  ultimately show ?thesis using totals_fold [of "[]" "map snd xs"] by fastforce
qed

lemma cur3_map2: "length xs = length ts \<Longrightarrow> map cur3 (map2 (\<lambda>(p, c) t. (p, c, t)) xs ts) = map snd xs \<and> map tgt3 (map2 (\<lambda>(p, c) t. (p, c, t)) xs ts) = ts"
  by (induction xs ts rule: list_induct2) (auto simp: cur3_def tgt3_def)

lemma direction_spec:
  assumes xs: "xs_ok xs" and b: "validate_rate bound" and al: "allocate_direction bound xs = (ts, ns)"
  shows "list_all2 target_ok xs ts" "within bound (frozen_rates xs) \<Longrightarrow> within bound ts"
    "length ns = length xs" "\<And>i. i < length xs \<Longrightarrow> ns ! i = (if rp_Frozen (fst (xs ! i)) then snd (xs ! i) else ts ! i)
        \<or> \<not> rp_Frozen (fst (xs ! i)) \<and> ns ! i = lowerRate (snd (xs ! i)) (ts ! i)"
    "within bound (map snd xs) \<Longrightarrow> within bound (map2 envelope (map snd xs) ns)" "\<not> within bound (map snd xs) \<Longrightarrow> map2 envelope (map snd xs) ns = map snd xs"
proof -
  let ?s = "fold add_total (map snd xs) \<lparr>rt_bits = 0, rt_high = 0, rt_burst = 0, rt_unlimited = 0\<rparr>" and ?zs = "map2 (\<lambda>(p, c) t. (p, c, t)) xs ts"
  have ts: "ts = fairRateTargets bound xs" and ns: "ns = next_loop bound ?s ?zs" using al by (auto simp: allocate_direction_def Let_def)
  show ok: "list_all2 target_ok xs ts" "within bound (frozen_rates xs) \<Longrightarrow> within bound ts" using fair_ok [OF xs b] ts by simp_all
  have len: "length xs = length ts" using ok(1) by (rule list_all2_lengthD)
  have m: "map cur3 ?zs = map snd xs" "map tgt3 ?zs = ts" using cur3_map2 [OF len] by blast+
  have "\<forall>v \<in> set ts. validate_rate v" using ok(1) by (auto simp: list_all2_conv_all_nth target_ok_def in_set_conv_nth)
  then have vt: "\<forall>x \<in> set ?zs. validate_rate (tgt3 x)" using m(2) by (metis (no_types, lifting) image_eqI list.set_map)
  have vs: "\<forall>v \<in> set (map snd xs). validate_rate v" "length (map snd xs) \<le> 32768" using xs_ok_mem [OF xs] xs by (auto simp: xs_ok_def)
  note nl = next_loop_spec [of ?s "[]" ?zs bound, unfolded append_Nil m, OF direction_totals [OF xs] vs(1) vt vs(2) b, folded ns]
  then have sp: "list_all2 (\<lambda>(p, c, t) n. n = (if rp_Frozen p then c else t) \<or> \<not> rp_Frozen p \<and> n = lowerRate c t) ?zs ns"
      "let es = map2 (\<lambda>x n. envelope (cur3 x) n) ?zs ns in if within bound (map snd xs) then within bound es else es = map snd xs"
    by blast+
  show l2: "length ns = length xs" using list_all2_lengthD [OF sp(1)] len by simp
  show "ns ! i = (if rp_Frozen (fst (xs ! i)) then snd (xs ! i) else ts ! i) \<or> \<not> rp_Frozen (fst (xs ! i)) \<and> ns ! i = lowerRate (snd (xs ! i)) (ts ! i)" if "i < length xs" for i
    using sp(1) that len by (auto simp: list_all2_conv_all_nth case_prod_beta split: if_splits)
  have "map2 (\<lambda>x n. envelope (cur3 x) n) ?zs ns = map2 envelope (map snd xs) ns"
    using len l2 by (auto simp: list_eq_iff_nth_eq cur3_def case_prod_beta)
  then show "within bound (map snd xs) \<Longrightarrow> within bound (map2 envelope (map snd xs) ns)" "\<not> within bound (map snd xs) \<Longrightarrow> map2 envelope (map snd xs) ns = map snd xs"
    using sp(2) by (simp_all add: Let_def)
qed

text \<open>Two lists of participants that differ only in what participants that are not frozen hold.\<close>

definition same_terms :: "RateParticipant \<times> Rate \<Rightarrow> RateParticipant \<times> Rate \<Rightarrow> bool" where
  "same_terms x y \<longleftrightarrow> rp_Frozen (fst x) = rp_Frozen (fst y) \<and> rp_Eligible (fst x) = rp_Eligible (fst y) \<and> rp_MinimumBurst (fst x) = rp_MinimumBurst (fst y)
     \<and> (rp_Frozen (fst x) \<longrightarrow> snd x = snd y)"

lemma same_terms_spec:
  assumes "list_all2 same_terms xs ys"
  shows "frozen_rates ys = frozen_rates xs" "length (filter open_to (map fst ys)) = length (filter open_to (map fst xs))" "burst_needed (map fst ys) = burst_needed (map fst xs)"
    "list_ex open_to (map fst ys) = list_ex open_to (map fst xs)" "assign_fair a e n r ys = assign_fair a e n r xs"
proof -
  have "frozen_rates ys = frozen_rates xs \<and> length (filter open_to (map fst ys)) = length (filter open_to (map fst xs)) \<and> burst_needed (map fst ys) = burst_needed (map fst xs)
      \<and> list_ex open_to (map fst ys) = list_ex open_to (map fst xs)"
    using assms by (induction rule: list_all2_induct) (auto simp: same_terms_def frozen_rates_def burst_needed_def open_to_def)
  then show "frozen_rates ys = frozen_rates xs" "length (filter open_to (map fst ys)) = length (filter open_to (map fst xs))" "burst_needed (map fst ys) = burst_needed (map fst xs)"
    "list_ex open_to (map fst ys) = list_ex open_to (map fst xs)" by simp_all
  show "assign_fair a e n r ys = assign_fair a e n r xs"
    using assms by (induction arbitrary: r rule: list_all2_induct) (auto simp: same_terms_def open_to_def)
qed

lemma same_targets:
  assumes xs: "xs_ok xs" "xs_ok ys" and b: "validate_rate bound" and en: "enough bound xs" and s: "list_all2 same_terms xs ys"
  shows "enough bound ys \<and> fairRateTargets bound ys = fairRateTargets bound xs"
proof -
  note t = same_terms_spec [OF s]
  have en': "enough bound ys" using en unfolding enough_def by (simp only: t)
  obtain a e where x: "unat a = unat (BitsPerSecond bound) - sum_bits (frozen_rates xs)" "int (unat e) = BurstBytes bound - sum_burst (frozen_rates xs) - burst_needed (map fst xs)"
      "fairRateTargets bound xs = assign_fair a e (of_nat (length (filter open_to (map fst xs)))) 0 xs"
    by (rule fair_cases [OF xs(1) b]) (use en in \<open>auto simp: enough_def\<close>)
  obtain a' e' where y: "unat a' = unat (BitsPerSecond bound) - sum_bits (frozen_rates ys)" "int (unat e') = BurstBytes bound - sum_burst (frozen_rates ys) - burst_needed (map fst ys)"
      "fairRateTargets bound ys = assign_fair a' e' (of_nat (length (filter open_to (map fst ys)))) 0 ys"
    by (rule fair_cases [OF xs(2) b]) (use en' in \<open>auto simp: enough_def\<close>)
  have "unat a' = unat a" "int (unat e') = int (unat e)" using x(1,2) y(1,2) by (simp_all only: t)
  then have "a' = a" "e' = e" by (simp_all add: word_unat_eq_iff [of a'] word_uint_eq_iff [of e'])
  then show ?thesis using en' x(3) y(3) by (simp only: t)
qed

text \<open>Once the next rates are in force the same call asks for nothing but its targets.\<close>

lemma direction_again:
  assumes xs: "xs_ok xs" "xs_ok ys" and b: "validate_rate bound" and en: "enough bound xs" and al: "allocate_direction bound xs = (ts, ns)"
    and s: "list_all2 same_terms xs ys" and c: "map snd ys = ns"
  shows "allocate_direction bound ys = (ts, ts)"
proof -
  note d = direction_spec [OF xs(1) b al]
  have ts: "ts = fairRateTargets bound xs" using al by (simp add: allocate_direction_def Let_def)
  have ty: "fairRateTargets bound ys = ts" using same_targets [OF xs b en s] ts by simp
  have len: "length ys = length ts" "length ys = length xs" 
    using list_all2_lengthD [OF d(1)] d(3) arg_cong [OF c, of length] by simp_all
  let ?s = "fold add_total (map snd ys) \<lparr>rt_bits = 0, rt_high = 0, rt_burst = 0, rt_unlimited = 0\<rparr>" and ?zs = "map2 (\<lambda>(p, c) t. (p, c, t)) ys ts"
  have m: "map cur3 ?zs = map snd ys" "map tgt3 ?zs = ts" using cur3_map2 [OF len(1)] by blast+
  have "next_loop bound ?s ?zs = map tgt3 ?zs"
  proof (rule next_loop_reaches [where ds = "[]"])
    show "totals_hold ?s (sum_bits ([] @ map cur3 ?zs)) (sum_burst ([] @ map cur3 ?zs)) (unlimited_in ([] @ map cur3 ?zs))" unfolding append_Nil m by (rule direction_totals [OF xs(2)])
    show "\<forall>v \<in> set ([] @ map cur3 ?zs). validate_rate v" "length ([] @ map cur3 ?zs) \<le> 32768" unfolding append_Nil m using xs_ok_mem [OF xs(2)] xs(2) by (auto simp: xs_ok_def)
    show "validate_rate bound" by (rule b)
    show "within bound ([] @ map tgt3 ?zs)" unfolding append_Nil m using d(2) en by (simp add: enough_def)
    have vt: "validate_rate (ts ! i)" if "i < length xs" for i using d(1) that by (simp add: list_all2_conv_all_nth target_ok_def)
    then show "\<forall>x \<in> set ?zs. validate_rate (tgt3 x)" using len by (auto simp: in_set_conv_nth tgt3_def case_prod_beta)
    have "at_most (ns ! i) (ts ! i) \<and> (rp_Frozen (fst (xs ! i)) \<longrightarrow> ns ! i = ts ! i)" if i: "i < length xs" for i
      using d(4) [OF i] d(1) i lower_props(3) [OF xs_ok_nth [OF xs(1) i] vt [OF i]] by (auto simp: list_all2_conv_all_nth target_ok_def)
    moreover have "snd (ys ! i) = ns ! i \<and> rp_Frozen (fst (ys ! i)) = rp_Frozen (fst (xs ! i))" if "i < length xs" for i
      using that len s arg_cong [OF c, of "\<lambda>l. l ! i"] by (simp add: list_all2_conv_all_nth same_terms_def)
    ultimately have all: "at_most (snd (ys ! i)) (ts ! i) \<and> (rp_Frozen (fst (ys ! i)) \<longrightarrow> snd (ys ! i) = ts ! i)" if "i < length ys" for i
      using that len(2) by simp
    show "\<forall>x \<in> set ?zs. at_most (cur3 x) (tgt3 x) \<and> (rp_Frozen (fst x) \<longrightarrow> cur3 x = tgt3 x)"
    proof
      fix x
      assume "x \<in> set ?zs"
      then obtain i where "i < length ys" "x = (fst (ys ! i), snd (ys ! i), ts ! i)" using len(1) by (auto simp: in_set_conv_nth case_prod_beta)
      then show "at_most (cur3 x) (tgt3 x) \<and> (rp_Frozen (fst x) \<longrightarrow> cur3 x = tgt3 x)" using all by (simp add: cur3_def tgt3_def)
    qed
  qed
  then show ?thesis unfolding m(2) allocate_direction_def Let_def ty by simp
qed

section \<open>What an allocation promises\<close>

text \<open>The participants in the order of the result, with what each holds in one direction.\<close>

definition holding :: "(Rates \<Rightarrow> Rate) \<Rightarrow> RateParticipant list \<Rightarrow> (RateParticipant \<times> Rate) list" where
  "holding sel ps = map (\<lambda>p. (p, sel (rp_Outstanding p))) (sort_key rp_ID ps)"

lemma allocate_cases:
  assumes "AllocateSharedRates u budget ps = Inr (al, errs)"
  obtains "validate_rates budget = None" "length ps \<le> 32768" "list_all (participant_ok u) (sort_key rp_ID ps)" "\<not> adjacent_equal (map rp_ID (sort_key rp_ID ps))"
    "xs_ok (holding ra_Upload ps)" "xs_ok (holding ra_Download ps)" "length al = length ps" "map al_ID al = map rp_ID (sort_key rp_ID ps)"
    "allocate_direction (ra_Upload budget) (holding ra_Upload ps) = (map (ra_Upload \<circ> al_Target) al, map (ra_Upload \<circ> al_Next) al)"
    "allocate_direction (ra_Download budget) (holding ra_Download ps) = (map (ra_Download \<circ> al_Target) al, map (ra_Download \<circ> al_Next) al)"
    "errs = capacity_error Upload (ra_Upload budget) (sort_key rp_ID ps) @ capacity_error Download (ra_Download budget) (sort_key rp_ID ps)"
proof -
  let ?qs = "sort_key rp_ID ps"
  have g: "validate_rates budget = None" "length ps \<le> 32768" "list_all (participant_ok u) ?qs" "\<not> adjacent_equal (map rp_ID ?qs)"
    using assms by (auto simp: AllocateSharedRates_def Let_def split: if_splits)
  have xs: "xs_ok (holding ra_Upload ps)" "xs_ok (holding ra_Download ps)"
    using g(2,3) by (auto simp: xs_ok_def holding_def list_all_iff participant_ok_def validate_rates_iff)
  obtain tu nu td nd where d: "allocate_direction (ra_Upload budget) (holding ra_Upload ps) = (tu, nu)" "allocate_direction (ra_Download budget) (holding ra_Download ps) = (td, nd)"
    by (metis surj_pair)
  have v: "validate_rate (ra_Upload budget)" "validate_rate (ra_Download budget)" using g(1) by (simp_all add: validate_rates_iff)
  have len: "length tu = length ?qs" "length nu = length ?qs" "length td = length ?qs" "length nd = length ?qs"
    using list_all2_lengthD [OF direction_spec(1) [OF xs(1) v(1) d(1)]] direction_spec(3) [OF xs(1) v(1) d(1)]
      list_all2_lengthD [OF direction_spec(1) [OF xs(2) v(2) d(2)]] direction_spec(3) [OF xs(2) v(2) d(2)] by (simp_all add: holding_def)
  have al: "al = map (\<lambda>(p, (tu, nu), (td, nd)). \<lparr>al_ID = rp_ID p, al_Target = \<lparr>ra_Upload = tu, ra_Download = td\<rparr>, al_Next = \<lparr>ra_Upload = nu, ra_Download = nd\<rparr>\<rparr>)
        (zip ?qs (zip (zip tu nu) (zip td nd)))"
    and errs: "errs = capacity_error Upload (ra_Upload budget) ?qs @ capacity_error Download (ra_Download budget) ?qs"
    using assms g d by (auto simp: AllocateSharedRates_def Let_def holding_def)
  have "length al = length ps" "map al_ID al = map rp_ID ?qs" "map (ra_Upload \<circ> al_Target) al = tu" "map (ra_Upload \<circ> al_Next) al = nu"
      "map (ra_Download \<circ> al_Target) al = td" "map (ra_Download \<circ> al_Next) al = nd"
    using len unfolding al by (auto intro!: nth_equalityI simp: case_prod_beta)
  then show ?thesis using that g xs d errs by simp
qed

lemma sort_key_sorted: "sorted (map f xs) \<Longrightarrow> sort_key f xs = xs"
  by (rule properties_for_sort_key) simp_all

lemma sort_keys: "map f (sort_key f xs) = sort (map f xs)"
  by (rule sym, rule properties_for_sort) simp_all

lemma envelope_upper:
  assumes "map2 envelope cs ns = cs" "length ns = length cs" "\<forall>v \<in> set cs \<union> set ns. validate_rate v"
  shows "list_all2 at_most ns cs"
proof -
  have "at_most (ns ! i) (cs ! i)" if i: "i < length cs" for i
  proof -
    have "envelope (cs ! i) (ns ! i) = cs ! i" using arg_cong [OF assms(1), of "\<lambda>l. l ! i"] i assms(2) by simp
    then show ?thesis using envelope_bounds(2) [of "cs ! i" "ns ! i"] assms(2,3) i by simp
  qed
  then show ?thesis using assms(2) by (simp add: list_all2_conv_all_nth)
qed

lemma direction_safe:
  assumes xs: "xs_ok xs" and b: "validate_rate bound" and al: "allocate_direction bound xs = (ts, ns)"
  shows "(\<forall>v \<in> set ts \<union> set ns. validate_rate v) \<and> (\<forall>i < length xs. rp_Frozen (fst (xs ! i)) \<longrightarrow> ns ! i = snd (xs ! i) \<and> ts ! i = snd (xs ! i))
    \<and> (within bound (map snd xs) \<longrightarrow> within bound (map2 envelope (map snd xs) ns))
    \<and> (\<not> within bound (map snd xs) \<longrightarrow> list_all2 at_most ns (map snd xs)) \<and> (within bound (frozen_rates xs) \<longrightarrow> within bound ts)"
proof -
  note d = direction_spec [OF xs b al]
  have len: "length ts = length xs" using list_all2_lengthD [OF d(1)] by simp
  have vt: "validate_rate (ts ! i) \<and> (rp_Frozen (fst (xs ! i)) \<longrightarrow> ts ! i = snd (xs ! i))" if "i < length xs" for i
    using d(1) that by (simp add: list_all2_conv_all_nth target_ok_def)
  then have "validate_rate (ns ! i)" if "i < length xs" for i using d(4) [OF that] that xs_ok_nth [OF xs that] lower_props(1) by auto
  then have v: "\<forall>v \<in> set ts \<union> set ns. validate_rate v" using vt len d(3) by (auto simp: in_set_conv_nth)
  have "\<forall>v \<in> set (map snd xs) \<union> set ns. validate_rate v" using v xs_ok_mem [OF xs] by auto
  then have "\<not> within bound (map snd xs) \<Longrightarrow> list_all2 at_most ns (map snd xs)" using envelope_upper [OF d(6)] d(3) by simp
  moreover have "ns ! i = snd (xs ! i)" if "i < length xs" "rp_Frozen (fst (xs ! i))" for i using d(4) [OF that(1)] that by auto
  ultimately show ?thesis using v vt d(2,5) by blast
qed

text \<open>C34 An allocation of a shared budget lists the participants by identifier and never oversubscribes: in
  either direction, when the rates held fit the budget they still do after every participant also holds
  its next rate, and when they do not, no next rate exceeds what its participant holds. A frozen
  participant keeps its rates, all targets fit the budget whenever those of the frozen ones do, and
  every rate it hands out is valid. Sums are taken without wrap-around.
\<close>

theorem shared_rates_safe:
  assumes "AllocateSharedRates u budget ps = Inr (al, errs)" and "sel \<in> {ra_Upload, ra_Download}"
  shows "map al_ID al = sort (map rp_ID ps)
    \<and> (\<forall>a \<in> set al. validate_rates (al_Target a) = None \<and> validate_rates (al_Next a) = None)
    \<and> (\<forall>i < length ps. rp_Frozen (sort_key rp_ID ps ! i) \<longrightarrow> sel (al_Next (al ! i)) = sel (rp_Outstanding (sort_key rp_ID ps ! i)))
    \<and> (let now = map snd (holding sel ps); after = map (sel \<circ> al_Next) al
       in (within (sel budget) now \<longrightarrow> within (sel budget) (map2 envelope now after)) \<and> (\<not> within (sel budget) now \<longrightarrow> list_all2 at_most after now))
    \<and> (within (sel budget) (frozen_rates (holding sel ps)) \<longrightarrow> within (sel budget) (map (sel \<circ> al_Target) al))"
  using assms(1)
proof (cases rule: allocate_cases)
  case 1
  have v: "validate_rate (ra_Upload budget)" "validate_rate (ra_Download budget)" using 1(1) by (simp_all add: validate_rates_iff)
  note up = direction_safe [OF 1(5) v(1) 1(9)] and down = direction_safe [OF 1(6) v(2) 1(10)]
  have valid: "\<forall>a \<in> set al. validate_rates (al_Target a) = None \<and> validate_rates (al_Next a) = None" using up down by (auto simp: validate_rates_iff)
  have "(\<forall>i < length ps. rp_Frozen (sort_key rp_ID ps ! i) \<longrightarrow> sel (al_Next (al ! i)) = sel (rp_Outstanding (sort_key rp_ID ps ! i)))"
    using up down assms(2) 1(7) by (auto simp: holding_def)
  then show ?thesis using up down valid assms(2) 1(8) by (auto simp: sort_keys Let_def)
qed

lemma direction_fair:
  assumes xs: "xs_ok xs" and b: "validate_rate bound" and en: "enough bound xs" and al: "allocate_direction bound xs = (ts, ns)"
  shows "sum_bits ts = unat (BitsPerSecond bound) \<and> sum_burst ts = BurstBytes bound
    \<and> (\<forall>i < length xs. \<forall>j < length xs. open_to (fst (xs ! i)) \<and> open_to (fst (xs ! j)) \<longrightarrow>
         unat (BitsPerSecond (ts ! i)) \<le> unat (BitsPerSecond (ts ! j)) + 1 \<and> rp_MinimumBurst (fst (xs ! i)) \<le> BurstBytes (ts ! i)
         \<and> BurstBytes (ts ! i) - rp_MinimumBurst (fst (xs ! i)) \<le> BurstBytes (ts ! j) - rp_MinimumBurst (fst (xs ! j)) + 1)"
proof -
  have ts: "ts = fairRateTargets bound xs" using al by (simp add: allocate_direction_def Let_def)
  let ?n = "length (filter open_to (map fst xs))"
  obtain a e where x: "unat a = unat (BitsPerSecond bound) - sum_bits (frozen_rates xs)" "int (unat e) = BurstBytes bound - sum_burst (frozen_rates xs) - burst_needed (map fst xs)"
      "ts = assign_fair a e (of_nat ?n) 0 xs"
    by (rule fair_cases [OF xs b]) (use en ts in \<open>auto simp: enough_def\<close>)
  note s = assigned_spec [OF xs b en x]
  have near: "split_at m ?n j \<le> split_at m ?n k + 1" for m j k by (simp add: split_at_def)
  have share: "\<exists>k. unat (BitsPerSecond (ts ! i)) = split_at (unat a) ?n k \<and> BurstBytes (ts ! i) = rp_MinimumBurst (fst (xs ! i)) + int (split_at (unat e) ?n k)"
    if "i < length xs" "open_to (fst (xs ! i))" for i
  proof -
    have "fair_share (unat a) (unat e) ?n (xs ! i) (ts ! i)" using s(1) that(1) by (simp add: list_all2_conv_all_nth)
    then show ?thesis using that(2) unfolding fair_share_def case_prod_beta by (auto simp del: filter_map)
  qed
  have "unat (BitsPerSecond (ts ! i)) \<le> unat (BitsPerSecond (ts ! j)) + 1 \<and> rp_MinimumBurst (fst (xs ! i)) \<le> BurstBytes (ts ! i)
         \<and> BurstBytes (ts ! i) - rp_MinimumBurst (fst (xs ! i)) \<le> BurstBytes (ts ! j) - rp_MinimumBurst (fst (xs ! j)) + 1"
    if g: "i < length xs" "j < length xs" "open_to (fst (xs ! i))" "open_to (fst (xs ! j))" for i j
  proof -
    obtain k l where k: "unat (BitsPerSecond (ts ! i)) = split_at (unat a) ?n k" "BurstBytes (ts ! i) = rp_MinimumBurst (fst (xs ! i)) + int (split_at (unat e) ?n k)"
        and l: "unat (BitsPerSecond (ts ! j)) = split_at (unat a) ?n l" "BurstBytes (ts ! j) = rp_MinimumBurst (fst (xs ! j)) + int (split_at (unat e) ?n l)"
      using share [OF g(1,3)] share [OF g(2,4)] by blast
    then show ?thesis using near [of "unat a" k l] near [of "unat e" k l] by linarith
  qed
  then show ?thesis using s(2,3) by blast
qed

text \<open>The participants once every next rate is in force.\<close>

definition in_force :: "RateParticipant list \<Rightarrow> RateAllocation list \<Rightarrow> RateParticipant list" where
  "in_force ps al = map2 (\<lambda>p a. p\<lparr>rp_Outstanding := al_Next a\<rparr>) (sort_key rp_ID ps) al"

lemma in_force_spec:
  assumes al: "AllocateSharedRates u budget ps = Inr (al, errs)"
  shows "sort_key rp_ID (in_force ps al) = in_force ps al" "list_all (participant_ok u) (in_force ps al)" "\<not> adjacent_equal (map rp_ID (in_force ps al))"
    "length (in_force ps al) = length ps" "map rp_ID (in_force ps al) = map rp_ID (sort_key rp_ID ps)"
    "sel \<in> {ra_Upload, ra_Download} \<Longrightarrow> map snd (holding sel (in_force ps al)) = map (sel \<circ> al_Next) al \<and> list_all2 same_terms (holding sel ps) (holding sel (in_force ps al))"
    "map (\<lambda>p. (open_to p, rp_MinimumBurst p)) (in_force ps al) = map (\<lambda>p. (open_to p, rp_MinimumBurst p)) (sort_key rp_ID ps)"
proof -
  let ?qs = "sort_key rp_ID ps"
  have len: "length al = length ?qs" using al by (cases rule: allocate_cases) simp
  show ids: "map rp_ID (in_force ps al) = map rp_ID ?qs" using len by (auto simp: in_force_def intro!: nth_equalityI)
  show l: "length (in_force ps al) = length ps" using len by (simp add: in_force_def)
  have "sorted (map rp_ID (in_force ps al))" unfolding ids by simp
  then show srt: "sort_key rp_ID (in_force ps al) = in_force ps al" by (rule sort_key_sorted)
  have ok: "list_all (participant_ok u) ?qs" "\<not> adjacent_equal (map rp_ID ?qs)" using al by (cases rule: allocate_cases; simp)+
  have "\<forall>a \<in> set al. validate_rates (al_Next a) = None"
    using al
  proof (cases rule: allocate_cases)
    case 1
    then have v: "validate_rate (ra_Upload budget)" "validate_rate (ra_Download budget)" by (simp_all add: validate_rates_iff)
    show ?thesis using direction_safe [OF 1(5) v(1) 1(9)] direction_safe [OF 1(6) v(2) 1(10)] by (auto simp: validate_rates_iff)
  qed
  then show "list_all (participant_ok u) (in_force ps al)"
    using ok(1) len by (simp add: list_all_length in_force_def participant_ok_def)
  show "\<not> adjacent_equal (map rp_ID (in_force ps al))" unfolding ids by (rule ok(2))
  show "map (\<lambda>p. (open_to p, rp_MinimumBurst p)) (in_force ps al) = map (\<lambda>p. (open_to p, rp_MinimumBurst p)) ?qs"
    using len by (auto simp: in_force_def open_to_def intro!: nth_equalityI)
  show "map snd (holding sel (in_force ps al)) = map (sel \<circ> al_Next) al \<and> list_all2 same_terms (holding sel ps) (holding sel (in_force ps al))"
    if sel: "sel \<in> {ra_Upload, ra_Download}"
  proof
    show "map snd (holding sel (in_force ps al)) = map (sel \<circ> al_Next) al"
      unfolding holding_def srt using len by (auto simp: in_force_def intro!: nth_equalityI)
    have "sel (al_Next (al ! i)) = sel (rp_Outstanding (?qs ! i))" if "i < length ?qs" "rp_Frozen (?qs ! i)" for i
      using al
    proof (cases rule: allocate_cases)
      case 1
      then have v: "validate_rate (ra_Upload budget)" "validate_rate (ra_Download budget)" by (simp_all add: validate_rates_iff)
      show ?thesis using direction_safe [OF 1(5) v(1) 1(9)] direction_safe [OF 1(6) v(2) 1(10)] sel that 1(7) by (auto simp: holding_def)
    qed
    then show "list_all2 same_terms (holding sel ps) (holding sel (in_force ps al))"
      unfolding holding_def srt using len by (auto simp: in_force_def list_all2_conv_all_nth same_terms_def)
  qed
qed

lemma capacity_cong:
  assumes "map (\<lambda>p. (open_to p, rp_MinimumBurst p)) ps = map (\<lambda>p. (open_to p, rp_MinimumBurst p)) qs"
  shows "capacity_error dir bound ps = capacity_error dir bound qs"
proof -
  have len: "length ps = length qs" using assms by (rule map_eq_imp_length_eq)
  have "length (filter open_to ps) = length (filter open_to qs) \<and> minimum_burst ps = minimum_burst qs"
    using len assms by (induction ps qs rule: list_induct2) (auto simp: minimum_burst_def)
  then show ?thesis by (simp add: capacity_error_def)
qed

lemma enough_capacity:
  assumes xs: "xs_ok (holding sel ps)" and b: "validate_rate bound" and en: "enough bound (holding sel ps)"
  shows "capacity_error dir bound (sort_key rp_ID ps) = []"
proof -
  let ?qs = "sort_key rp_ID ps"
  have f: "map fst (holding sel ps) = ?qs" by (simp add: holding_def comp_def)
  have "0 \<le> sum_burst (frozen_rates (holding sel ps))"
    using xs_ok_mem [OF xs] valid_rate(1) by (intro sum_list_nonneg) (auto simp: frozen_rates_def)
  then have c: "length (filter open_to ?qs) \<le> unat (BitsPerSecond bound)" "burst_needed ?qs \<le> BurstBytes bound" using en unfolding enough_def f by linarith+
  have "length ?qs \<le> 32768" "\<forall>p \<in> set ?qs. 1 \<le> rp_MinimumBurst p \<and> rp_MinimumBurst p \<le> 2 ^ 20" using xs by (auto simp: xs_ok_def holding_def)
  then have m: "uint (minimum_burst ?qs) = burst_needed ?qs" "length (filter open_to ?qs) \<le> 32768"
    using minimum_burst_sum(1) le_trans [OF length_filter_le [of open_to ?qs]] by simp_all
  have n: "unat (of_nat (length (filter open_to ?qs)) :: u64) = length (filter open_to ?qs)" using m(2) by (simp add: unat_of_nat)
  have u: "uint (word_of_int (BurstBytes bound) :: u64) = BurstBytes bound" using valid_rate(1,2) [OF b] by (intro burst_word) simp_all
  have "\<not> of_nat (length (filter open_to ?qs)) > BitsPerSecond bound" "\<not> minimum_burst ?qs > word_of_int (BurstBytes bound)"
    using c n m(1) u by (simp add: word_less_nat_alt [of "BitsPerSecond bound"] del: unat_of_nat, simp add: word_less_def)
  then show ?thesis by (simp add: capacity_error_def)
qed


text \<open>Three nodes share 12 bits per second: \<open>a\<close> has most of it, \<open>b\<close> cannot be reached and \<open>c\<close> has just joined.\<close>

definition sample_rate :: "u64 \<Rightarrow> int \<Rightarrow> Rate" where
  "sample_rate bits burst = \<lparr>r_Mode = Limited, BitsPerSecond = bits, BurstBytes = burst\<rparr>"

definition sample_shared :: Rates where
  "sample_shared = \<lparr>ra_Upload = sample_rate 12 100, ra_Download = sample_rate 12 100\<rparr>"

definition sample_participants :: "RateParticipant list" where
  "sample_participants =
    [\<lparr>rp_ID = ''c'', rp_Outstanding = no_rates, rp_Eligible = True, rp_Frozen = False, rp_MinimumBurst = 20\<rparr>,
     \<lparr>rp_ID = ''a'', rp_Outstanding = \<lparr>ra_Upload = sample_rate 8 60, ra_Download = sample_rate 8 60\<rparr>, rp_Eligible = True, rp_Frozen = False, rp_MinimumBurst = 20\<rparr>,
     \<lparr>rp_ID = ''b'', rp_Outstanding = \<lparr>ra_Upload = sample_rate 3 10, ra_Download = sample_rate 3 10\<rparr>, rp_Eligible = True, rp_Frozen = True, rp_MinimumBurst = 20\<rparr>]"

definition sample_allocations :: "RateAllocation list" where
  "sample_allocations =
    [\<lparr>al_ID = ''a'', al_Target = \<lparr>ra_Upload = sample_rate 5 45, ra_Download = sample_rate 5 45\<rparr>, al_Next = \<lparr>ra_Upload = sample_rate 5 45, ra_Download = sample_rate 5 45\<rparr>\<rparr>,
     \<lparr>al_ID = ''b'', al_Target = \<lparr>ra_Upload = sample_rate 3 10, ra_Download = sample_rate 3 10\<rparr>, al_Next = \<lparr>ra_Upload = sample_rate 3 10, ra_Download = sample_rate 3 10\<rparr>\<rparr>,
     \<lparr>al_ID = ''c'', al_Target = \<lparr>ra_Upload = sample_rate 4 45, ra_Download = sample_rate 4 45\<rparr>, al_Next = no_rates\<rparr>]"

lemma sample_allocated: "AllocateSharedRates plain_uuid sample_shared sample_participants = Inr (sample_allocations, [])"
  by code_simp

lemma sample_enough: "sel \<in> {ra_Upload, ra_Download} \<Longrightarrow> enough (sel sample_shared) (holding sel sample_participants)"
proof -
  have "enough (ra_Upload sample_shared) (holding ra_Upload sample_participants)" "enough (ra_Download sample_shared) (holding ra_Download sample_participants)"
    by code_simp+
  then show "sel \<in> {ra_Upload, ra_Download} \<Longrightarrow> ?thesis" by auto
qed

theorem shared_rates_safe_witness:
  "AllocateSharedRates plain_uuid sample_shared sample_participants = Inr (sample_allocations, [])
   \<and> map al_ID sample_allocations = sort (map rp_ID sample_participants)
   \<and> within (ra_Upload sample_shared) (map2 envelope (map snd (holding ra_Upload sample_participants)) (map (ra_Upload \<circ> al_Next) sample_allocations))
   \<and> within (ra_Upload sample_shared) (map (ra_Upload \<circ> al_Target) sample_allocations)"
proof -
  have "within (ra_Upload sample_shared) (map snd (holding ra_Upload sample_participants))"
    "within (ra_Upload sample_shared) (frozen_rates (holding ra_Upload sample_participants))" by code_simp+
  then show ?thesis using shared_rates_safe [OF sample_allocated, of ra_Upload] sample_allocated by (simp add: Let_def)
qed


end
