(* ===== verification/Lifecycle.thy ===== *)
theory Lifecycle
  imports Rates
begin

text \<open>
  The service terms of a client (\<open>internal/controlplane/client_lifecycle.go\<close>, \<open>client_drain.go\<close>,
  \<open>client_cancel.go\<close>): binding a panel client, its credentials, and the transitions from one term to the
  next, which leave the old term draining until every grant of it has durably stopped. \<open>fresh\<close> is the
  identifier a call of \<open>uuid.NewString\<close> gives, \<open>now_ms\<close> the time in milliseconds, and the digest of a
  request is a parameter.
\<close>

section \<open>Clients and their credentials\<close>

definition panel_row :: "int \<Rightarrow> FleetDB \<Rightarrow> (string \<times> FleetClient) option" where
  "panel_row panel d = List.find (\<lambda>(k, c). cl_PanelClientID c = Some panel) (entries_by_key (f_clients d))"

definition bind_tx :: "string \<Rightarrow> int \<Rightarrow> bytes \<Rightarrow> FleetDB \<Rightarrow> ((string \<times> FleetClient) \<times> FleetDB) result" where
  "bind_tx fresh panel digest d = (case lockAuthority d of Some err \<Rightarrow> Inl err | None \<Rightarrow>
     if panel |\<notin>| f_panel_clients d then Inl ErrRecordNotFound
     else let d1 = (if fresh |\<in>| fmdom (f_clients d) \<or> panel_row panel d \<noteq> None then d
            else d\<lparr>f_clients := fmupd fresh \<lparr>cl_PanelClientID = Some panel, cl_Revision = 1, cl_CredentialGeneration = 1, cl_CredentialDigest = digest,
                   cl_CurrentTermID = None, cl_PendingTermID = None, cl_Owned = False\<rparr> (f_clients d)\<rparr>)
     in case panel_row panel d1 of None \<Rightarrow> Inl ErrRecordNotFound | Some (k, c) \<Rightarrow>
        if cl_CredentialDigest c \<noteq> digest then Inl ErrConflict else Inr ((k, c), d1))"

definition BindClient :: "string \<Rightarrow> int \<Rightarrow> bytes \<Rightarrow> FleetDB \<Rightarrow> (string \<times> FleetClient) result \<times> FleetDB" where
  "BindClient fresh panel digest d = (if panel \<le> 0 \<or> length digest \<noteq> 32 then (Inl ErrInvalid, d) else on_fleet (bind_tx fresh panel digest) d)"

definition reconcile_tx :: "string \<Rightarrow> u64 \<Rightarrow> bytes \<Rightarrow> FleetDB \<Rightarrow> (FleetClient \<times> FleetDB) result" where
  "reconcile_tx client expected digest d = (case lockAuthority d of Some err \<Rightarrow> Inl err | None \<Rightarrow>
     case lockClient client d of Inl err \<Rightarrow> Inl err | Inr c \<Rightarrow>
       if cl_CredentialDigest c = digest \<and> expected \<le> word_of_int (cl_CredentialGeneration c) then Inr (c, d)
       else if word_of_int (cl_CredentialGeneration c) \<noteq> expected \<or> cl_CredentialGeneration c = maxInt64 \<or> cl_Revision c = maxInt64 then Inl ErrRevision
       else let c' = c\<lparr>cl_CredentialGeneration := cl_CredentialGeneration c + 1, cl_Revision := cl_Revision c + 1, cl_CredentialDigest := digest\<rparr>
            in Inr (c', d\<lparr>f_clients := fmupd client c' (f_clients d)\<rparr>))"

definition ReconcileCredentials :: "'u uuid_lib \<Rightarrow> string \<Rightarrow> u64 \<Rightarrow> bytes \<Rightarrow> FleetDB \<Rightarrow> FleetClient result \<times> FleetDB" where
  "ReconcileCredentials u client expected digest d =
     (if \<not> ValidID u client \<or> expected = 0 \<or> expected > maxInt64u \<or> length digest \<noteq> 32 then (Inl ErrInvalid, d)
      else on_fleet (reconcile_tx client expected digest) d)"

section \<open>Operations on terms\<close>

record TermSpec =
  ts_QuotaBytes :: int
  ts_Unlimited :: bool
  ts_OpeningUsedBytes :: int
  ts_OpeningUploaded :: int
  ts_OpeningDownloaded :: int
  ts_DurationMillis :: int
  ts_ExpiresUnixMilli :: int
  ts_Rates :: Rates

record TransitionRequest =
  tq_OperationID :: string
  tq_ClientID :: string
  tq_ExpectedRevision :: u64
  tq_ExpectedCredentialGeneration :: u64
  tq_ExpectedTermID :: string
  tq_SourcePolicyDigest :: bytes
  tq_Kind :: string
  tq_Spec :: TermSpec

record CompleteTransitionRequest =
  cq_OperationID :: string
  cq_ClientID :: string
  cq_PendingTermID :: string
  cq_ExpectedRevision :: u64
  cq_ExpectedCredentialGeneration :: u64
  cq_SourcePolicyDigest :: bytes

record CancelTransitionRequest =
  xq_OperationID :: string
  xq_ClientID :: string
  xq_PendingTermID :: string
  xq_ExpectedRevision :: u64
  xq_ExpectedCredentialGeneration :: u64

abbreviation Activation :: string where "Activation \<equiv> ''activation''"
abbreviation Renewal :: string where "Renewal \<equiv> ''renewal''"
abbreviation TrafficReset :: string where "TrafficReset \<equiv> ''traffic_reset''"

definition validTermSpec :: "string \<Rightarrow> TermSpec \<Rightarrow> bool" where
  "validTermSpec kind s =
     (if ts_OpeningUploaded s < 0 \<or> ts_OpeningDownloaded s < 0 \<or> exceeds (ts_OpeningUploaded s) (ts_OpeningDownloaded s)
         \<or> ts_OpeningUploaded s + ts_OpeningDownloaded s \<noteq> ts_OpeningUsedBytes s then False
      else if ts_QuotaBytes s < 0 \<or> ts_OpeningUsedBytes s < 0 \<or> ts_Unlimited s \<and> ts_QuotaBytes s \<noteq> 0
         \<or> \<not> ts_Unlimited s \<and> ts_OpeningUsedBytes s > ts_QuotaBytes s \<or> ts_DurationMillis s < 0 \<or> ts_ExpiresUnixMilli s < 0
         \<or> ts_DurationMillis s \<noteq> 0 \<and> ts_ExpiresUnixMilli s \<noteq> 0 \<or> validate_rates (ts_Rates s) \<noteq> None then False
      else if kind = Activation then True
      else if kind = Renewal then ts_OpeningUsedBytes s = 0 \<and> ts_DurationMillis s > 0 \<and> ts_ExpiresUnixMilli s = 0
      else if kind = TrafficReset then ts_OpeningUsedBytes s = 0 \<and> ts_DurationMillis s = 0 \<and> ts_ExpiresUnixMilli s = 0
      else False)"

text \<open>An operation is claimed under its identifier; a repeated one gives the saved result.\<close>

definition lifecycle_tx :: "string \<Rightarrow> bytes \<Rightarrow> (FleetDB \<Rightarrow> (TransitionResult \<times> FleetDB) result) \<Rightarrow> FleetDB \<Rightarrow> (TransitionResult \<times> FleetDB) result" where
  "lifecycle_tx operation digest run d = (case lockAuthority d of Some err \<Rightarrow> Inl err | None \<Rightarrow>
     case fmlookup (f_operations d) operation of
       Some op \<Rightarrow>
         if op_Digest op \<noteq> digest then Inl ErrConflict
         else (case op_Result op of OpTransition r \<Rightarrow> Inr (r\<lparr>tr_Replayed := True\<rparr>, d) | _ \<Rightarrow> Inl ErrDecode)
     | None \<Rightarrow>
         case run (d\<lparr>f_operations := fmupd operation \<lparr>op_Digest = digest, op_Result = OpNone\<rparr> (f_operations d)\<rparr>) of
           Inl err \<Rightarrow> Inl err
         | Inr (r, d') \<Rightarrow> Inr (r, d'\<lparr>f_operations := fmupd operation \<lparr>op_Digest = digest, op_Result = OpTransition r\<rparr> (f_operations d')\<rparr>))"

definition lifecycleOperation :: "'u uuid_lib \<Rightarrow> string \<Rightarrow> bytes \<Rightarrow> (FleetDB \<Rightarrow> (TransitionResult \<times> FleetDB) result) \<Rightarrow> FleetDB \<Rightarrow> TransitionResult result \<times> FleetDB" where
  "lifecycleOperation u operation digest run d = (if \<not> ValidID u operation then (Inl ErrInvalid, d) else on_fleet (lifecycle_tx operation digest run) d)"

definition startTerm :: "FleetTerm \<Rightarrow> int \<Rightarrow> FleetTerm result" where
  "startTerm t now_ms =
     (if tm_DurationMillis t > maxInt64 - now_ms then Inl ErrInvalid
      else let t' = t\<lparr>tm_StartedUnixMilli := now_ms, tm_ExpiresUnixMilli := (if tm_DurationMillis t > 0 then now_ms + tm_DurationMillis t else tm_ExpiresUnixMilli t)\<rparr>
      in if tm_Kind t' \<noteq> TrafficReset \<and> tm_ExpiresUnixMilli t' \<noteq> 0 \<and> tm_ExpiresUnixMilli t' \<le> now_ms then Inl ErrInvalid else Inr t')"

definition activateRatePool :: "'u uuid_lib \<Rightarrow> string \<Rightarrow> string \<Rightarrow> FleetTerm \<Rightarrow> FleetDB \<Rightarrow> (unit \<times> FleetDB) result" where
  "activateRatePool u client k t d =
     (let revision = (case fmlookup (f_rate_budgets d) client of None \<Rightarrow> 0 | Some b \<Rightarrow> rb_Revision b)
      in if revision = maxInt64 then Inl ErrRevision
         else case decodeRates (tm_Rates t) of Inl err \<Rightarrow> Inl err | Inr rates \<Rightarrow>
           set_rate_budget_tx u client client k (word_of_int (revision + 1)) rates d)"

text \<open>The highest generation of the terms of a client.\<close>

definition term_generation :: "string \<Rightarrow> FleetDB \<Rightarrow> int" where
  "term_generation client d = fold (\<lambda>(k, t) n. if tm_ClientID t = client then max n (tm_Generation t) else n) (entries_by_key (f_terms d)) 0"

definition term_of :: "string \<Rightarrow> string \<Rightarrow> FleetDB \<Rightarrow> FleetTerm result" where
  "term_of k client d = (case fmlookup (f_terms d) k of None \<Rightarrow> Inl ErrRecordNotFound
     | Some t \<Rightarrow> if tm_ClientID t \<noteq> client then Inl ErrRecordNotFound else Inr t)"

text \<open>The rows of the new term, refused where a primary key or a unique index is taken.\<close>

definition create_term :: "string \<Rightarrow> FleetTerm \<Rightarrow> TermSpec \<Rightarrow> FleetDB \<Rightarrow> FleetDB result" where
  "create_term k t s d =
     (if k |\<in>| fmdom (f_budgets d) \<or> k |\<in>| fmdom (f_terms d) \<or> k |\<in>| tm_BudgetID |`| fmran (f_terms d) \<or> k |\<in>| fmdom (f_term_usage d)
         \<or> (\<exists>x \<in> fset (fmran (f_terms d)). tm_ClientID x = tm_ClientID t \<and> tm_Generation x = tm_Generation t)
      then Inl (StorageErr ''unique constraint'')
      else Inr (d\<lparr>f_budgets := fmupd k \<lparr>b_LimitBytes = ts_QuotaBytes s, b_Unlimited = ts_Unlimited s, b_UsedBytes = ts_OpeningUsedBytes s, b_ReservedBytes = 0\<rparr> (f_budgets d),
             f_terms := fmupd k t (f_terms d),
             f_term_usage := fmupd k \<lparr>tu_Uploaded = 0, tu_Downloaded = 0, tu_ObservedUnixMilli = 0, tu_ReceivedUnixMilli = 0\<rparr> (f_term_usage d)\<rparr>))"

definition set_state :: "string \<Rightarrow> string \<Rightarrow> FleetDB \<Rightarrow> FleetDB" where
  "set_state k st d = (case fmlookup (f_terms d) k of None \<Rightarrow> d | Some t \<Rightarrow> d\<lparr>f_terms := fmupd k (t\<lparr>tm_State := st\<rparr>) (f_terms d)\<rparr>)"

text \<open>The term a transition starts from: the new term, the client and the tables, once the old term drains.\<close>

definition open_term :: "TransitionRequest \<Rightarrow> int \<Rightarrow> string \<Rightarrow> FleetClient \<Rightarrow> FleetTerm \<Rightarrow> FleetDB \<Rightarrow> (FleetTerm \<times> FleetClient \<times> FleetDB) result" where
  "open_term q now_ms fresh c t d =
     (if tq_Kind q = Activation then
        (if cl_CurrentTermID c \<noteq> None then Inl ErrConflict
         else case startTerm t now_ms of Inl err \<Rightarrow> Inl err | Inr t' \<Rightarrow> Inr (t', c\<lparr>cl_CurrentTermID := Some fresh\<rparr>, d))
      else case cl_CurrentTermID c of None \<Rightarrow> Inl ErrScope | Some current \<Rightarrow>
        case term_of current (tq_ClientID q) d of Inl err \<Rightarrow> Inl err | Inr previous \<Rightarrow>
        if tm_State previous \<noteq> ''active'' \<or> tm_Generation previous = maxInt64
           \<or> tq_Kind q = Renewal \<and> (tm_ExpiresUnixMilli previous = 0 \<or> tm_ExpiresUnixMilli previous > now_ms) then Inl ErrRevision
        else Inr (t\<lparr>tm_PredecessorID := Some current, tm_State := ''pending'',
                    tm_ExpiresUnixMilli := (if tq_Kind q = TrafficReset then tm_ExpiresUnixMilli previous else tm_ExpiresUnixMilli t)\<rparr>,
                  c\<lparr>cl_PendingTermID := Some fresh\<rparr>, set_state current ''draining'' d))"

definition transition_run :: "'u uuid_lib \<Rightarrow> string \<Rightarrow> int \<Rightarrow> TransitionRequest \<Rightarrow> FleetDB \<Rightarrow> (TransitionResult \<times> FleetDB) result" where
  "transition_run u fresh now_ms q d = (case lockClient (tq_ClientID q) d of Inl err \<Rightarrow> Inl err | Inr c \<Rightarrow>
     if word_of_int (cl_Revision c) \<noteq> tq_ExpectedRevision q \<or> word_of_int (cl_CredentialGeneration c) \<noteq> tq_ExpectedCredentialGeneration q
        \<or> cl_Revision c = maxInt64 then Inl ErrRevision
     else if cl_PendingTermID c \<noteq> None then Inl ErrDrain
     else if (case cl_CurrentTermID c of None \<Rightarrow> '''' | Some k \<Rightarrow> k) \<noteq> tq_ExpectedTermID q then Inl ErrRevision
     else let generation = term_generation (tq_ClientID q) d
     in if generation = maxInt64 then Inl ErrRevision
        else let s = tq_Spec q;
                 t = \<lparr>tm_ClientID = tq_ClientID q, tm_Generation = generation + 1, tm_PredecessorID = None, tm_Kind = tq_Kind q, tm_State = ''active'',
                      tm_CredentialGeneration = cl_CredentialGeneration c, tm_SourcePolicyDigest = tq_SourcePolicyDigest q, tm_BudgetID = fresh,
                      tm_DurationMillis = ts_DurationMillis s, tm_StartedUnixMilli = 0, tm_ExpiresUnixMilli = ts_ExpiresUnixMilli s, tm_Rates = ts_Rates s,
                      tm_OpeningUploaded = ts_OpeningUploaded s, tm_OpeningDownloaded = ts_OpeningDownloaded s\<rparr>
        in case open_term q now_ms fresh c t d of Inl err \<Rightarrow> Inl err | Inr (t', c', d1) \<Rightarrow>
           case create_term fresh t' s d1 of Inl err \<Rightarrow> Inl err | Inr d2 \<Rightarrow>
           let c'' = c'\<lparr>cl_Revision := cl_Revision c' + 1\<rparr>; d3 = d2\<lparr>f_clients := fmupd (tq_ClientID q) c'' (f_clients d2)\<rparr>;
               r = \<lparr>tr_Client = (tq_ClientID q, c''), tr_Term = (fresh, t'), tr_PendingDrain = (tm_State t' = ''pending''), tr_Replayed = False\<rparr>
           in if tm_State t' = ''active'' then (case activateRatePool u (tq_ClientID q) fresh t' d3 of Inl err \<Rightarrow> Inl err | Inr (_, d4) \<Rightarrow> Inr (r, d4))
              else Inr (r, d3))"

definition transition_check :: "'u uuid_lib \<Rightarrow> TransitionRequest \<Rightarrow> bool" where
  "transition_check u q \<longleftrightarrow> ValidID u (tq_ClientID q) \<and> tq_ExpectedRevision q \<noteq> 0 \<and> tq_ExpectedRevision q \<le> maxInt64u
     \<and> tq_ExpectedCredentialGeneration q \<noteq> 0 \<and> tq_ExpectedCredentialGeneration q \<le> maxInt64u
     \<and> (tq_ExpectedTermID q = '''' \<or> ValidID u (tq_ExpectedTermID q)) \<and> length (tq_SourcePolicyDigest q) = 32 \<and> validTermSpec (tq_Kind q) (tq_Spec q)"

definition Transition :: "'u uuid_lib \<Rightarrow> (TransitionRequest \<Rightarrow> bytes) \<Rightarrow> string \<Rightarrow> int \<Rightarrow> TransitionRequest \<Rightarrow> FleetDB \<Rightarrow> TransitionResult result \<times> FleetDB" where
  "Transition u dig fresh now_ms q d =
     (if \<not> transition_check u q then (Inl ErrInvalid, d) else lifecycleOperation u (tq_OperationID q) (dig q) (transition_run u fresh now_ms q) d)"

section \<open>Draining a term\<close>

fun batches :: "nat \<Rightarrow> 'a list \<Rightarrow> 'a list list" where
  "batches n xs = (if xs = [] \<or> n = 0 then [] else take n xs # batches n (drop n xs))"

fun stopped_shares :: "string \<Rightarrow> string list \<Rightarrow> FleetDB \<Rightarrow> error option" where
  "stopped_shares client [] d = None"
| "stopped_shares client (g # gs) d = (case (fmlookup (f_rate_shares d) g, fmlookup (f_grant_stops d) g) of
      (Some s, Some stop) \<Rightarrow>
        if rs_BudgetID s \<noteq> client \<or> gs_DeploymentRevision stop = 0 \<or> gs_RateRevision stop > rs_AppliedRevision s then Some ErrDrain
        else (case decodeRates (rs_Outstanding s) of Inl err \<Rightarrow> Some err
            | Inr r \<Rightarrow> if r \<noteq> no_rates then Some ErrDrain else stopped_shares client gs d)
    | _ \<Rightarrow> Some ErrDrain)"

definition stopped_batch :: "string \<Rightarrow> string list \<Rightarrow> FleetDB \<Rightarrow> error option" where
  "stopped_batch client gs d =
     (if list_ex (\<lambda>g. g |\<notin>| fmdom (f_rate_shares d) \<or> g |\<notin>| fmdom (f_grant_stops d)) gs then Some ErrDrain else stopped_shares client gs d)"

fun first_error :: "('a \<Rightarrow> error option) \<Rightarrow> 'a list \<Rightarrow> error option" where
  "first_error f [] = None"
| "first_error f (x # xs) = (case f x of Some err \<Rightarrow> Some err | None \<Rightarrow> first_error f xs)"

definition requireStoppedGrants :: "string \<Rightarrow> string \<Rightarrow> FleetDB \<Rightarrow> error option" where
  "requireStoppedGrants client t d = first_error (\<lambda>gs. stopped_batch client gs d)
     (batches 1000 (map fst (filter (\<lambda>(k, g). fg_ClientID g = client \<and> fg_TermID g = t) (entries_by_key (f_grants d)))))"

text \<open>The client, the pending and the current term a completion or a cancellation is about.\<close>

definition pending_terms :: "string \<Rightarrow> u64 \<Rightarrow> u64 \<Rightarrow> string \<Rightarrow> FleetDB \<Rightarrow> (FleetClient \<times> FleetTerm \<times> string \<times> FleetTerm) result" where
  "pending_terms client revision generation pend d = (case lockClient client d of Inl err \<Rightarrow> Inl err | Inr c \<Rightarrow>
     if word_of_int (cl_Revision c) \<noteq> revision \<or> word_of_int (cl_CredentialGeneration c) \<noteq> generation \<or> cl_Revision c = maxInt64
        \<or> cl_PendingTermID c \<noteq> Some pend then Inl ErrRevision
     else case cl_CurrentTermID c of None \<Rightarrow> Inl ErrRevision | Some current \<Rightarrow>
       case term_of pend client d of Inl err \<Rightarrow> Inl err | Inr t \<Rightarrow>
       case term_of current client d of Inl err \<Rightarrow> Inl err | Inr previous \<Rightarrow>
       if tm_State t \<noteq> ''pending'' \<or> tm_State previous \<noteq> ''draining'' \<or> tm_PredecessorID t \<noteq> Some current then Inl ErrRevision
       else Inr (c, t, current, previous))"

definition complete_run :: "'u uuid_lib \<Rightarrow> int \<Rightarrow> CompleteTransitionRequest \<Rightarrow> FleetDB \<Rightarrow> (TransitionResult \<times> FleetDB) result" where
  "complete_run u now_ms q d = (case pending_terms (cq_ClientID q) (cq_ExpectedRevision q) (cq_ExpectedCredentialGeneration q) (cq_PendingTermID q) d of
      Inl err \<Rightarrow> Inl err
    | Inr (c, t, current, previous) \<Rightarrow>
        if tm_SourcePolicyDigest t \<noteq> cq_SourcePolicyDigest q then Inl ErrRevision
        else case fmlookup (f_rate_budgets d) (cq_ClientID q) of None \<Rightarrow> Inl ErrRecordNotFound | Some rates \<Rightarrow>
          if rb_ClientID rates \<noteq> cq_ClientID q then Inl ErrRecordNotFound
          else case requireStoppedGrants (cq_ClientID q) current d of Some err \<Rightarrow> Inl err | None \<Rightarrow>
          case startTerm t now_ms of Inl err \<Rightarrow> Inl err | Inr t' \<Rightarrow>
          let t'' = t'\<lparr>tm_State := ''active'', tm_CredentialGeneration := cl_CredentialGeneration c\<rparr>;
              d1 = set_state current ''closed'' (d\<lparr>f_terms := fmupd (cq_PendingTermID q) t'' (f_terms d)\<rparr>);
              c' = c\<lparr>cl_CurrentTermID := Some (cq_PendingTermID q), cl_PendingTermID := None, cl_Revision := cl_Revision c + 1\<rparr>;
              d2 = d1\<lparr>f_clients := fmupd (cq_ClientID q) c' (f_clients d1)\<rparr>
          in case activateRatePool u (cq_ClientID q) (cq_PendingTermID q) t'' d2 of Inl err \<Rightarrow> Inl err
             | Inr (_, d3) \<Rightarrow> Inr (\<lparr>tr_Client = (cq_ClientID q, c'), tr_Term = (cq_PendingTermID q, t''), tr_PendingDrain = False, tr_Replayed = False\<rparr>, d3))"

definition CompleteTransition :: "'u uuid_lib \<Rightarrow> (CompleteTransitionRequest \<Rightarrow> bytes) \<Rightarrow> int \<Rightarrow> CompleteTransitionRequest \<Rightarrow> FleetDB \<Rightarrow> TransitionResult result \<times> FleetDB" where
  "CompleteTransition u dig now_ms q d =
     (if \<not> ValidID u (cq_ClientID q) \<or> \<not> ValidID u (cq_PendingTermID q) \<or> cq_ExpectedRevision q = 0 \<or> cq_ExpectedRevision q > maxInt64u
         \<or> cq_ExpectedCredentialGeneration q = 0 \<or> cq_ExpectedCredentialGeneration q > maxInt64u \<or> length (cq_SourcePolicyDigest q) \<noteq> 32 then (Inl ErrInvalid, d)
      else lifecycleOperation u (cq_OperationID q) (dig q) (complete_run u now_ms q) d)"

definition cancel_run :: "CancelTransitionRequest \<Rightarrow> FleetDB \<Rightarrow> (TransitionResult \<times> FleetDB) result" where
  "cancel_run q d = (case pending_terms (xq_ClientID q) (xq_ExpectedRevision q) (xq_ExpectedCredentialGeneration q) (xq_PendingTermID q) d of
      Inl err \<Rightarrow> Inl err
    | Inr (c, t, current, previous) \<Rightarrow>
        let d1 = set_state current ''active'' (set_state (xq_PendingTermID q) ''closed'' d);
            c' = c\<lparr>cl_PendingTermID := None, cl_Revision := cl_Revision c + 1\<rparr>
        in Inr (\<lparr>tr_Client = (xq_ClientID q, c'), tr_Term = (current, previous\<lparr>tm_State := ''active''\<rparr>), tr_PendingDrain = False, tr_Replayed = False\<rparr>,
                d1\<lparr>f_clients := fmupd (xq_ClientID q) c' (f_clients d1)\<rparr>))"

definition CancelTransition :: "'u uuid_lib \<Rightarrow> (CancelTransitionRequest \<Rightarrow> bytes) \<Rightarrow> CancelTransitionRequest \<Rightarrow> FleetDB \<Rightarrow> TransitionResult result \<times> FleetDB" where
  "CancelTransition u dig q d =
     (if \<not> ValidID u (xq_ClientID q) \<or> \<not> ValidID u (xq_PendingTermID q) \<or> xq_ExpectedRevision q = 0 \<or> xq_ExpectedRevision q > maxInt64u
         \<or> xq_ExpectedCredentialGeneration q = 0 \<or> xq_ExpectedCredentialGeneration q > maxInt64u then (Inl ErrInvalid, d)
      else lifecycleOperation u (xq_OperationID q) (dig q) (cancel_run q) d)"

section \<open>Stopping the grants of a term\<close>

text \<open>A grant is stopped by telling its node the rates that let nothing through; what it holds is kept until the node has confirmed them.\<close>

definition zeroStopRateShare :: "string \<Rightarrow> FleetGrant \<Rightarrow> FleetRateShare \<Rightarrow> FleetDB \<Rightarrow> (FleetRateShare \<times> FleetDB) result" where
  "zeroStopRateShare k g expected d = (case First (f_clients d) (fg_ClientID g) of Inl err \<Rightarrow> Inl err | Inr c \<Rightarrow>
     if \<not> cl_Owned c then Inl ErrStopComposition
     else case First (f_rate_budgets d) (rs_BudgetID expected) of Inl err \<Rightarrow> Inl err | Inr pool \<Rightarrow>
     if rb_ClientID pool \<noteq> fg_ClientID g then Inl ErrRecordNotFound
     else case First (f_rate_shares d) k of Inl err \<Rightarrow> Inl err | Inr s \<Rightarrow>
     if s \<noteq> expected \<or> rs_Revision s = maxInt64 then Inl ErrRevision
     else case decodeRates (rs_Outstanding s) of Inl err \<Rightarrow> Inl err | Inr _ \<Rightarrow>
       let s' = s\<lparr>rs_Revision := rs_Revision s + 1, rs_Desired := no_rates\<rparr>
       in Inr (s', d\<lparr>f_rate_shares := fmupd k s' (f_rate_shares d)\<rparr>))"

text \<open>
  What the receipt of one authority update does to the share and the stop of its grant: \<open>revision\<close> and
  \<open>base\<close> are those of the row the update was delivered from, \<open>rates\<close> and \<open>enabled\<close> are of the update.
\<close>

definition acknowledge_update :: "string \<Rightarrow> int \<Rightarrow> int \<Rightarrow> Rates \<Rightarrow> bool \<Rightarrow> FleetDB \<Rightarrow> (unit \<times> FleetDB) result" where
  "acknowledge_update k revision base rates enabled d = (case First (f_rate_shares d) k of Inl err \<Rightarrow> Inl err | Inr s \<Rightarrow>
     case decodeRates (rs_Desired s) of Inl err \<Rightarrow> Inl err | Inr desired \<Rightarrow>
     if rs_Revision s \<noteq> revision \<or> desired \<noteq> rates then Inl ErrRevision
     else Inr ((), d\<lparr>f_rate_shares := fmupd k (s\<lparr>rs_AppliedRevision := revision, rs_Outstanding := rs_Desired s\<rparr>) (f_rate_shares d),
                     f_grant_stops := (if enabled then fmdrop k (f_grant_stops d)
                       else fmupd k \<lparr>gs_DeploymentRevision = base, gs_RateRevision = revision\<rparr> (f_grant_stops d))\<rparr>))"

section \<open>What the operations on terms do\<close>

definition opening_budget :: "TermSpec \<Rightarrow> FleetBudget" where
  "opening_budget s = \<lparr>b_LimitBytes = ts_QuotaBytes s, b_Unlimited = ts_Unlimited s, b_UsedBytes = ts_OpeningUsedBytes s, b_ReservedBytes = 0\<rparr>"

lemma lockClient_row: "lockClient k d = Inr c \<longleftrightarrow> fmlookup (f_clients d) k = Some c \<and> cl_PanelClientID c \<noteq> None"
  by (auto simp: lockClient_def First_def split: option.splits)

lemma term_of_row: "term_of t k d = Inr x \<longleftrightarrow> fmlookup (f_terms d) t = Some x \<and> tm_ClientID x = k"
  by (auto simp: term_of_def split: option.splits)

lemma startTerm_fields:
  assumes "startTerm t now_ms = Inr t'"
  shows "tm_ClientID t' = tm_ClientID t" "tm_State t' = tm_State t" "tm_PredecessorID t' = tm_PredecessorID t"
  using assms by (auto simp: startTerm_def Let_def split: if_splits)

lemma create_term_cases:
  assumes "create_term k t s d = Inr d'"
  obtains us where "k |\<notin>| fmdom (f_budgets d)" "k |\<notin>| fmdom (f_terms d)"
    "d' = d\<lparr>f_budgets := fmupd k (opening_budget s) (f_budgets d), f_terms := fmupd k t (f_terms d), f_term_usage := us\<rparr>"
  using assms unfolding create_term_def opening_budget_def by (auto split: if_split_asm)

lemma activateRatePool_cases:
  assumes "activateRatePool u client k t d = Inr (x, d')"
  obtains revision where "set_rate_budget_tx u client client k revision (tm_Rates t) d = Inr ((), d')"
  using assms by (auto simp: activateRatePool_def Let_def decodeRates_iff split: if_splits sum.splits)

lemma transition_run_cases:
  assumes "transition_run u fresh now_ms q d = Inr (r, d')"
  obtains
    (start) c t us n revision d1 where "fmlookup (f_clients d) (tq_ClientID q) = Some c" "cl_CurrentTermID c = None" "cl_PendingTermID c = None"
      "fresh |\<notin>| fmdom (f_budgets d)" "fresh |\<notin>| fmdom (f_terms d)" "tm_ClientID t = tq_ClientID q" "tm_State t = ''active''"
      "d1 = d\<lparr>f_budgets := fmupd fresh (opening_budget (tq_Spec q)) (f_budgets d), f_terms := fmupd fresh t (f_terms d), f_term_usage := us,
              f_clients := fmupd (tq_ClientID q) (c\<lparr>cl_CurrentTermID := Some fresh, cl_Revision := n\<rparr>) (f_clients d)\<rparr>"
      "set_rate_budget_tx u (tq_ClientID q) (tq_ClientID q) fresh revision (tm_Rates t) d1 = Inr ((), d')"
  | (follow) c current previous t us n where "fmlookup (f_clients d) (tq_ClientID q) = Some c" "cl_CurrentTermID c = Some current" "cl_PendingTermID c = None"
      "fmlookup (f_terms d) current = Some previous" "tm_ClientID previous = tq_ClientID q" "tm_State previous = ''active''"
      "fresh |\<notin>| fmdom (f_budgets d)" "fresh |\<notin>| fmdom (f_terms d)"
      "tm_ClientID t = tq_ClientID q" "tm_State t = ''pending''" "tm_PredecessorID t = Some current"
      "d' = d\<lparr>f_budgets := fmupd fresh (opening_budget (tq_Spec q)) (f_budgets d),
              f_terms := fmupd fresh t (fmupd current (previous\<lparr>tm_State := ''draining''\<rparr>) (f_terms d)), f_term_usage := us,
              f_clients := fmupd (tq_ClientID q) (c\<lparr>cl_PendingTermID := Some fresh, cl_Revision := n\<rparr>) (f_clients d)\<rparr>"
proof -
  obtain c where c: "lockClient (tq_ClientID q) d = Inr c" using assms by (auto simp: transition_run_def split: sum.splits)
  note body = assms [unfolded transition_run_def c sum.case Let_def]
  have pend: "cl_PendingTermID c = None" using body by (auto split: if_splits)
  define t where "t = \<lparr>tm_ClientID = tq_ClientID q, tm_Generation = term_generation (tq_ClientID q) d + 1, tm_PredecessorID = None, tm_Kind = tq_Kind q, tm_State = ''active'',
      tm_CredentialGeneration = cl_CredentialGeneration c, tm_SourcePolicyDigest = tq_SourcePolicyDigest q, tm_BudgetID = fresh,
      tm_DurationMillis = ts_DurationMillis (tq_Spec q), tm_StartedUnixMilli = 0, tm_ExpiresUnixMilli = ts_ExpiresUnixMilli (tq_Spec q), tm_Rates = ts_Rates (tq_Spec q),
      tm_OpeningUploaded = ts_OpeningUploaded (tq_Spec q), tm_OpeningDownloaded = ts_OpeningDownloaded (tq_Spec q)\<rparr>"
  have t: "tm_ClientID t = tq_ClientID q" "tm_State t = ''active''" by (simp_all add: t_def)
  note body = body [folded t_def]
  obtain t' c' d1 where o1: "open_term q now_ms fresh c t d = Inr (t', c', d1)" using body by (auto split: if_split_asm sum.splits)
  obtain d2 where o2: "create_term fresh t' (tq_Spec q) d1 = Inr d2" using body unfolding o1 sum.case prod.case by (auto split: if_split_asm sum.splits)
  note o = o1 o2
  have rest: "if tm_State t' = ''active'' then (\<exists>x. activateRatePool u (tq_ClientID q) fresh t' (d2\<lparr>f_clients := fmupd (tq_ClientID q) (c'\<lparr>cl_Revision := cl_Revision c' + 1\<rparr>) (f_clients d2)\<rparr>) = Inr (x, d'))
        else d' = d2\<lparr>f_clients := fmupd (tq_ClientID q) (c'\<lparr>cl_Revision := cl_Revision c' + 1\<rparr>) (f_clients d2)\<rparr>"
    using body unfolding o sum.case prod.case by (auto split: if_split_asm sum.splits)
  obtain us where d2: "fresh |\<notin>| fmdom (f_budgets d1)" "fresh |\<notin>| fmdom (f_terms d1)"
      "d2 = d1\<lparr>f_budgets := fmupd fresh (opening_budget (tq_Spec q)) (f_budgets d1), f_terms := fmupd fresh t' (f_terms d1), f_term_usage := us\<rparr>"
    using o(2) by (rule create_term_cases)
  have row: "fmlookup (f_clients d) (tq_ClientID q) = Some c" using c by (simp add: lockClient_row)
  show ?thesis
  proof (cases "tq_Kind q = Activation")
    case True
    then have a: "cl_CurrentTermID c = None" "startTerm t now_ms = Inr t'" "c' = c\<lparr>cl_CurrentTermID := Some fresh\<rparr>" "d1 = d"
      using o(1) by (auto simp: open_term_def split: if_splits sum.splits)
    have t': "tm_ClientID t' = tq_ClientID q" "tm_State t' = ''active''" using startTerm_fields [OF a(2)] t by simp_all
    then obtain x where "activateRatePool u (tq_ClientID q) fresh t' (d2\<lparr>f_clients := fmupd (tq_ClientID q) (c'\<lparr>cl_Revision := cl_Revision c' + 1\<rparr>) (f_clients d2)\<rparr>) = Inr (x, d')"
      using rest by auto
    then obtain revision where "set_rate_budget_tx u (tq_ClientID q) (tq_ClientID q) fresh revision (tm_Rates t') (d2\<lparr>f_clients := fmupd (tq_ClientID q) (c'\<lparr>cl_Revision := cl_Revision c' + 1\<rparr>) (f_clients d2)\<rparr>) = Inr ((), d')"
      by (rule activateRatePool_cases)
    from start [OF row a(1) pend _ _ t' _ this, where us = us and n = "cl_Revision c' + 1"] show ?thesis using d2 a(3,4) by simp
  next
    case False
    then obtain current previous where a: "cl_CurrentTermID c = Some current" "term_of current (tq_ClientID q) d = Inr previous" "tm_State previous = ''active''"
        "tm_PredecessorID t' = Some current" "tm_State t' = ''pending''" "tm_ClientID t' = tq_ClientID q"
        "c' = c\<lparr>cl_PendingTermID := Some fresh\<rparr>" "d1 = set_state current ''draining'' d"
      using o(1) t by (auto simp: open_term_def split: option.splits sum.splits if_splits)
    have p: "fmlookup (f_terms d) current = Some previous" "tm_ClientID previous = tq_ClientID q" using a(2) by (simp_all add: term_of_row)
    then have d1: "d1 = d\<lparr>f_terms := fmupd current (previous\<lparr>tm_State := ''draining''\<rparr>) (f_terms d)\<rparr>" using a(8) by (simp add: set_state_def)
    have "d' = d2\<lparr>f_clients := fmupd (tq_ClientID q) (c'\<lparr>cl_Revision := cl_Revision c' + 1\<rparr>) (f_clients d2)\<rparr>" using rest a(5) by simp
    with d2 d1 a(7) show ?thesis by (intro follow [OF row a(1) pend p a(3) _ _ a(6,5,4), where us = us and n = "cl_Revision c' + 1"]) auto
  qed
qed

lemma pending_terms_cases:
  assumes "pending_terms client revision generation pend d = Inr (c, t, current, previous)"
  shows "fmlookup (f_clients d) client = Some c" "cl_PendingTermID c = Some pend" "cl_CurrentTermID c = Some current"
    "fmlookup (f_terms d) pend = Some t" "tm_ClientID t = client" "tm_State t = ''pending''" "tm_PredecessorID t = Some current"
    "fmlookup (f_terms d) current = Some previous" "tm_ClientID previous = client" "tm_State previous = ''draining''" "current \<noteq> pend"
  using assms unfolding pending_terms_def
  by (auto simp: lockClient_row term_of_row split: sum.splits option.splits if_splits)

declare batches.simps [simp del]

lemma batches_set:
  assumes "0 < n"
  shows "(\<Union>b \<in> set (batches n xs). set b) = set xs"
  using assms
proof (induction n xs rule: batches.induct)
  case (1 n xs)
  show ?case
  proof (cases "xs = []")
    case False
    then have b: "batches n xs = take n xs # batches n (drop n xs)" using 1(2) by (subst batches.simps) simp
    have "set xs = set (take n xs) \<union> set (drop n xs)" by (metis append_take_drop_id set_append)
    then show ?thesis using 1 False by (simp add: b)
  qed (simp add: batches.simps)
qed

lemma first_error_none: "first_error f xs = None \<longleftrightarrow> (\<forall>x \<in> set xs. f x = None)"
  by (induction xs) (auto split: option.splits)

lemma stopped_shares_none:
  assumes "stopped_shares client gs d = None" "g \<in> set gs"
  shows "share_row g d = no_rates \<and> g |\<in>| fmdom (f_rate_shares d)"
  using assms by (induction gs) (auto simp: share_row_def decodeRates_iff fmlookup_dom_iff split: option.splits if_splits sum.splits)

lemma requireStoppedGrants_none:
  assumes "requireStoppedGrants client t d = None" and "fmlookup (f_grants d) g = Some x" "fg_ClientID x = client" "fg_TermID x = t"
  shows "share_row g d = no_rates"
proof -
  let ?gs = "map fst (filter (\<lambda>(k, g). fg_ClientID g = client \<and> fg_TermID g = t) (entries_by_key (f_grants d)))"
  have "(g, x) \<in> set (filter (\<lambda>(k, g). fg_ClientID g = client \<and> fg_TermID g = t) (entries_by_key (f_grants d)))" using assms(2-4) by (simp add: entries_by_key_set)
  then have "g \<in> set ?gs" by (force simp del: set_filter)
  then obtain b where b: "b \<in> set (batches 1000 ?gs)" "g \<in> set b" using batches_set [of 1000 ?gs] by auto
  then have "stopped_batch client b d = None" using assms(1) by (simp add: requireStoppedGrants_def first_error_none)
  then show ?thesis using stopped_shares_none b(2) by (auto simp: stopped_batch_def split: if_splits)
qed

lemma complete_run_cases:
  assumes "complete_run u now_ms q d = Inr (r, d')"
  obtains c t current previous t' n revision d1 where
    "fmlookup (f_clients d) (cq_ClientID q) = Some c" "cl_PendingTermID c = Some (cq_PendingTermID q)" "cl_CurrentTermID c = Some current"
    "fmlookup (f_terms d) (cq_PendingTermID q) = Some t" "tm_ClientID t = cq_ClientID q" "tm_State t = ''pending''"
    "fmlookup (f_terms d) current = Some previous" "tm_ClientID previous = cq_ClientID q" "tm_State previous = ''draining''"
    "requireStoppedGrants (cq_ClientID q) current d = None" "tm_ClientID t' = cq_ClientID q" "tm_State t' = ''active''"
    "d1 = d\<lparr>f_terms := fmupd current (previous\<lparr>tm_State := ''closed''\<rparr>) (fmupd (cq_PendingTermID q) t' (f_terms d)),
            f_clients := fmupd (cq_ClientID q) (c\<lparr>cl_CurrentTermID := Some (cq_PendingTermID q), cl_PendingTermID := None, cl_Revision := n\<rparr>) (f_clients d)\<rparr>"
    "set_rate_budget_tx u (cq_ClientID q) (cq_ClientID q) (cq_PendingTermID q) revision (tm_Rates t') d1 = Inr ((), d')"
proof -
  obtain c t current previous where p: "pending_terms (cq_ClientID q) (cq_ExpectedRevision q) (cq_ExpectedCredentialGeneration q) (cq_PendingTermID q) d = Inr (c, t, current, previous)"
    using assms by (auto simp: complete_run_def split: sum.splits)
  note f = pending_terms_cases [OF p]
  note body = assms [unfolded complete_run_def p sum.case prod.case]
  have stop: "requireStoppedGrants (cq_ClientID q) current d = None" using body by (auto split: if_splits option.splits)
  obtain t1 where st: "startTerm t now_ms = Inr t1" using body unfolding stop option.case by (auto split: if_splits option.splits sum.splits)
  define t' where "t' = t1\<lparr>tm_State := ''active'', tm_CredentialGeneration := cl_CredentialGeneration c\<rparr>"
  have t': "tm_ClientID t' = cq_ClientID q" "tm_State t' = ''active''" using startTerm_fields(1) [OF st] f(5) by (simp_all add: t'_def)
  let ?d1 = "d\<lparr>f_terms := fmupd current (previous\<lparr>tm_State := ''closed''\<rparr>) (fmupd (cq_PendingTermID q) t' (f_terms d)),
      f_clients := fmupd (cq_ClientID q) (c\<lparr>cl_CurrentTermID := Some (cq_PendingTermID q), cl_PendingTermID := None, cl_Revision := cl_Revision c + 1\<rparr>) (f_clients d)\<rparr>"
  have "set_state current ''closed'' (d\<lparr>f_terms := fmupd (cq_PendingTermID q) t' (f_terms d)\<rparr>)
      = d\<lparr>f_terms := fmupd current (previous\<lparr>tm_State := ''closed''\<rparr>) (fmupd (cq_PendingTermID q) t' (f_terms d))\<rparr>"
    using f(8,11) by (simp add: set_state_def)
  then have "\<exists>x. activateRatePool u (cq_ClientID q) (cq_PendingTermID q) t' ?d1 = Inr (x, d')"
    using body unfolding stop st option.case sum.case t'_def [symmetric] Let_def by (auto split: if_splits option.splits sum.splits)
  then obtain revision where "set_rate_budget_tx u (cq_ClientID q) (cq_ClientID q) (cq_PendingTermID q) revision (tm_Rates t') ?d1 = Inr ((), d')"
    using activateRatePool_cases by blast
  from that [OF f(1-6,8-10) stop t' refl this] show ?thesis .
qed

lemma cancel_run_cases:
  assumes "cancel_run q d = Inr (r, d')"
  obtains c t current previous n where
    "fmlookup (f_clients d) (xq_ClientID q) = Some c" "cl_PendingTermID c = Some (xq_PendingTermID q)" "cl_CurrentTermID c = Some current"
    "fmlookup (f_terms d) (xq_PendingTermID q) = Some t" "tm_ClientID t = xq_ClientID q" "tm_State t = ''pending''"
    "fmlookup (f_terms d) current = Some previous" "tm_ClientID previous = xq_ClientID q" "tm_State previous = ''draining''"
    "d' = d\<lparr>f_terms := fmupd current (previous\<lparr>tm_State := ''active''\<rparr>) (fmupd (xq_PendingTermID q) (t\<lparr>tm_State := ''closed''\<rparr>) (f_terms d)),
            f_clients := fmupd (xq_ClientID q) (c\<lparr>cl_PendingTermID := None, cl_Revision := n\<rparr>) (f_clients d)\<rparr>"
proof -
  obtain c t current previous where p: "pending_terms (xq_ClientID q) (xq_ExpectedRevision q) (xq_ExpectedCredentialGeneration q) (xq_PendingTermID q) d = Inr (c, t, current, previous)"
    using assms by (auto simp: cancel_run_def split: sum.splits)
  note f = pending_terms_cases [OF p]
  have "d' = d\<lparr>f_terms := fmupd current (previous\<lparr>tm_State := ''active''\<rparr>) (fmupd (xq_PendingTermID q) (t\<lparr>tm_State := ''closed''\<rparr>) (f_terms d)),
            f_clients := fmupd (xq_ClientID q) (c\<lparr>cl_PendingTermID := None, cl_Revision := cl_Revision c + 1\<rparr>) (f_clients d)\<rparr>"
    using assms f(4,8,11) unfolding cancel_run_def p sum.case prod.case Let_def by (simp add: set_state_def)
  from that [OF f(1-6,8-10) this] show ?thesis .
qed

end
