(* ===== verification/FleetRuns.thy ===== *)
theory FleetRuns
  imports Lifecycle
begin

text \<open>
  Runs of the fleet's control plane: any sequence of its operations on credit, usage, rates and terms, each
  of which the database may fail, while other parts of the program change the tables they own. What holds
  after every run is stated here: the books balance, the rates in force fit their budgets, and a client is
  served by at most one term.
\<close>

section \<open>Steps\<close>

text \<open>
  The budget of a group or of a panel client, opened when its first member needs credit
  (\<open>internal/web/service/fleet_client_credit.go\<close>).
\<close>

definition open_pool :: "string \<Rightarrow> int \<Rightarrow> int \<Rightarrow> FleetDB \<Rightarrow> (unit \<times> FleetDB) result" where
  "open_pool fresh limit opening d =
     (if opening > limit then Inl ErrBudget
      else if fresh |\<in>| fmdom (f_budgets d) then Inl (StorageErr ''unique constraint'')
      else Inr ((), d\<lparr>f_budgets := fmupd fresh \<lparr>b_LimitBytes = limit, b_Unlimited = False, b_UsedBytes = opening, b_ReservedBytes = 0\<rparr> (f_budgets d)\<rparr>))"

text \<open>The code outside the repository the operations use.\<close>

record 'u fleet_lib =
  lib_uuid :: "'u uuid_lib"
  lib_wire :: wire_lib
  lib_cert :: "bytes \<Rightarrow> Certificate option"
  lib_registration :: "JournalRegistration \<Rightarrow> bytes result"
  lib_reserve :: "ReserveRequest \<Rightarrow> bytes"
  lib_credit :: "ClientCreditRequest \<Rightarrow> bytes"
  lib_share :: "RateRequest \<Rightarrow> bytes"
  lib_transition :: "TransitionRequest \<Rightarrow> bytes"
  lib_complete :: "CompleteTransitionRequest \<Rightarrow> bytes"
  lib_cancel :: "CancelTransitionRequest \<Rightarrow> bytes"
  lib_sha1 :: "string \<Rightarrow> string"

text \<open>
  Other parts of the program change a client without touching its terms, add clients that have none, and
  change nodes, credentials, placements, stops and saved results in any way.
\<close>

definition clients_kept :: "FleetDB \<Rightarrow> FleetDB \<Rightarrow> bool" where
  "clients_kept d e \<longleftrightarrow> (\<forall>k. case (fmlookup (f_clients d) k, fmlookup (f_clients e) k) of
      (None, None) \<Rightarrow> True
    | (None, Some c') \<Rightarrow> cl_CurrentTermID c' = None \<and> cl_PendingTermID c' = None
    | (Some c, None) \<Rightarrow> False
    | (Some c, Some c') \<Rightarrow> cl_CurrentTermID c' = cl_CurrentTermID c \<and> cl_PendingTermID c' = cl_PendingTermID c)"

definition accounts_kept :: "FleetDB \<Rightarrow> FleetDB \<Rightarrow> bool" where
  "accounts_kept d e \<longleftrightarrow> f_budgets e = f_budgets d \<and> f_grants e = f_grants d \<and> f_links e = f_links d \<and> f_meters e = f_meters d"

definition rates_kept :: "FleetDB \<Rightarrow> FleetDB \<Rightarrow> bool" where
  "rates_kept d e \<longleftrightarrow> f_rate_budgets e = f_rate_budgets d \<and> f_rate_shares e = f_rate_shares d"

text \<open>A new identifier is in no row yet.\<close>

definition unused :: "string \<Rightarrow> FleetDB \<Rightarrow> bool" where
  "unused fresh d \<longleftrightarrow> (\<forall>x \<in> fset (fmran (f_grants d)). fg_TermID x \<noteq> fresh)"

inductive db_step :: "'u fleet_lib \<Rightarrow> int \<Rightarrow> FleetDB \<Rightarrow> FleetDB \<Rightarrow> bool" for L :: "'u fleet_lib" and now_ms :: int where
  credit: "db_step L now_ms d (snd (Reserve_cp (lib_uuid L) (lib_reserve L) now_ms q d))"
| client_credit: "int64_limits q \<Longrightarrow>
    db_step L now_ms d (snd (ReserveClientCredit (lib_uuid L) (lib_credit L) (lib_reserve L) (lib_sha1 L) fresh now_ms q d))"
| usage: "db_step L now_ms d (snd (Ingest (lib_uuid L) (lib_wire L) (lib_cert L) verified now_ms p batch d))"
| transition: "ts_QuotaBytes (tq_Spec q) \<le> maxInt64 \<Longrightarrow> ts_OpeningUsedBytes (tq_Spec q) \<le> maxInt64 \<Longrightarrow> unused fresh d \<Longrightarrow>
    db_step L now_ms d (snd (Transition (lib_uuid L) (lib_transition L) fresh now_ms q d))"
| complete: "db_step L now_ms d (snd (CompleteTransition (lib_uuid L) (lib_complete L) now_ms q d))"
| cancel: "db_step L now_ms d (snd (CancelTransition (lib_uuid L) (lib_cancel L) q d))"
| bind: "db_step L now_ms d (snd (BindClient fresh panel digest d))"
| credentials: "db_step L now_ms d (snd (ReconcileCredentials (lib_uuid L) client expected digest d))"
| rate_budget: "db_step L now_ms d (snd (SetRateBudget (lib_uuid L) k client t revision desired d))"
| share: "db_step L now_ms d (snd (RequestRateShare (lib_uuid L) (lib_share L) now_ms q d))"
| confirm: "db_step L now_ms d (snd (ConfirmRateShare (lib_uuid L) p g revision applied d))"
| stop: "db_step L now_ms d (snd (on_fleet (zeroStopRateShare g x expected) d))"
| receipt: "db_step L now_ms d (snd (on_fleet (acknowledge_update g revision base rates enabled) d))"
| pool: "0 \<le> opening \<Longrightarrow> limit \<le> maxInt64 \<Longrightarrow> db_step L now_ms d (snd (on_fleet (open_pool fresh limit opening) d))"
| journals: "db_step L now_ms d (snd (RegisterJournals (lib_uuid L) (lib_registration L) (lib_cert L) verified p registration d))"
| agent: "db_step L now_ms d (snd (RequireAgentJournal_cp (lib_uuid L) (lib_cert L) verified p j d))"
| hold: "db_step L now_ms d (HoldForRecovery d)"
| others: "accounts_kept d e \<Longrightarrow> rates_kept d e \<Longrightarrow> f_terms e = f_terms d \<Longrightarrow> clients_kept d e \<Longrightarrow> db_step L now_ms d e"

section \<open>Runs\<close>

text \<open>
  Two things the tables do not hold are recorded along a run: what a budget had used when it was opened,
  and the rates the node of a share may be enforcing. These are the rates it was told since it last
  confirmed, and those it confirmed: a row that changes at the same revision is a confirmation.
\<close>

record FleetRun =
  fr_db :: FleetDB
  fr_opening :: "string \<Rightarrow> int"
  fr_told :: "string \<Rightarrow> Rates set"

definition openings :: "FleetDB \<Rightarrow> FleetDB \<Rightarrow> (string \<Rightarrow> int) \<Rightarrow> string \<Rightarrow> int" where
  "openings d e f k = (if k |\<in>| fmdom (f_budgets d) then f k else case fmlookup (f_budgets e) k of None \<Rightarrow> 0 | Some b \<Rightarrow> b_UsedBytes b)"

definition confirms :: "FleetRateShare option \<Rightarrow> FleetRateShare \<Rightarrow> bool" where
  "confirms old s = (case old of None \<Rightarrow> False | Some r \<Rightarrow> s \<noteq> r \<and> rs_Revision s = rs_Revision r)"

definition tellings :: "FleetDB \<Rightarrow> FleetDB \<Rightarrow> (string \<Rightarrow> Rates set) \<Rightarrow> string \<Rightarrow> Rates set" where
  "tellings d e f g = (case fmlookup (f_rate_shares e) g of
      None \<Rightarrow> f g
    | Some s \<Rightarrow> if confirms (fmlookup (f_rate_shares d) g) s then {rs_Desired s} else insert (rs_Desired s) (f g))"

definition advance :: "FleetDB \<Rightarrow> FleetRun \<Rightarrow> FleetRun" where
  "advance e s = \<lparr>fr_db = e, fr_opening = openings (fr_db s) e (fr_opening s), fr_told = tellings (fr_db s) e (fr_told s)\<rparr>"

definition new_fleet :: "FleetDB \<Rightarrow> bool" where
  "new_fleet d \<longleftrightarrow> f_clients d = fmempty \<and> f_terms d = fmempty \<and> f_budgets d = fmempty \<and> f_grants d = fmempty \<and> f_links d = {||}
     \<and> f_meters d = fmempty \<and> f_rate_budgets d = fmempty \<and> f_rate_shares d = fmempty"

inductive fleet_run :: "'u fleet_lib \<Rightarrow> FleetRun \<Rightarrow> bool" for L :: "'u fleet_lib" where
  new: "new_fleet d \<Longrightarrow> fleet_run L \<lparr>fr_db = d, fr_opening = \<lambda>_. 0, fr_told = \<lambda>_. {}\<rparr>"
| step: "fleet_run L s \<Longrightarrow> db_step L now_ms (fr_db s) e \<Longrightarrow> fleet_run L (advance e s)"

text \<open>What holds at the start and is kept by every step holds after every run.\<close>

locale fleet_invariant =
  fixes L :: "'u fleet_lib" and I :: "FleetRun \<Rightarrow> bool"
  assumes I_new: "new_fleet d \<Longrightarrow> I \<lparr>fr_db = d, fr_opening = \<lambda>_. 0, fr_told = \<lambda>_. {}\<rparr>"
    and I_step: "I s \<Longrightarrow> db_step L now_ms (fr_db s) e \<Longrightarrow> I (advance e s)"
begin

lemma holds: "fleet_run L s \<Longrightarrow> I s"
  by (induction rule: fleet_run.induct) (auto intro: I_new I_step)

end

text \<open>A relation between the tables before and after an operation that does not depend on the saved results and the coming faults.\<close>

locale tx_relation =
  fixes R :: "FleetDB \<Rightarrow> FleetDB \<Rightarrow> bool"
  assumes R_refl: "R d d" and R_faults: "R d e \<Longrightarrow> R d (e\<lparr>f_faults := fs\<rparr>)" and R_saved: "R d e \<Longrightarrow> R d (e\<lparr>f_operations := ops\<rparr>)"
    and R_claimed: "R (d\<lparr>f_operations := ops\<rparr>) e \<Longrightarrow> R d e"
begin

lemma transaction: "(\<And>x e. f d = Inr (x, e) \<Longrightarrow> R d e) \<Longrightarrow> R d (snd (on_fleet f d))"
  by (auto simp: on_fleet_def R_refl intro: R_faults split: sum.splits list.splits option.splits)

lemma lifecycle:
  assumes "\<And>ops x e. run (d\<lparr>f_operations := ops\<rparr>) = Inr (x, e) \<Longrightarrow> R (d\<lparr>f_operations := ops\<rparr>) e"
  shows "R d (snd (lifecycleOperation u k digest run d))"
proof -
  have "R d e" if tx: "lifecycle_tx k digest run d = Inr (x, e)" for x e
  proof (cases "fmlookup (f_operations d) k")
    case None
    then obtain r e' ops ops' where "run (d\<lparr>f_operations := ops\<rparr>) = Inr (r, e')" "e = e'\<lparr>f_operations := ops'\<rparr>"
      using tx by (auto simp: lifecycle_tx_def split: option.splits sum.splits)
    then show ?thesis using R_saved [OF R_claimed [OF assms]] by simp
  next
    case (Some op)
    then show ?thesis using tx R_refl by (auto simp: lifecycle_tx_def split: option.splits op_result.splits if_splits)
  qed
  then show ?thesis by (auto simp: lifecycleOperation_def R_refl intro: transaction)
qed

end

section \<open>What every step keeps\<close>

text \<open>The state of a term is what its client says: the current term serves or drains, the pending one waits, all others are closed and hold nothing.\<close>

definition term_state :: "FleetClient \<Rightarrow> string \<Rightarrow> string" where
  "term_state c t = (if cl_CurrentTermID c = Some t then (if cl_PendingTermID c = None then ''active'' else ''draining'')
     else if cl_PendingTermID c = Some t then ''pending'' else ''closed'')"

definition terms_ok :: "FleetDB \<Rightarrow> bool" where
  "terms_ok d \<longleftrightarrow>
     (\<forall>k c t. fmlookup (f_clients d) k = Some c \<longrightarrow> cl_CurrentTermID c = Some t \<or> cl_PendingTermID c = Some t \<longrightarrow> (\<exists>x. fmlookup (f_terms d) t = Some x \<and> tm_ClientID x = k))
     \<and> (\<forall>k c p. fmlookup (f_clients d) k = Some c \<longrightarrow> cl_PendingTermID c = Some p \<longrightarrow> cl_CurrentTermID c \<noteq> None \<and> cl_CurrentTermID c \<noteq> Some p)
     \<and> (\<forall>t x. fmlookup (f_terms d) t = Some x \<longrightarrow> (\<exists>c. fmlookup (f_clients d) (tm_ClientID x) = Some c \<and> tm_State x = term_state c t))
     \<and> (\<forall>t x g y. fmlookup (f_terms d) t = Some x \<longrightarrow> fmlookup (f_grants d) g = Some y \<longrightarrow> fg_ClientID y = tm_ClientID x \<longrightarrow> fg_TermID y = t \<longrightarrow>
          tm_State x \<noteq> ''pending'' \<and> (tm_State x = ''closed'' \<longrightarrow> share_row g d = no_rates))"

text \<open>What is held on a grant grows only while the grant is authorized, and shrinks only by a confirmation.\<close>

definition shares_step :: "int \<Rightarrow> FleetDB \<Rightarrow> FleetDB \<Rightarrow> bool" where
  "shares_step now_ms d e \<longleftrightarrow> fmdom (f_rate_shares d) |\<subseteq>| fmdom (f_rate_shares e) \<and> (\<forall>g s. fmlookup (f_rate_shares e) g = Some s \<longrightarrow>
     (rates_at_most (share_row g d) (rs_Outstanding s) \<or> confirms (fmlookup (f_rate_shares d) g) s)
     \<and> (rates_at_most (rs_Outstanding s) (share_row g d) \<or> (\<exists>x. fmlookup (f_grants d) g = Some x \<and> authorized_now now_ms x d)))"

definition moves :: "int \<Rightarrow> FleetDB \<Rightarrow> FleetDB \<Rightarrow> bool" where
  "moves now_ms d e \<longleftrightarrow> grants_step now_ms d e \<and> shares_step now_ms d e
     \<and> (\<forall>k. same_bound k d e \<longrightarrow> fits_budget k d \<longrightarrow> fits_budget k e)
     \<and> (\<forall>t x. fmlookup (f_terms d) t = Some x \<longrightarrow> tm_State x = ''closed'' \<longrightarrow> fmlookup (f_terms e) t = Some x)"

definition fleet_ok :: "(string \<Rightarrow> int) \<Rightarrow> FleetDB \<Rightarrow> bool" where
  "fleet_ok i d \<longleftrightarrow> acct_ok i d \<and> shares_ok d \<and> terms_ok d"

definition lawful :: "int \<Rightarrow> FleetDB \<Rightarrow> FleetDB \<Rightarrow> bool" where
  "lawful now_ms d e \<longleftrightarrow> (\<forall>i. fleet_ok i d \<longrightarrow> fleet_ok (openings d e i) e \<and> moves now_ms d e)"

lemma rates_at_most_refl [simp]: "rates_at_most r r"
  by (simp add: rates_at_most_def)

lemma shares_step_same: "f_rate_shares e = f_rate_shares d \<Longrightarrow> shares_step now_ms d e"
  by (auto simp: shares_step_def share_row_def)

lemma acct_opening_cong:
  assumes "\<And>k. k |\<in>| fmdom (f_budgets d) \<Longrightarrow> i k = j k"
  shows "acct_ok i d = acct_ok j d"
proof -
  have "(\<forall>k b. fmlookup (f_budgets d) k = Some b \<longrightarrow> P k b \<and> b_UsedBytes b = i k + spent d k \<and> Q k b)
      = (\<forall>k b. fmlookup (f_budgets d) k = Some b \<longrightarrow> P k b \<and> b_UsedBytes b = j k + spent d k \<and> Q k b)" for P Q
    using assms fmdomI by metis
  then show ?thesis unfolding acct_ok_def by simp
qed

lemma acct_openings: "acct_ok i d \<Longrightarrow> (\<And>j. acct_ok j d \<Longrightarrow> acct_ok j e) \<Longrightarrow> acct_ok (openings d e i) e"
  using acct_opening_cong [of d "openings d e i" i] by (simp add: openings_def)

lemma openings_same: "f_budgets e = f_budgets d \<Longrightarrow> acct_ok i e \<Longrightarrow> acct_ok (openings d e i) e"
  using acct_opening_cong [of e "openings d e i" i] by (simp add: openings_def)

text \<open>A budget that is opened funds nothing yet.\<close>

lemma acct_open:
  assumes ok: "acct_ok i d" and b: "k |\<notin>| fmdom (f_budgets d)" "budget_ok b" "b_ReservedBytes b = 0"
    and e: "f_budgets e = fmupd k b (f_budgets d)" "f_grants e = f_grants d" "f_links e = f_links d" "f_meters e = f_meters d"
  shows "acct_ok (openings d e i) e"
proof -
  have none: "fmlookup (f_budgets d) k = None" using b(1) by (simp add: fmdom_notD)
  have "(g, k) |\<notin>| f_links d" for g using ok none unfolding acct_ok_def by (metis option.distinct(1))
  then have "funded_by e k = {}" by (simp add: funded_by_def e(3))
  then have z: "spent e k = 0" "owed e k = 0" by (simp_all add: spent_def owed_def)
  have same: "spent e = spent d" "owed e = owed d" "metered e = metered d"
    using e by (simp_all add: spent_def owed_def metered_def funded_by_def fun_eq_iff)
  have o: "openings d e i j = (if j = k then b_UsedBytes b else i j)" if "fmlookup (f_budgets e) j \<noteq> None" for j
    using that none by (auto simp: openings_def e(1) fmlookup_dom_iff split: if_splits)
  show ?thesis unfolding acct_ok_def
  proof (intro conjI)
    show "\<forall>j x. fmlookup (f_budgets e) j = Some x \<longrightarrow> budget_ok x \<and> b_UsedBytes x = openings d e i j + spent e j \<and> (\<not> b_Unlimited x \<longrightarrow> b_ReservedBytes x = owed e j)"
    proof (intro allI impI)
      fix j x
      assume x: "fmlookup (f_budgets e) j = Some x"
      show "budget_ok x \<and> b_UsedBytes x = openings d e i j + spent e j \<and> (\<not> b_Unlimited x \<longrightarrow> b_ReservedBytes x = owed e j)"
      proof (cases "j = k")
        case True
        then show ?thesis using x z b(2,3) o [of j] by (simp add: e(1))
      next
        case False
        then show ?thesis using x ok o [of j] by (simp add: e(1) same acct_ok_def)
      qed
    qed
    show "\<forall>g x. fmlookup (f_grants e) g = Some x \<longrightarrow> grant_ok x \<and> fg_ConsumedBytes x = metered e g"
      "\<forall>j x. fmlookup (f_meters e) j = Some x \<longrightarrow> fmlookup (f_grants e) (fst j) \<noteq> None \<and> 0 \<le> fm_Uploaded x \<and> 0 \<le> fm_Downloaded x"
      using ok unfolding acct_ok_def e(2,4) same by blast+
    show "\<forall>g j. (g, j) |\<in>| f_links e \<longrightarrow> (\<exists>x b. fmlookup (f_grants e) g = Some x \<and> fmlookup (f_budgets e) j = Some b \<and> (fg_Unlimited x \<longrightarrow> b_Unlimited b))"
    proof (intro allI impI)
      fix g j
      assume "(g, j) |\<in>| f_links e"
      then obtain x y where xy: "fmlookup (f_grants d) g = Some x" "fmlookup (f_budgets d) j = Some y" "fg_Unlimited x \<longrightarrow> b_Unlimited y"
        using ok unfolding acct_ok_def e(3) by blast
      then have "j \<noteq> k" using none by auto
      then show "\<exists>x b. fmlookup (f_grants e) g = Some x \<and> fmlookup (f_budgets e) j = Some b \<and> (fg_Unlimited x \<longrightarrow> b_Unlimited b)"
        using xy by (simp add: e(1,2))
    qed
  qed
qed

text \<open>Operations that leave the terms alone.\<close>

lemma terms_okD:
  assumes "terms_ok d"
  shows "fmlookup (f_clients d) k = Some c \<Longrightarrow> cl_CurrentTermID c = Some t \<or> cl_PendingTermID c = Some t \<Longrightarrow> \<exists>x. fmlookup (f_terms d) t = Some x \<and> tm_ClientID x = k"
    "fmlookup (f_clients d) k = Some c \<Longrightarrow> cl_PendingTermID c = Some p \<Longrightarrow> cl_CurrentTermID c \<noteq> None \<and> cl_CurrentTermID c \<noteq> Some p"
    "fmlookup (f_terms d) t = Some x \<Longrightarrow> \<exists>c. fmlookup (f_clients d) (tm_ClientID x) = Some c \<and> tm_State x = term_state c t"
    "fmlookup (f_terms d) t = Some x \<Longrightarrow> fmlookup (f_grants d) g = Some y \<Longrightarrow> fg_ClientID y = tm_ClientID x \<Longrightarrow> fg_TermID y = t \<Longrightarrow> tm_State x \<noteq> ''pending''"
    "fmlookup (f_terms d) t = Some x \<Longrightarrow> fmlookup (f_grants d) g = Some y \<Longrightarrow> fg_ClientID y = tm_ClientID x \<Longrightarrow> fg_TermID y = t \<Longrightarrow> tm_State x = ''closed'' \<Longrightarrow> share_row g d = no_rates"
proof -
  note a = assms [unfolded terms_ok_def]
  show "fmlookup (f_clients d) k = Some c \<Longrightarrow> cl_CurrentTermID c = Some t \<or> cl_PendingTermID c = Some t \<Longrightarrow> \<exists>x. fmlookup (f_terms d) t = Some x \<and> tm_ClientID x = k"
    by (rule a [THEN conjunct1, rule_format])
  show "fmlookup (f_clients d) k = Some c \<Longrightarrow> cl_PendingTermID c = Some p \<Longrightarrow> cl_CurrentTermID c \<noteq> None \<and> cl_CurrentTermID c \<noteq> Some p"
    by (rule a [THEN conjunct2, THEN conjunct1, rule_format])
  show "fmlookup (f_terms d) t = Some x \<Longrightarrow> \<exists>c. fmlookup (f_clients d) (tm_ClientID x) = Some c \<and> tm_State x = term_state c t"
    by (rule a [THEN conjunct2, THEN conjunct2, THEN conjunct1, rule_format])
  have g: "fmlookup (f_terms d) t = Some x \<Longrightarrow> fmlookup (f_grants d) g = Some y \<Longrightarrow> fg_ClientID y = tm_ClientID x \<Longrightarrow> fg_TermID y = t \<Longrightarrow>
      tm_State x \<noteq> ''pending'' \<and> (tm_State x = ''closed'' \<longrightarrow> share_row g d = no_rates)"
    by (rule a [THEN conjunct2, THEN conjunct2, THEN conjunct2, THEN spec, THEN spec, THEN spec, THEN spec, THEN mp, THEN mp, THEN mp, THEN mp])
  show "fmlookup (f_terms d) t = Some x \<Longrightarrow> fmlookup (f_grants d) g = Some y \<Longrightarrow> fg_ClientID y = tm_ClientID x \<Longrightarrow> fg_TermID y = t \<Longrightarrow> tm_State x \<noteq> ''pending''"
    by (rule g [THEN conjunct1])
  show "fmlookup (f_terms d) t = Some x \<Longrightarrow> fmlookup (f_grants d) g = Some y \<Longrightarrow> fg_ClientID y = tm_ClientID x \<Longrightarrow> fg_TermID y = t \<Longrightarrow> tm_State x = ''closed'' \<Longrightarrow> share_row g d = no_rates"
    by (rule g [THEN conjunct2, THEN mp])
qed

lemma clients_kept_refl: "f_clients e = f_clients d \<Longrightarrow> clients_kept d e"
  by (auto simp: clients_kept_def split: option.splits)

lemma closed_unauthorized:
  assumes "terms_ok d" "fmlookup (f_terms d) t = Some x" "tm_State x = ''pending'' \<or> tm_State x = ''closed''" "fg_ClientID y = tm_ClientID x" "fg_TermID y = t"
  shows "\<not> authorized_now now_ms y d"
proof
  assume a: "authorized_now now_ms y d"
  obtain c where "fmlookup (f_clients d) (tm_ClientID x) = Some c" using terms_okD(3) [OF assms(1,2)] by blast
  then have "tm_State x = ''active''" using a assms(2,4,5) by (auto simp: authorized_now_def)
  then show False using assms(3) by auto
qed

lemma grants_stepD:
  assumes "grants_step now_ms d e" "fmlookup (f_grants e) g = Some y" "\<not> authorized_now now_ms y d"
  shows "\<exists>z. fmlookup (f_grants d) g = Some z \<and> fg_ClientID z = fg_ClientID y \<and> fg_TermID z = fg_TermID y \<and> fg_IssuedBytes z = fg_IssuedBytes y"
  using assms(1) [unfolded grants_step_def, THEN conjunct2, rule_format, OF assms(2)] assms(3) by (auto split: option.splits)

lemma shares_stepD:
  assumes "shares_step now_ms d e" "fmlookup (f_rate_shares e) g = Some s"
  shows "rates_at_most (share_row g d) (rs_Outstanding s) \<or> confirms (fmlookup (f_rate_shares d) g) s"
    "fmlookup (f_grants d) g = Some x \<Longrightarrow> \<not> authorized_now now_ms x d \<Longrightarrow> rates_at_most (rs_Outstanding s) (share_row g d)"
  using assms(1) [unfolded shares_step_def, THEN conjunct2, rule_format, OF assms(2)] by auto

lemma kept_no_rates:
  assumes ok: "terms_ok d" and sh: "shares_ok e" and st: "shares_step now_ms d e" "grants_step now_ms d e"
    and x: "fmlookup (f_terms d) t = Some x" "tm_State x = ''pending'' \<or> tm_State x = ''closed''"
    and y: "fmlookup (f_grants e) g = Some y" "fg_ClientID y = tm_ClientID x" "fg_TermID y = t"
  shows "tm_State x = ''closed'' \<and> share_row g e = no_rates"
proof -
  note no = closed_unauthorized [OF ok x y(2,3)]
  obtain z where z: "fmlookup (f_grants d) g = Some z" "fg_ClientID z = fg_ClientID y" "fg_TermID z = fg_TermID y"
    using grants_stepD [OF st(2) y(1) no] by blast
  have "fg_ClientID z = tm_ClientID x" "fg_TermID z = t" using z(2,3) y(2,3) by simp_all
  then have old: "tm_State x = ''closed''" "share_row g d = no_rates" using terms_okD(4,5) [OF ok x(1) z(1)] x(2) by simp_all
  have "share_row g e = no_rates"
  proof (cases "fmlookup (f_rate_shares e) g")
    case (Some s)
    have "\<not> authorized_now now_ms z d" using closed_unauthorized [OF ok x] z(2,3) y(2,3) by simp
    then have "rates_at_most (rs_Outstanding s) (share_row g d)" by (rule shares_stepD(2) [OF st(1) Some z(1)])
    moreover have "validate_rates (rs_Outstanding s) = None" using sh Some unfolding shares_ok_def by blast
    ultimately have "rs_Outstanding s = no_rates" unfolding old by (rule rates_at_most_none)
    then show ?thesis using Some by (simp add: share_row_def)
  qed (simp add: share_row_def)
  then show ?thesis using old(1) by simp
qed

lemma kept_client:
  assumes "clients_kept d e"
  shows "fmlookup (f_clients d) k = Some c \<Longrightarrow> \<exists>c'. fmlookup (f_clients e) k = Some c' \<and> cl_CurrentTermID c' = cl_CurrentTermID c \<and> cl_PendingTermID c' = cl_PendingTermID c"
    "fmlookup (f_clients e) k = Some c' \<Longrightarrow> (cl_CurrentTermID c' = None \<and> cl_PendingTermID c' = None)
       \<or> (\<exists>c. fmlookup (f_clients d) k = Some c \<and> cl_CurrentTermID c' = cl_CurrentTermID c \<and> cl_PendingTermID c' = cl_PendingTermID c)"
  using assms [unfolded clients_kept_def, rule_format, of k] by (auto split: option.splits)

lemma terms_keep:
  assumes ok: "terms_ok d" and sh: "shares_ok e" and st: "f_terms e = f_terms d" "clients_kept d e" "grants_step now_ms d e" "shares_step now_ms d e"
  shows "terms_ok e"
  unfolding terms_ok_def
proof (intro conjI allI impI)
  fix k c t
  assume c: "fmlookup (f_clients e) k = Some c" "cl_CurrentTermID c = Some t \<or> cl_PendingTermID c = Some t"
  then obtain c' where "fmlookup (f_clients d) k = Some c'" "cl_CurrentTermID c' = Some t \<or> cl_PendingTermID c' = Some t" using kept_client(2) [OF st(2) c(1)] by auto
  then show "\<exists>x. fmlookup (f_terms e) t = Some x \<and> tm_ClientID x = k" unfolding st(1) by (rule terms_okD(1) [OF ok])
next
  fix k c p
  assume c: "fmlookup (f_clients e) k = Some c" "cl_PendingTermID c = Some p"
  then obtain c' where "fmlookup (f_clients d) k = Some c'" "cl_CurrentTermID c = cl_CurrentTermID c'" "cl_PendingTermID c' = Some p" using kept_client(2) [OF st(2) c(1)] by auto
  then have "cl_CurrentTermID c \<noteq> None \<and> cl_CurrentTermID c \<noteq> Some p" using terms_okD(2) [OF ok, of k c' p] by simp
  then show "cl_CurrentTermID c \<noteq> None" "cl_CurrentTermID c \<noteq> Some p" by simp_all
next
  fix t x
  assume "fmlookup (f_terms e) t = Some x"
  then obtain c where c: "fmlookup (f_clients d) (tm_ClientID x) = Some c" "tm_State x = term_state c t" using terms_okD(3) [OF ok, of t x] unfolding st(1) by blast
  obtain c' where c': "fmlookup (f_clients e) (tm_ClientID x) = Some c'" "cl_CurrentTermID c' = cl_CurrentTermID c" "cl_PendingTermID c' = cl_PendingTermID c"
    using kept_client(1) [OF st(2) c(1)] by blast
  have "term_state c' t = term_state c t" by (simp add: term_state_def c'(2,3))
  then show "\<exists>c. fmlookup (f_clients e) (tm_ClientID x) = Some c \<and> tm_State x = term_state c t" using c(2) c'(1) by metis
next
  fix t x g y
  assume x: "fmlookup (f_terms e) t = Some x" and y: "fmlookup (f_grants e) g = Some y" "fg_ClientID y = tm_ClientID x" "fg_TermID y = t"
  note k = kept_no_rates [OF ok sh st(4,3) x [unfolded st(1)] _ y]
  show "tm_State x \<noteq> ''pending''"
  proof
    assume p: "tm_State x = ''pending''"
    from k [OF disjI1 [OF p]] p show False by simp
  qed
  show "share_row g e = no_rates" if "tm_State x = ''closed''" using k [OF disjI2 [OF that]] by (rule conjunct2)
qed

text \<open>All of this is about the accounts, the rates, the terms and the clients only.\<close>

definition same_tables :: "FleetDB \<Rightarrow> FleetDB \<Rightarrow> bool" where
  "same_tables d e \<longleftrightarrow> accounts_kept d e \<and> rates_kept d e \<and> f_terms e = f_terms d \<and> f_clients e = f_clients d"

lemma same_tables_facts:
  assumes "same_tables d d1"
  shows "f_budgets d1 = f_budgets d" "f_grants d1 = f_grants d" "f_links d1 = f_links d" "f_meters d1 = f_meters d" "f_rate_budgets d1 = f_rate_budgets d"
    "f_rate_shares d1 = f_rate_shares d" "f_terms d1 = f_terms d" "f_clients d1 = f_clients d"
  using assms by (simp_all add: same_tables_def accounts_kept_def rates_kept_def)

lemma same_rows:
  assumes "same_tables d d1"
  shows "acct_ok i d1 = acct_ok i d" "shares_ok d1 = shares_ok d" "share_row g d1 = share_row g d" "terms_ok d1 = terms_ok d" "fits_budget k d1 = fits_budget k d"
    "authorized_now now_ms x d1 = authorized_now now_ms x d"
proof -
  note t = same_tables_facts [OF assms]
  show "acct_ok i d1 = acct_ok i d" by (rule acct_cong [OF t(1-4)])
  show "shares_ok d1 = shares_ok d" unfolding shares_ok_def t ..
  have r: "share_row g d1 = share_row g d" for g unfolding share_row_def t ..
  show "share_row g d1 = share_row g d" by (rule r)
  show "terms_ok d1 = terms_ok d" unfolding terms_ok_def t r ..
  show "fits_budget k d1 = fits_budget k d" unfolding fits_budget_def held_def shares_of_def t ..
  show "authorized_now now_ms x d1 = authorized_now now_ms x d" unfolding authorized_now_def t ..
qed

lemma lawful_cong:
  assumes "same_tables d d1" "same_tables e e1"
  shows "lawful now_ms d1 e1 = lawful now_ms d e"
proof -
  note t = same_tables_facts [OF assms(1)] same_tables_facts [OF assms(2)]
  note r = same_rows [OF assms(1)] same_rows [OF assms(2)]
  have o: "openings d1 e1 = openings d e" by (simp add: fun_eq_iff openings_def t)
  have "moves now_ms d1 e1 = moves now_ms d e" unfolding moves_def grants_step_def shares_step_def same_bound_def t r ..
  then show ?thesis unfolding lawful_def fleet_ok_def o r by simp
qed

lemma lawful_refl: "lawful now_ms d d"
proof -
  have "acct_ok (openings d d i) d" if "acct_ok i d" for i by (rule openings_same [OF refl that])
  moreover have "moves now_ms d d" by (simp add: moves_def grants_step_same shares_step_same)
  ultimately show ?thesis by (simp add: lawful_def fleet_ok_def)
qed

interpretation tx: tx_relation "lawful now_ms" for now_ms
proof
  have s: "same_tables d (d\<lparr>f_faults := fs\<rparr>)" "same_tables d (d\<lparr>f_operations := ops\<rparr>)" for d fs ops
    by (simp_all add: same_tables_def accounts_kept_def rates_kept_def)
  have same: "same_tables d d" for d by (simp add: same_tables_def accounts_kept_def rates_kept_def)
  show "lawful now_ms d d" for d by (rule lawful_refl)
  show "lawful now_ms d (e\<lparr>f_faults := fs\<rparr>)" if "lawful now_ms d e" for d e fs using lawful_cong [OF same s(1)] that by blast
  show "lawful now_ms d (e\<lparr>f_operations := ops\<rparr>)" if "lawful now_ms d e" for d e ops using lawful_cong [OF same s(2)] that by blast
  show "lawful now_ms d e" if "lawful now_ms (d\<lparr>f_operations := ops\<rparr>) e" for d ops e using lawful_cong [OF s(2) same] that by blast
qed

text \<open>Operations that leave the terms alone, and those that also leave the accounts or the rates alone.\<close>

lemma lawfulI:
  assumes "f_terms e = f_terms d" "clients_kept d e"
    and "\<And>i. fleet_ok i d \<Longrightarrow> acct_ok (openings d e i) e \<and> grants_step now_ms d e \<and> shares_ok e \<and> shares_step now_ms d e
        \<and> (\<forall>k. same_bound k d e \<longrightarrow> fits_budget k d \<longrightarrow> fits_budget k e)"
  shows "lawful now_ms d e"
  unfolding lawful_def
proof (intro allI impI)
  fix i
  assume ok: "fleet_ok i d"
  note a = assms(3) [OF ok]
  have "terms_ok e" using a ok by (intro terms_keep [OF _ _ assms(1,2)]) (auto simp: fleet_ok_def)
  then show "fleet_ok (openings d e i) e \<and> moves now_ms d e" using a assms(1) by (simp add: fleet_ok_def moves_def)
qed

lemma lawful_books:
  assumes "f_terms e = f_terms d" "clients_kept d e" "rates_kept d e"
    and "\<And>i. acct_ok i d \<Longrightarrow> acct_ok i e \<and> grants_step now_ms d e"
  shows "lawful now_ms d e"
proof (rule lawfulI [OF assms(1,2)])
  fix i
  assume ok: "fleet_ok i d"
  then have a: "acct_ok i d" "shares_ok d" by (simp_all add: fleet_ok_def)
  have r: "f_rate_shares e = f_rate_shares d" "f_rate_budgets e = f_rate_budgets d" using assms(3) by (simp_all add: rates_kept_def)
  have g: "grants_step now_ms d e" using assms(4) [OF a(1)] ..
  then have "shares_ok e" by (intro shares_ok_cong [OF r _ a(2)]) (simp add: grants_step_def)
  moreover have "fits_budget k e = fits_budget k d" if "same_bound k d e" for k by (rule fits_cong [OF r(1) that])
  moreover have "acct_ok (openings d e i) e" by (rule acct_openings [OF a(1)]) (simp add: assms(4))
  ultimately show "acct_ok (openings d e i) e \<and> grants_step now_ms d e \<and> shares_ok e \<and> shares_step now_ms d e \<and> (\<forall>k. same_bound k d e \<longrightarrow> fits_budget k d \<longrightarrow> fits_budget k e)"
    using g shares_step_same [OF r(1)] by blast
qed

lemma lawful_others:
  assumes "accounts_kept d e" "rates_kept d e" "f_terms e = f_terms d" "clients_kept d e"
  shows "lawful now_ms d e"
proof (rule lawful_books [OF assms(3,4,2)])
  fix i
  assume "acct_ok i d"
  then show "acct_ok i e \<and> grants_step now_ms d e" using assms(1) acct_cong [of e d i] grants_step_same [of e d] by (simp add: accounts_kept_def)
qed

lemma lawful_rates:
  assumes "accounts_kept d e" "f_terms e = f_terms d" "clients_kept d e"
    and "shares_ok d \<Longrightarrow> shares_ok e \<and> shares_step now_ms d e \<and> (\<forall>k. same_bound k d e \<longrightarrow> fits_budget k d \<longrightarrow> fits_budget k e)"
  shows "lawful now_ms d e"
proof (rule lawfulI [OF assms(2,3)])
  fix i
  assume "fleet_ok i d"
  then have a: "acct_ok i d" "shares_ok d" by (simp_all add: fleet_ok_def)
  have t: "f_budgets e = f_budgets d" "f_grants e = f_grants d" "f_links e = f_links d" "f_meters e = f_meters d" using assms(1) by (simp_all add: accounts_kept_def)
  have "acct_ok i e" using a(1) acct_cong [OF t] by simp
  then have "acct_ok (openings d e i) e" by (rule openings_same [OF t(1)])
  then show "acct_ok (openings d e i) e \<and> grants_step now_ms d e \<and> shares_ok e \<and> shares_step now_ms d e \<and> (\<forall>k. same_bound k d e \<longrightarrow> fits_budget k d \<longrightarrow> fits_budget k e)"
    using assms(4) [OF a(2)] grants_step_same [OF t(2)] by blast
qed

lemma lawful_credit: "lawful now_ms d (snd (reserve u dig now_ms q placement d))"
proof (cases "normalize_reserve u q")
  case (Inr q')
  have "lawful now_ms d e" if "reserve_tx dig now_ms q' placement d = Inr (g, e)" for g e
    using reserve_tx_grants [OF that] reserve_tx_acct [OF that _ normalize_reserve_bytes [OF Inr]]
    by (intro lawful_books) (simp_all add: rates_kept_def clients_kept_refl)
  then show ?thesis using Inr by (auto simp: reserve_def intro: tx.transaction)
qed (simp add: reserve_def lawful_refl)

lemma lawful_client_credit:
  assumes "int64_limits q"
  shows "lawful now_ms d (snd (ReserveClientCredit u cdig dig sha1 fresh now_ms q d))"
proof (cases "normalize_credit u q")
  case (Inr q')
  let ?e = "snd (ReserveClientCredit u cdig dig sha1 fresh now_ms q d)"
  have tx: "?e = snd (on_fleet (client_credit_tx u cdig dig sha1 fresh now_ms q') d)" using Inr by (simp add: ReserveClientCredit_def)
  have acct: "acct_ok i d \<Longrightarrow> acct_ok i ?e" for i using client_credit_acct [OF prod.collapse [symmetric] _ assms] by blast
  consider "\<exists>fs. ?e = d\<lparr>f_faults := fs\<rparr>" | g e fs where "client_credit_tx u cdig dig sha1 fresh now_ms q' d = Inr (g, e)" "?e = e\<lparr>f_faults := fs\<rparr>"
  proof (cases "client_credit_tx u cdig dig sha1 fresh now_ms q' d")
    case (Inl err)
    then have "?e = d\<lparr>f_faults := f_faults d\<rparr>" using tx by (simp add: on_fleet_def)
    then show ?thesis using that(1) by blast
  next
    case (Inr p)
    obtain g e where p: "p = (g, e)" by force
    have "?e = e\<lparr>f_faults := f_faults e\<rparr> \<or> (\<exists>fs. ?e = e\<lparr>f_faults := fs\<rparr>) \<or> (\<exists>fs. ?e = d\<lparr>f_faults := fs\<rparr>)"
      unfolding tx using Inr p by (auto simp: on_fleet_def split: list.splits option.splits)
    then show ?thesis using that Inr p by metis
  qed
  then show ?thesis
  proof cases
    case 1
    then show ?thesis using tx.R_faults [OF lawful_refl] by metis
  next
    case 2
    note g = client_credit_grants [OF 2(1)]
    have "grants_step now_ms d ?e" using g grants_step_cong [of d d ?e e now_ms] by (simp add: 2(2))
    then show ?thesis using acct g by (intro lawful_books) (simp_all add: 2(2) rates_kept_def clients_kept_refl)
  qed
qed (simp add: ReserveClientCredit_def lawful_refl)

lemma lawful_usage: "lawful now_ms d (snd (Ingest u w cert verified now_ms p batch d))"
proof (cases "validBatch u w batch \<and> Require p (ub_NodeId (the batch)) (ub_InstallationId (the batch)) = None")
  case True
  let ?b = "the batch" and ?f = "ingest_tx cert verified now_ms p (the batch) (sha256_batch w (the batch))"
  have snd: "snd (Ingest u w cert verified now_ms p batch d) = snd (on_fleet ?f d)" using True by (auto simp: Ingest_def Let_def split: prod.splits sum.splits)
  have cs: "checkpoints_ok u (ub_Checkpoints ?b) {||}" using True by (auto simp: validBatch_def split: option.splits)
  have "lawful now_ms d e" if tx: "?f d = Inr (r, e)" for r e
  proof (cases "\<exists>i. acct_ok i d")
    case False
    then show ?thesis by (simp add: lawful_def fleet_ok_def)
  next
    case ok: True
    then obtain i where "acct_ok i d" ..
    note g = ingest_tx_grants [OF tx cs this, of now_ms]
    have "acct_ok j e" if "acct_ok j d" for j using Ingest_tx_acct [OF tx cs that] .
    then show ?thesis using g by (intro lawful_books) (simp_all add: rates_kept_def clients_kept_refl)
  qed
  then show ?thesis unfolding snd by (rule tx.transaction)
next
  case False
  then have "snd (Ingest u w cert verified now_ms p batch d) = d" by (auto simp: Ingest_def Let_def)
  then show ?thesis by (simp add: lawful_refl)
qed

lemma share_upd:
  assumes upd: "f_rate_shares e = fmupd g s (f_rate_shares d)" and g: "fmlookup (f_rate_shares d) g = Some r"
    and s: "rates_at_most (share_row g d) (rs_Outstanding s) \<or> confirms (Some r) s" "rates_at_most (rs_Outstanding s) (share_row g d)"
  shows "shares_step now_ms d e"
  unfolding shares_step_def
proof (intro conjI allI impI)
  show "fmdom (f_rate_shares d) |\<subseteq>| fmdom (f_rate_shares e)" by (auto simp: upd)
  fix h x
  assume x: "fmlookup (f_rate_shares e) h = Some x"
  show "rates_at_most (share_row h d) (rs_Outstanding x) \<or> confirms (fmlookup (f_rate_shares d) h) x" using x s(1) g by (cases "h = g") (auto simp: upd share_row_def)
  show "rates_at_most (rs_Outstanding x) (share_row h d) \<or> (\<exists>y. fmlookup (f_grants d) h = Some y \<and> authorized_now now_ms y d)"
    using x s(2) by (cases "h = g") (auto simp: upd share_row_def)
qed

lemma lawful_share: "lawful now_ms d (snd (RequestRateShare u dig now_ms q d))"
proof -
  have "lawful now_ms d e" if tx: "share_tx dig now_ms q d = Inr (s, e)" and v: "validate_rates (rr_Desired q) = None" for s e
    using tx
  proof (cases rule: share_tx_cases)
    case 1
    then show ?thesis by (simp add: lawful_refl)
  next
    case (2 x b ops)
    have "shares_step now_ms d e" if ok: "shares_ok d"
    proof -
      have "validate_rates (share_row (rr_GrantID q) d) = None" using ok by (auto simp: share_row_def shares_ok_def split: option.splits)
      then have up: "rates_at_most (share_row (rr_GrantID q) d) (rs_Outstanding s)" using join_rates_props(2) [OF _ v] by (simp add: 2(6))
      have "rates_at_most (rs_Outstanding s) (share_row (rr_GrantID q) d) \<or> (\<exists>y. fmlookup (f_grants d) (rr_GrantID q) = Some y \<and> authorized_now now_ms y d)"
        using 2(1,7) by (cases "rs_Outstanding s = share_row (rr_GrantID q) d") auto
      then show ?thesis using up unfolding shares_step_def by (auto simp: 2(8) share_row_def)
    qed
    then show ?thesis using share_tx_ok [OF tx _ v] by (intro lawful_rates) (auto simp: 2(8) accounts_kept_def clients_kept_refl)
  qed
  then show ?thesis by (auto simp: RequestRateShare_def lawful_refl intro: tx.transaction)
qed

lemma lawful_confirm: "lawful now_ms d (snd (ConfirmRateShare u p g revision applied d))"
proof -
  have "lawful now_ms d e" if tx: "confirm_tx p g revision applied d = Inr (x, e)" for x e
    using tx
  proof (cases rule: confirm_tx_cases)
    case (1 s)
    have "shares_step now_ms d e" if ok: "shares_ok d"
    proof (rule share_upd [OF _ 1(1)])
      show "f_rate_shares e = fmupd g (s\<lparr>rs_AppliedRevision := uint revision, rs_Outstanding := applied\<rparr>) (f_rate_shares d)" using 1(4) by simp
      show "rates_at_most (rs_Outstanding (s\<lparr>rs_AppliedRevision := uint revision, rs_Outstanding := applied\<rparr>)) (share_row g d)"
        using ok 1(1,2) by (auto simp: shares_ok_def share_row_def)
      show "rates_at_most (share_row g d) (rs_Outstanding (s\<lparr>rs_AppliedRevision := uint revision, rs_Outstanding := applied\<rparr>))
          \<or> confirms (Some s) (s\<lparr>rs_AppliedRevision := uint revision, rs_Outstanding := applied\<rparr>)"
        using 1(1) by (cases "applied = rs_Outstanding s") (auto simp: share_row_def confirms_def dest: arg_cong [where f = rs_Outstanding])
    qed
    then show ?thesis using confirm_tx_ok [OF tx] by (intro lawful_rates) (auto simp: 1(4) accounts_kept_def clients_kept_refl)
  qed
  then show ?thesis by (auto simp: ConfirmRateShare_def lawful_refl intro: tx.transaction)
qed

lemma lawful_rate_budget_tx:
  assumes tx: "set_rate_budget_tx u k client t revision desired d = Inr (x, e)"
  shows "lawful now_ms d e"
  using tx
proof (cases rule: set_rate_budget_tx_cases)
  case (1 b m)
  show ?thesis using set_rate_budget_tx_ok [OF tx] by (intro lawful_rates) (auto simp: 1(5) accounts_kept_def clients_kept_refl intro: shares_step_same)
qed

lemma no_rates_least: "validate_rates r = None \<Longrightarrow> rates_at_most no_rates r"
  using valid_rate(1) by (auto simp: validate_rates_iff rates_at_most_def at_most_def no_rates_def blocked_rate_def)

lemma lawful_stop: "lawful now_ms d (snd (on_fleet (zeroStopRateShare g x expected) d))"
proof (rule tx.transaction)
  fix s e
  assume "zeroStopRateShare g x expected d = Inr (s, e)"
  then obtain r where r: "fmlookup (f_rate_shares d) g = Some r" "s = r\<lparr>rs_Revision := rs_Revision r + 1, rs_Desired := no_rates\<rparr>"
      "e = d\<lparr>f_rate_shares := fmupd g s (f_rate_shares d)\<rparr>"
    unfolding zeroStopRateShare_def First_def Let_def by (auto split: option.splits sum.splits if_splits)
  have "shares_ok e \<and> shares_step now_ms d e \<and> (\<forall>k. fits_budget k d \<longrightarrow> fits_budget k e)" if ok: "shares_ok d"
  proof -
    have "validate_rates (rs_Outstanding r) = None" using ok r(1) by (auto simp: shares_ok_def)
    then have "shares_ok e \<and> (\<forall>k. fits_budget k d \<longrightarrow> fits_budget k e)"
      by (intro share_lowered [OF ok r(1), where s = s]) (use r(2,3) no_rates_least in auto)
    moreover have "shares_step now_ms d e" by (rule share_upd [OF _ r(1), of e s]) (use r in \<open>simp_all add: share_row_def\<close>)
    ultimately show ?thesis by blast
  qed
  then show "lawful now_ms d e" by (intro lawful_rates) (auto simp: r(3) accounts_kept_def clients_kept_refl)
qed

lemma lawful_receipt: "lawful now_ms d (snd (on_fleet (acknowledge_update g revision base rates enabled) d))"
proof (rule tx.transaction)
  fix y e
  assume "acknowledge_update g revision base rates enabled d = Inr (y, e)"
  then obtain r stops where r: "fmlookup (f_rate_shares d) g = Some r" "rs_Revision r = revision"
      "e = d\<lparr>f_rate_shares := fmupd g (r\<lparr>rs_AppliedRevision := revision, rs_Outstanding := rs_Desired r\<rparr>) (f_rate_shares d), f_grant_stops := stops\<rparr>"
    unfolding acknowledge_update_def First_def by (auto split: option.splits sum.splits if_split_asm)
  let ?s = "r\<lparr>rs_AppliedRevision := revision, rs_Outstanding := rs_Desired r\<rparr>"
  have "shares_ok e \<and> shares_step now_ms d e \<and> (\<forall>k. fits_budget k d \<longrightarrow> fits_budget k e)" if ok: "shares_ok d"
  proof -
    have v: "validate_rates (rs_Desired r) = None" "rates_at_most (rs_Desired r) (rs_Outstanding r)" using ok r(1) by (auto simp: shares_ok_def)
    then have "shares_ok e \<and> (\<forall>k. fits_budget k d \<longrightarrow> fits_budget k e)" by (intro share_lowered [OF ok r(1), where s = ?s]) (use r in auto)
    moreover have "shares_step now_ms d e"
    proof (rule share_upd [OF _ r(1)])
      show "f_rate_shares e = fmupd g ?s (f_rate_shares d)" using r(3) by simp
      show "rates_at_most (rs_Outstanding ?s) (share_row g d)" using v r(1) by (simp add: share_row_def)
      show "rates_at_most (share_row g d) (rs_Outstanding ?s) \<or> confirms (Some r) ?s"
        using r(1) by (cases "rs_Desired r = rs_Outstanding r") (auto simp: share_row_def confirms_def dest: arg_cong [where f = rs_Outstanding])
    qed
    ultimately show ?thesis by blast
  qed
  then show "lawful now_ms d e" by (intro lawful_rates) (auto simp: r(3) accounts_kept_def clients_kept_refl)
qed

lemma clients_kept_upd:
  assumes "f_clients e = fmupd k c (f_clients d)"
    and "case fmlookup (f_clients d) k of None \<Rightarrow> cl_CurrentTermID c = None \<and> cl_PendingTermID c = None
      | Some old \<Rightarrow> cl_CurrentTermID c = cl_CurrentTermID old \<and> cl_PendingTermID c = cl_PendingTermID old"
  shows "clients_kept d e"
  unfolding clients_kept_def
proof
  fix j
  show "case (fmlookup (f_clients d) j, fmlookup (f_clients e) j) of (None, None) \<Rightarrow> True | (None, Some c') \<Rightarrow> cl_CurrentTermID c' = None \<and> cl_PendingTermID c' = None
      | (Some c, None) \<Rightarrow> False | (Some c, Some c') \<Rightarrow> cl_CurrentTermID c' = cl_CurrentTermID c \<and> cl_PendingTermID c' = cl_PendingTermID c"
    using assms by (cases "j = k") (auto split: option.splits)
qed

lemma lawful_bind: "lawful now_ms d (snd (BindClient fresh panel digest d))"
proof -
  have "lawful now_ms d e" if tx: "bind_tx fresh panel digest d = Inr (x, e)" for x e
  proof (cases "fresh |\<in>| fmdom (f_clients d) \<or> panel_row panel d \<noteq> None")
    case True
    then have "e = d" using tx unfolding bind_tx_def Let_def by (auto split: option.splits prod.splits if_split_asm)
    then show ?thesis by (simp add: lawful_refl)
  next
    case False
    let ?c = "\<lparr>cl_PanelClientID = Some panel, cl_Revision = 1, cl_CredentialGeneration = 1, cl_CredentialDigest = digest, cl_CurrentTermID = None, cl_PendingTermID = None, cl_Owned = False\<rparr>"
    have "e = d\<lparr>f_clients := fmupd fresh ?c (f_clients d)\<rparr>" using tx False unfolding bind_tx_def Let_def by (auto split: option.splits prod.splits if_split_asm)
    moreover from this have "clients_kept d e" using False by (intro clients_kept_upd [of e fresh ?c]) (simp_all add: fmdom_notD)
    ultimately show ?thesis by (intro lawful_others) (simp_all add: accounts_kept_def rates_kept_def)
  qed
  then show ?thesis by (auto simp: BindClient_def lawful_refl intro: tx.transaction)
qed

lemma lawful_credentials: "lawful now_ms d (snd (ReconcileCredentials u client expected digest d))"
proof -
  have "lawful now_ms d e" if tx: "reconcile_tx client expected digest d = Inr (x, e)" for x e
  proof -
    obtain c where c: "fmlookup (f_clients d) client = Some c" and e: "e = d \<or> (e = d\<lparr>f_clients := fmupd client x (f_clients d)\<rparr>
        \<and> cl_CurrentTermID x = cl_CurrentTermID c \<and> cl_PendingTermID x = cl_PendingTermID c)"
      using tx unfolding reconcile_tx_def Let_def by (auto simp: lockClient_row split: option.splits sum.splits if_split_asm)
    from e show ?thesis
    proof
      assume e: "e = d\<lparr>f_clients := fmupd client x (f_clients d)\<rparr> \<and> cl_CurrentTermID x = cl_CurrentTermID c \<and> cl_PendingTermID x = cl_PendingTermID c"
      then have "clients_kept d e" using c by (intro clients_kept_upd [of e client x]) simp_all
      then show ?thesis using e by (intro lawful_others) (simp_all add: accounts_kept_def rates_kept_def)
    qed (simp add: lawful_refl)
  qed
  then show ?thesis by (auto simp: ReconcileCredentials_def lawful_refl intro: tx.transaction)
qed

lemma lawful_pool:
  assumes "0 \<le> opening" "limit \<le> maxInt64"
  shows "lawful now_ms d (snd (on_fleet (open_pool fresh limit opening) d))"
proof (rule tx.transaction)
  fix x e
  assume "open_pool fresh limit opening d = Inr (x, e)"
  then have o: "opening \<le> limit" "fresh |\<notin>| fmdom (f_budgets d)"
      "e = d\<lparr>f_budgets := fmupd fresh \<lparr>b_LimitBytes = limit, b_Unlimited = False, b_UsedBytes = opening, b_ReservedBytes = 0\<rparr> (f_budgets d)\<rparr>"
    by (auto simp: open_pool_def split: if_split_asm)
  have "acct_ok (openings d e i) e" if "acct_ok i d" for i
    by (rule acct_open [OF that o(2), where b = "\<lparr>b_LimitBytes = limit, b_Unlimited = False, b_UsedBytes = opening, b_ReservedBytes = 0\<rparr>"])
      (use assms o(1) in \<open>simp_all add: o(3) budget_ok_def\<close>)
  moreover have "shares_ok e" if "shares_ok d" by (rule shares_ok_cong [OF _ _ _ that]) (simp_all add: o(3))
  moreover have "fits_budget k e = fits_budget k d" if "same_bound k d e" for k by (rule fits_cong [OF _ that]) (simp add: o(3))
  ultimately show "lawful now_ms d e"
    by (intro lawfulI) (auto simp: o(3) clients_kept_refl fleet_ok_def grants_step_same shares_step_same)
qed

text \<open>Operations that move a client from term to term.\<close>

lemma terms_okI:
  assumes "\<And>k c t. fmlookup (f_clients d) k = Some c \<Longrightarrow> cl_CurrentTermID c = Some t \<or> cl_PendingTermID c = Some t \<Longrightarrow> \<exists>x. fmlookup (f_terms d) t = Some x \<and> tm_ClientID x = k"
    and "\<And>k c p. fmlookup (f_clients d) k = Some c \<Longrightarrow> cl_PendingTermID c = Some p \<Longrightarrow> cl_CurrentTermID c \<noteq> None \<and> cl_CurrentTermID c \<noteq> Some p"
    and "\<And>t x. fmlookup (f_terms d) t = Some x \<Longrightarrow> \<exists>c. fmlookup (f_clients d) (tm_ClientID x) = Some c \<and> tm_State x = term_state c t"
    and "\<And>t x g y. fmlookup (f_terms d) t = Some x \<Longrightarrow> fmlookup (f_grants d) g = Some y \<Longrightarrow> fg_ClientID y = tm_ClientID x \<Longrightarrow> fg_TermID y = t \<Longrightarrow>
        tm_State x \<noteq> ''pending'' \<and> (tm_State x = ''closed'' \<longrightarrow> share_row g d = no_rates)"
  shows "terms_ok d"
  unfolding terms_ok_def using assms by blast

text \<open>The client \<open>k\<close> gets the terms \<open>cur\<close> and \<open>pend\<close>; the rows that change are rows of its own terms.\<close>

lemma terms_move:
  assumes ok: "terms_ok d" and c: "fmlookup (f_clients d) k = Some c" and e: "f_clients e = fmupd k c' (f_clients d)" "f_grants e = f_grants d" "f_rate_shares e = f_rate_shares d"
    and other: "\<And>t. t \<notin> ch \<Longrightarrow> fmlookup (f_terms e) t = fmlookup (f_terms d) t"
    and row: "\<And>t. t \<in> ch \<Longrightarrow> \<exists>x. fmlookup (f_terms e) t = Some x \<and> tm_ClientID x = k \<and> tm_State x = term_state c' t"
    and same: "\<And>t x. t \<notin> ch \<Longrightarrow> fmlookup (f_terms d) t = Some x \<Longrightarrow> tm_ClientID x = k \<Longrightarrow> term_state c' t = term_state c t"
    and own: "\<And>t x. t \<in> ch \<Longrightarrow> fmlookup (f_terms d) t = Some x \<Longrightarrow> tm_ClientID x = k"
    and refs: "\<And>t. cl_CurrentTermID c' = Some t \<or> cl_PendingTermID c' = Some t \<Longrightarrow> t \<in> ch"
    and pend: "\<And>p. cl_PendingTermID c' = Some p \<Longrightarrow> cl_CurrentTermID c' \<noteq> None \<and> cl_CurrentTermID c' \<noteq> Some p"
    and none: "\<And>t g y. t \<in> ch \<Longrightarrow> term_state c' t = ''pending'' \<or> term_state c' t = ''closed'' \<Longrightarrow> fmlookup (f_grants d) g = Some y \<Longrightarrow> fg_ClientID y = k \<Longrightarrow> fg_TermID y = t \<Longrightarrow>
        term_state c' t = ''closed'' \<and> share_row g d = no_rates"
  shows "terms_ok e"
proof (rule terms_okI)
  have r: "share_row g e = share_row g d" for g by (simp add: share_row_def e(3))
  fix j x t
  assume a: "fmlookup (f_clients e) j = Some x" "cl_CurrentTermID x = Some t \<or> cl_PendingTermID x = Some t"
  show "\<exists>y. fmlookup (f_terms e) t = Some y \<and> tm_ClientID y = j"
  proof (cases "j = k")
    case True
    then show ?thesis using row [OF refs] a e(1) by auto
  next
    case False
    then obtain y where y: "fmlookup (f_terms d) t = Some y" "tm_ClientID y = j" using terms_okD(1) [OF ok _ a(2)] a(1) e(1) by auto
    then have "t \<notin> ch" using own False by auto
    then show ?thesis using y other by simp
  qed
next
  fix j x p
  assume "fmlookup (f_clients e) j = Some x" "cl_PendingTermID x = Some p"
  then show "cl_CurrentTermID x \<noteq> None \<and> cl_CurrentTermID x \<noteq> Some p" using pend terms_okD(2) [OF ok, of j x p] by (cases "j = k") (simp_all add: e(1))
next
  fix t x
  assume x: "fmlookup (f_terms e) t = Some x"
  show "\<exists>c. fmlookup (f_clients e) (tm_ClientID x) = Some c \<and> tm_State x = term_state c t"
  proof (cases "t \<in> ch")
    case True
    then show ?thesis using row [OF True] x e(1) by auto
  next
    case False
    then have "fmlookup (f_terms d) t = Some x" using x other by simp
    then obtain c1 where c1: "fmlookup (f_clients d) (tm_ClientID x) = Some c1" "tm_State x = term_state c1 t" using terms_okD(3) [OF ok] by blast
    show ?thesis
    proof (cases "tm_ClientID x = k")
      case True
      then show ?thesis using same [OF False \<open>fmlookup (f_terms d) t = Some x\<close>] c1 c e(1) by simp
    qed (use c1 e(1) in simp)
  qed
next
  fix t x g y
  assume x: "fmlookup (f_terms e) t = Some x" and y: "fmlookup (f_grants e) g = Some y" "fg_ClientID y = tm_ClientID x" "fg_TermID y = t"
  have r: "share_row g e = share_row g d" by (simp add: share_row_def e(3))
  have y': "fmlookup (f_grants d) g = Some y" using y(1) e(2) by simp
  show "tm_State x \<noteq> ''pending'' \<and> (tm_State x = ''closed'' \<longrightarrow> share_row g e = no_rates)"
  proof (cases "t \<in> ch")
    case True
    then have "tm_ClientID x = k" "tm_State x = term_state c' t" using row [OF True] x by auto
    then show ?thesis using none [OF True _ y'] y(2,3) unfolding r by force
  next
    case False
    then have "fmlookup (f_terms d) t = Some x" using x other by simp
    then show ?thesis using terms_okD(4,5) [OF ok _ y' y(2,3)] unfolding r by blast
  qed
qed

lemma lawful_terms:
  assumes "\<And>i. acct_ok i d \<Longrightarrow> acct_ok (openings d e i) e" and "f_grants e = f_grants d" and "rates_kept d e" and "terms_ok d \<Longrightarrow> terms_ok e"
    and "\<And>t x. terms_ok d \<Longrightarrow> fmlookup (f_terms d) t = Some x \<Longrightarrow> tm_State x = ''closed'' \<Longrightarrow> fmlookup (f_terms e) t = Some x"
  shows "lawful now_ms d e"
proof -
  have r: "f_rate_shares e = f_rate_shares d" "f_rate_budgets e = f_rate_budgets d" using assms(3) by (simp_all add: rates_kept_def)
  have "shares_ok e" if "shares_ok d" by (rule shares_ok_cong [OF r _ that]) (simp add: assms(2))
  moreover have "fits_budget k e = fits_budget k d" if "same_bound k d e" for k by (rule fits_cong [OF r(1) that])
  ultimately show ?thesis using assms grants_step_same [OF assms(2)] shares_step_same [OF r(1)] by (simp add: lawful_def fleet_ok_def moves_def)
qed

lemma lawful_then_budget:
  assumes law: "lawful now_ms d d1" and same: "f_grants d1 = f_grants d" "rates_kept d d1" and tx: "set_rate_budget_tx u k client t revision desired d1 = Inr (x, e)"
  shows "lawful now_ms d e"
  unfolding lawful_def
proof (intro allI impI)
  fix i
  assume ok: "fleet_ok i d"
  have r: "f_rate_shares d1 = f_rate_shares d" "f_rate_budgets d1 = f_rate_budgets d" using same(2) by (simp_all add: rates_kept_def)
  have l: "fleet_ok (openings d d1 i) d1" "moves now_ms d d1" using law ok by (simp_all add: lawful_def)
  obtain b m where e: "e = d1\<lparr>f_rate_budgets := fmupd k b m\<rparr>" using tx by (rule set_rate_budget_tx_cases)
  have "acct_ok (openings d1 e (openings d d1 i)) e = acct_ok (openings d e i) e" by (rule acct_opening_cong) (simp add: openings_def e)
  then have l': "fleet_ok (openings d e i) e" using lawful_rate_budget_tx [OF tx, of now_ms] l(1) unfolding lawful_def fleet_ok_def by blast
  have "shares_ok d1" using l(1) by (simp add: fleet_ok_def)
  then have f: "fits_budget j e = fits_budget j d1" if "same_bound j d1 e" for j using set_rate_budget_tx_ok [OF tx] that by blast
  have "same_bound j d d1" "same_bound j d e = same_bound j d1 e" for j by (simp_all add: same_bound_def r(2))
  then have "\<forall>j. same_bound j d e \<longrightarrow> fits_budget j d \<longrightarrow> fits_budget j e" using f l(2) by (simp add: moves_def)
  moreover have "grants_step now_ms d e" "shares_step now_ms d e" by (simp_all add: grants_step_same shares_step_same e same(1) r(1))
  ultimately show "fleet_ok (openings d e i) e \<and> moves now_ms d e" using l' l(2) by (simp add: moves_def e)
qed

lemma opening_budget_ok:
  assumes "validTermSpec kind s" "ts_QuotaBytes s \<le> maxInt64" "ts_OpeningUsedBytes s \<le> maxInt64"
  shows "budget_ok (opening_budget s)" "b_ReservedBytes (opening_budget s) = 0"
  using assms by (auto simp: validTermSpec_def budget_ok_def opening_budget_def split: if_splits)

lemma lawful_transition_run:
  assumes run: "transition_run u fresh now_ms q d = Inr (r, e)" and spec: "validTermSpec (tq_Kind q) (tq_Spec q)" "ts_QuotaBytes (tq_Spec q) \<le> maxInt64" "ts_OpeningUsedBytes (tq_Spec q) \<le> maxInt64"
    and fresh: "unused fresh d"
  shows "lawful now_ms d e"
  using run
proof (cases rule: transition_run_cases)
  case (start c t us n revision d1)
  have "lawful now_ms d d1"
  proof (rule lawful_terms)
    show "acct_ok (openings d d1 i) d1" if "acct_ok i d" for i
      by (rule acct_open [OF that start(4) opening_budget_ok [OF spec]]) (simp_all add: start(8))
    show "f_grants d1 = f_grants d" "rates_kept d d1" by (simp_all add: start(8) rates_kept_def)
    show "terms_ok d1" if ok: "terms_ok d"
      by (rule terms_move [OF ok start(1), where c' = "c\<lparr>cl_CurrentTermID := Some fresh, cl_Revision := n\<rparr>" and ch = "{fresh}"])
        (use start(2,3,5-7) in \<open>auto simp: start(8) term_state_def fmdom_notD split: if_splits\<close>)
    show "fmlookup (f_terms d1) k = Some x" if "fmlookup (f_terms d) k = Some x" for k x using that start(5) by (auto simp: start(8) fmdom_notD)
  qed
  then show ?thesis by (rule lawful_then_budget [OF _ _ _ start(9)]) (simp_all add: start(8) rates_kept_def)
next
  case (follow c current previous t us n)
  show ?thesis
  proof (rule lawful_terms)
    show "acct_ok (openings d e i) e" if "acct_ok i d" for i
      by (rule acct_open [OF that follow(7) opening_budget_ok [OF spec]]) (simp_all add: follow(12))
    show "f_grants e = f_grants d" "rates_kept d e" by (simp_all add: follow(12) rates_kept_def)
    have ne: "current \<noteq> fresh" using follow(4,8) by (auto simp: fmdom_notD)
    have nog: "fmlookup (f_grants d) g = Some y \<Longrightarrow> fg_TermID y \<noteq> fresh" for g y using fresh by (auto simp: unused_def dest: fmranI)
    show "terms_ok e" if ok: "terms_ok d"
      by (rule terms_move [OF ok follow(1), where c' = "c\<lparr>cl_PendingTermID := Some fresh, cl_Revision := n\<rparr>" and ch = "{current, fresh}"])
        (use follow(2-11) ne nog in \<open>auto simp: follow(12) term_state_def fmdom_notD split: if_splits\<close>)
    show "fmlookup (f_terms e) k = Some x" if "fmlookup (f_terms d) k = Some x" "tm_State x = ''closed''" for k x
      using that follow(4,6,8) by (auto simp: follow(12) fmdom_notD)
  qed
qed

lemma lawful_complete_run:
  assumes "complete_run u now_ms' q d = Inr (r, e)"
  shows "lawful now_ms d e"
  using assms
proof (cases rule: complete_run_cases)
  case (1 c t current previous t' n revision d1)
  have ne: "current \<noteq> cq_PendingTermID q" using 1(4,6,7,9) by auto
  have "lawful now_ms d d1"
  proof (rule lawful_terms)
    show "acct_ok (openings d d1 i) d1" if "acct_ok i d" for i
      by (rule openings_same) (use that acct_cong [of d1 d i] in \<open>simp_all add: 1(13)\<close>)
    show "f_grants d1 = f_grants d" "rates_kept d d1" by (simp_all add: 1(13) rates_kept_def)
    show "terms_ok d1" if ok: "terms_ok d"
      by (rule terms_move [OF ok 1(1), where c' = "c\<lparr>cl_CurrentTermID := Some (cq_PendingTermID q), cl_PendingTermID := None, cl_Revision := n\<rparr>" and ch = "{current, cq_PendingTermID q}"])
        (use 1(2-12) ne requireStoppedGrants_none [OF 1(10)] in \<open>auto simp: 1(13) term_state_def split: if_splits\<close>)
    show "fmlookup (f_terms d1) k = Some x" if "fmlookup (f_terms d) k = Some x" "tm_State x = ''closed''" for k x
      using that 1(4,6,7,9) by (auto simp: 1(13))
  qed
  then show ?thesis by (rule lawful_then_budget [OF _ _ _ 1(14)]) (simp_all add: 1(13) rates_kept_def)
qed

lemma lawful_cancel_run:
  assumes "cancel_run q d = Inr (r, e)"
  shows "lawful now_ms d e"
  using assms
proof (cases rule: cancel_run_cases)
  case (1 c t current previous n)
  have ne: "current \<noteq> xq_PendingTermID q" using 1(4,6,7,9) by auto
  show ?thesis
  proof (rule lawful_terms)
    show "acct_ok (openings d e i) e" if "acct_ok i d" for i
      by (rule openings_same) (use that acct_cong [of e d i] in \<open>simp_all add: 1(10)\<close>)
    show "f_grants e = f_grants d" "rates_kept d e" by (simp_all add: 1(10) rates_kept_def)
    show "terms_ok e" if ok: "terms_ok d"
      by (rule terms_move [OF ok 1(1), where c' = "c\<lparr>cl_PendingTermID := None, cl_Revision := n\<rparr>" and ch = "{current, xq_PendingTermID q}"])
        (use 1(2-9) ne terms_okD(4) [OF ok 1(4)] in \<open>auto simp: 1(10) term_state_def split: if_splits\<close>)
    show "fmlookup (f_terms e) k = Some x" if "fmlookup (f_terms d) k = Some x" "tm_State x = ''closed''" for k x
      using that 1(4,6,7,9) by (auto simp: 1(10))
  qed
qed

text \<open>Journals and the recovery fence belong to no account.\<close>

lemma lawful_same: "same_tables d e \<Longrightarrow> lawful now_ms d e"
  by (rule lawful_others) (simp_all add: same_tables_def clients_kept_refl)

lemma same_tables_refl: "same_tables d d"
  by (simp add: same_tables_def accounts_kept_def rates_kept_def)

lemma same_tables_journals: "same_tables d (holdNodeJournal p reason d)" "add_journals p agent first added d = Inr e \<Longrightarrow> same_tables d e" "same_tables d (HoldForRecovery d)"
  by (auto simp: same_tables_def accounts_kept_def rates_kept_def holdNodeJournal_def add_journals_def HoldForRecovery_def Let_def split: if_splits)

lemma lawful_journals: "lawful now_ms d (snd (RegisterJournals u dig cert verified p request d))"
proof -
  have "lawful now_ms d e" if tx: "register_tx cert verified p q d = Inr (held, e)" for q held e
  proof (rule lawful_same)
    show "same_tables d e" using tx same_tables_journals same_tables_refl
      unfolding register_tx_def Let_def by (auto split: option.splits sum.splits if_split_asm)
  qed
  then have "lawful now_ms d (snd (on_fleet (register_tx cert verified p q) d))" for q by (rule tx.transaction)
  then show ?thesis by (auto simp: RegisterJournals_def lawful_refl split: sum.splits prod.splits) (metis snd_conv)+
qed

lemma lawful_agent: "lawful now_ms d (snd (RequireAgentJournal_cp u cert verified p j d))"
proof -
  have "lawful now_ms d e" if tx: "agent_tx cert verified p j d = Inr (held, e)" for held e
  proof (rule lawful_same)
    show "same_tables d e" using tx same_tables_journals(1) same_tables_refl
      unfolding agent_tx_def by (auto split: option.splits if_split_asm)
  qed
  then have "lawful now_ms d (snd (on_fleet (agent_tx cert verified p j) d))" by (rule tx.transaction)
  then show ?thesis by (auto simp: RequireAgentJournal_cp_def lawful_refl split: sum.splits prod.splits)
qed

lemma step_lawful: "db_step L now_ms d e \<Longrightarrow> lawful now_ms d e"
proof (induction rule: db_step.induct)
  case (credit d q)
  show ?case unfolding Reserve_cp_def by (rule lawful_credit)
next
  case (transition q fresh d)
  have "lawful now_ms d (snd (lifecycleOperation (lib_uuid L) (tq_OperationID q) (lib_transition L q) (transition_run (lib_uuid L) fresh now_ms q) d))"
    if "transition_check (lib_uuid L) q"
  proof (rule tx.lifecycle)
    fix ops x e
    assume "transition_run (lib_uuid L) fresh now_ms q (d\<lparr>f_operations := ops\<rparr>) = Inr (x, e)"
    then show "lawful now_ms (d\<lparr>f_operations := ops\<rparr>) e"
      by (rule lawful_transition_run) (use that transition in \<open>simp_all add: transition_check_def unused_def\<close>)
  qed
  then show ?case by (simp add: Transition_def lawful_refl)
next
  case (complete d q)
  have "lawful now_ms d (snd (lifecycleOperation (lib_uuid L) (cq_OperationID q) (lib_complete L q) (complete_run (lib_uuid L) now_ms q) d))"
    by (rule tx.lifecycle) (rule lawful_complete_run)
  then show ?case by (simp add: CompleteTransition_def lawful_refl)
next
  case (cancel d q)
  have "lawful now_ms d (snd (lifecycleOperation (lib_uuid L) (xq_OperationID q) (lib_cancel L q) (cancel_run q) d))"
    by (rule tx.lifecycle) (rule lawful_cancel_run)
  then show ?case by (simp add: CancelTransition_def lawful_refl)
next
  case (rate_budget d k client t revision desired)
  show ?case unfolding SetRateBudget_def by (rule tx.transaction) (rule lawful_rate_budget_tx)
next
  case (hold d)
  show ?case by (rule lawful_same [OF same_tables_journals(3)])
qed (rule lawful_client_credit lawful_usage lawful_bind lawful_credentials lawful_share lawful_confirm lawful_stop lawful_receipt lawful_pool lawful_journals lawful_agent lawful_others; assumption)+

section \<open>What holds after every run\<close>

text \<open>No node can be enforcing more than its share holds.\<close>

definition told_ok :: "FleetDB \<Rightarrow> (string \<Rightarrow> Rates set) \<Rightarrow> bool" where
  "told_ok d told \<longleftrightarrow> (\<forall>g. \<forall>r \<in> told g. validate_rates r = None \<and> rates_at_most r (share_row g d))"

lemma told_okD: "told_ok d told \<Longrightarrow> r \<in> told g \<Longrightarrow> validate_rates r = None \<and> rates_at_most r (share_row g d)"
  by (simp add: told_ok_def)

definition fleet_run_ok :: "FleetRun \<Rightarrow> bool" where
  "fleet_run_ok s \<longleftrightarrow> fleet_ok (fr_opening s) (fr_db s) \<and> told_ok (fr_db s) (fr_told s)"

lemma rates_at_most_trans: "rates_at_most a b \<Longrightarrow> rates_at_most b c \<Longrightarrow> rates_at_most a c"
  using at_most_trans by (auto simp: rates_at_most_def)

lemma tellings_ok:
  assumes told: "told_ok d f" and sh: "shares_ok e" and st: "shares_step now_ms d e"
  shows "told_ok e (tellings d e f)"
  unfolding told_ok_def
proof (intro allI ballI)
  fix g r
  assume r: "r \<in> tellings d e f g"
  have old: "r' \<in> f g \<Longrightarrow> validate_rates r' = None \<and> rates_at_most r' (share_row g d)" for r' using told by (auto simp: told_ok_def)
  show "validate_rates r = None \<and> rates_at_most r (share_row g e)"
  proof (cases "fmlookup (f_rate_shares e) g")
    case None
    then have "fmlookup (f_rate_shares d) g = None" using st by (auto simp: shares_step_def fmlookup_dom_iff intro: ccontr)
    then show ?thesis using old r None by (simp add: tellings_def share_row_def)
  next
    case (Some s)
    have v: "validate_rates (rs_Desired s) = None" "rates_at_most (rs_Desired s) (rs_Outstanding s)" using sh Some by (auto simp: shares_ok_def)
    have e: "share_row g e = rs_Outstanding s" using Some by (simp add: share_row_def)
    show ?thesis
    proof (cases "r = rs_Desired s")
      case False
      then have "r \<in> f g" "\<not> confirms (fmlookup (f_rate_shares d) g) s" using r Some by (auto simp: tellings_def split: if_splits)
      then show ?thesis using old shares_stepD(1) [OF st Some] rates_at_most_trans unfolding e by blast
    qed (use v e in simp)
  qed
qed

interpretation inv: fleet_invariant L fleet_run_ok for L
proof
  fix d
  assume "new_fleet d"
  then have "acct_ok (\<lambda>_. 0) d" "shares_ok d" "terms_ok d"
    by (simp_all add: new_fleet_def acct_ok_def shares_ok_def terms_ok_def)
  then show "fleet_run_ok \<lparr>fr_db = d, fr_opening = \<lambda>_. 0, fr_told = \<lambda>_. {}\<rparr>" by (simp add: fleet_run_ok_def fleet_ok_def told_ok_def)
next
  fix s now_ms e
  assume ok: "fleet_run_ok s" and step: "db_step L now_ms (fr_db s) e"
  have "fleet_ok (fr_opening s) (fr_db s)" using ok by (simp add: fleet_run_ok_def)
  then have l: "fleet_ok (openings (fr_db s) e (fr_opening s)) e" "moves now_ms (fr_db s) e" using step_lawful [OF step] unfolding lawful_def by blast+
  have "told_ok e (tellings (fr_db s) e (fr_told s))"
    by (rule tellings_ok [where now_ms = now_ms]) (use ok l in \<open>simp_all add: fleet_run_ok_def fleet_ok_def moves_def\<close>)
  then show "fleet_run_ok (advance e s)" using l(1) by (simp add: fleet_run_ok_def advance_def)
qed

lemma run_facts:
  assumes "fleet_run L s"
  shows "acct_ok (fr_opening s) (fr_db s)" "shares_ok (fr_db s)" "terms_ok (fr_db s)" "told_ok (fr_db s) (fr_told s)"
  using inv.holds [OF assms] by (simp_all add: fleet_run_ok_def fleet_ok_def)

lemma run_step:
  assumes "fleet_run L s" "db_step L now_ms (fr_db s) e"
  shows "moves now_ms (fr_db s) e" "fleet_run L (advance e s)"
proof -
  have "fleet_ok (fr_opening s) (fr_db s)" using inv.holds [OF assms(1)] by (simp add: fleet_run_ok_def)
  then show "moves now_ms (fr_db s) e" using step_lawful [OF assms(2)] unfolding lawful_def by blast
  show "fleet_run L (advance e s)" by (rule fleet_run.step [OF assms])
qed

text \<open>C0 The books of the fleet balance. After any run of operations, failures included, a budget has used what it had used
  when it was opened plus what the meters of the grants it funds show, all amounts are in the range of the database's
  integers, and with a limit, what is used and what these grants may still spend never pass it together. A grant without
  a quota is never funded by a budget with a limit.\<close>

theorem fleet_books:
  assumes "fleet_run L s" and "fmlookup (f_budgets (fr_db s)) k = Some b"
  shows "b_UsedBytes b = fr_opening s k + (\<Sum>g \<in> funded_by (fr_db s) k. metered (fr_db s) g)
    \<and> 0 \<le> b_UsedBytes b \<and> b_UsedBytes b \<le> maxInt64
    \<and> (\<forall>g \<in> funded_by (fr_db s) k. metered (fr_db s) g = fg_ConsumedBytes (grant_row (fr_db s) g) \<and> fg_IssuedBytes (grant_row (fr_db s) g) \<le> maxInt64)
    \<and> (\<not> b_Unlimited b \<longrightarrow> b_UsedBytes b + (\<Sum>g \<in> funded_by (fr_db s) k. fg_IssuedBytes (grant_row (fr_db s) g) - fg_ConsumedBytes (grant_row (fr_db s) g)) \<le> b_LimitBytes b
         \<and> (\<forall>g \<in> funded_by (fr_db s) k. \<not> fg_Unlimited (grant_row (fr_db s) g) \<and> fg_ConsumedBytes (grant_row (fr_db s) g) \<le> fg_IssuedBytes (grant_row (fr_db s) g)))"
proof -
  let ?d = "fr_db s"
  note ok = run_facts(1) [OF assms(1)]
  have row: "grant_ok (grant_row ?d g) \<and> fg_ConsumedBytes (grant_row ?d g) = metered ?d g \<and> (fg_Unlimited (grant_row ?d g) \<longrightarrow> b_Unlimited b)" if g: "g \<in> funded_by ?d k" for g
  proof -
    have l: "(g, k) |\<in>| f_links ?d" using g by (simp add: funded_by_def)
    obtain x b' where x: "fmlookup (f_grants ?d) g = Some x" "fmlookup (f_budgets ?d) k = Some b'" "fg_Unlimited x \<longrightarrow> b_Unlimited b'"
      using ok l unfolding acct_ok_def by blast
    moreover have "grant_ok x \<and> fg_ConsumedBytes x = metered ?d g" using ok x(1) unfolding acct_ok_def by blast
    ultimately show ?thesis using assms(2) by simp
  qed
  have rows: "\<forall>g \<in> funded_by ?d k. metered ?d g = fg_ConsumedBytes (grant_row ?d g) \<and> fg_IssuedBytes (grant_row ?d g) \<le> maxInt64"
    "\<not> b_Unlimited b \<longrightarrow> (\<forall>g \<in> funded_by ?d k. \<not> fg_Unlimited (grant_row ?d g) \<and> fg_ConsumedBytes (grant_row ?d g) \<le> fg_IssuedBytes (grant_row ?d g))"
    using row unfolding grant_ok_def by metis+
  have "spent ?d k = (\<Sum>g \<in> funded_by ?d k. metered ?d g)" unfolding spent_def using row by (intro sum.cong) simp_all
  moreover have "budget_ok b" "b_UsedBytes b = fr_opening s k + spent ?d k" "\<not> b_Unlimited b \<longrightarrow> b_ReservedBytes b = owed ?d k" using ok assms(2) unfolding acct_ok_def by blast+
  ultimately show ?thesis using rows unfolding owed_def [symmetric] by (simp add: budget_ok_def)
qed

text \<open>C0 The nodes of a rate budget never get more than the budget together. While \<open>RateBudgetPending\<close> answers no, whatever
  rates the nodes enforce of those they were told since they last confirmed, their sums, taken without wrap-around, fit
  the budget in either direction; and no operation makes the answer yes but one that changes the budget itself.\<close>

theorem rates_in_budget:
  assumes "fleet_run L s" and "RateBudgetPending u k (fr_db s) = Inr False" and "fmlookup (f_rate_budgets (fr_db s)) k = Some b"
    and "\<And>g. enforced g \<in> fr_told s g \<or> enforced g = no_rates" and "sel \<in> {ra_Upload, ra_Download}"
  shows "within (sel (rb_Desired b)) (map (\<lambda>x. sel (enforced (fst x))) (shares_of k (fr_db s)))
    \<and> (\<forall>now_ms e. db_step L now_ms (fr_db s) e \<longrightarrow> same_bound k (fr_db s) e \<longrightarrow> RateBudgetPending u k e = Inr False)"
proof
  let ?d = "fr_db s"
  note ok = run_facts(2) [OF assms(1)]
  have u: "ValidID u k" using assms(2) by (auto simp: RateBudgetPending_def split: if_splits)
  then have fit: "fits_budget k ?d" using RateBudgetPending_iff [OF ok u assms(3)] assms(2) by simp
  have bv: "validate_rates (rb_Desired b) = None" using ok assms(3) by (auto simp: shares_ok_def)
  let ?es = "map (\<lambda>(g, _). enforced g) (shares_of k ?d)"
  have row: "validate_rates (enforced g) = None \<and> rates_at_most (enforced g) (rs_Outstanding x) \<and> validate_rates (rs_Outstanding x) = None" if "(g, x) \<in> set (shares_of k ?d)" for g x
  proof -
    have x: "fmlookup (f_rate_shares ?d) g = Some x" using that by (simp add: shares_of_set)
    then have v: "validate_rates (rs_Outstanding x) = None" "share_row g ?d = rs_Outstanding x" using ok by (auto simp: shares_ok_def share_row_def)
    from assms(4) [of g] show ?thesis
    proof
      assume "enforced g \<in> fr_told s g"
      from told_okD [OF run_facts(4) [OF assms(1)] this] show ?thesis using v by simp
    qed (use v no_rates_least [OF v(1)] in simp)
  qed
  have "list_all2 rates_at_most ?es (held k ?d)" using row by (auto simp: held_def list_all2_conv_all_nth case_prod_beta)
  then have "rates_fit (rb_Desired b) ?es"
    by (rule rates_fit_mono [rotated 3]) (use fit assms(3) bv row in \<open>auto simp: fits_budget_def held_def\<close>)
  moreover have "\<forall>r \<in> set ?es. validate_rates r = None" using row by auto
  ultimately have "within (ra_Upload (rb_Desired b)) (map ra_Upload ?es)" "within (ra_Download (rb_Desired b)) (map ra_Download ?es)"
    using rates_fit_within [OF bv, of ?es] by blast+
  then show "within (sel (rb_Desired b)) (map (\<lambda>x. sel (enforced (fst x))) (shares_of k ?d))" using assms(5) by (auto simp: comp_def case_prod_beta)
  show "\<forall>now_ms e. db_step L now_ms ?d e \<longrightarrow> same_bound k ?d e \<longrightarrow> RateBudgetPending u k e = Inr False"
  proof (intro allI impI)
    fix now_ms e
    assume st: "db_step L now_ms ?d e" and same: "same_bound k ?d e"
    have "fits_budget k e" using run_step(1) [OF assms(1) st] same fit by (simp add: moves_def)
    moreover obtain b' where "fmlookup (f_rate_budgets e) k = Some b'" using same assms(3) by (auto simp: same_bound_def)
    moreover have "shares_ok e" using run_facts(2) [OF run_step(2) [OF assms(1) st]] by (simp add: advance_def)
    ultimately show "RateBudgetPending u k e = Inr False" using RateBudgetPending_iff [OF _ u] by simp
  qed
qed

text \<open>C0 A client is served by at most one term. After any run, the state of a term is what the row of its client says: the current
  term is active, or draining while another one is pending, the pending one waits, and every other term is closed. The grants of a
  closed term are told to let nothing through, a pending term has none, and no operation reopens or changes a closed term.\<close>

theorem term_lifecycle:
  assumes "fleet_run L s" and "fmlookup (f_terms (fr_db s)) t = Some x"
  shows "\<exists>c. fmlookup (f_clients (fr_db s)) (tm_ClientID x) = Some c \<and> (cl_PendingTermID c \<noteq> None \<longrightarrow> cl_CurrentTermID c \<noteq> None)
    \<and> tm_State x = (if cl_CurrentTermID c = Some t then (if cl_PendingTermID c = None then ''active'' else ''draining'')
         else if cl_PendingTermID c = Some t then ''pending'' else ''closed'')
    \<and> (\<forall>g y. fmlookup (f_grants (fr_db s)) g = Some y \<and> fg_ClientID y = tm_ClientID x \<and> fg_TermID y = t \<longrightarrow>
         tm_State x \<noteq> ''pending'' \<and> (tm_State x = ''closed'' \<longrightarrow> fr_told s g \<subseteq> {no_rates}))
    \<and> (\<forall>now_ms e. db_step L now_ms (fr_db s) e \<and> tm_State x = ''closed'' \<longrightarrow> fmlookup (f_terms e) t = Some x)"
proof -
  note ok = run_facts(3) [OF assms(1)]
  obtain c where c: "fmlookup (f_clients (fr_db s)) (tm_ClientID x) = Some c" "tm_State x = term_state c t" using terms_okD(3) [OF ok assms(2)] by blast
  have p: "cl_PendingTermID c \<noteq> None \<longrightarrow> cl_CurrentTermID c \<noteq> None" using terms_okD(2) [OF ok c(1)] by blast
  have g: "tm_State x \<noteq> ''pending'' \<and> (tm_State x = ''closed'' \<longrightarrow> fr_told s g \<subseteq> {no_rates})"
    if y: "fmlookup (f_grants (fr_db s)) g = Some y" "fg_ClientID y = tm_ClientID x" "fg_TermID y = t" for g y
  proof -
    have "fr_told s g \<subseteq> {no_rates}" if "share_row g (fr_db s) = no_rates"
      using told_okD [OF run_facts(4) [OF assms(1)], of _ g] rates_at_most_none unfolding that by blast
    then show ?thesis using terms_okD(4,5) [OF ok assms(2) y] by blast
  qed
  have "fmlookup (f_terms e) t = Some x" if "db_step L now_ms (fr_db s) e" "tm_State x = ''closed''" for now_ms e
    using run_step(1) [OF assms(1) that(1)] assms(2) that(2) by (simp add: moves_def)
  then show ?thesis using c p g unfolding term_state_def by blast
qed

text \<open>C0 Authority follows the term. Whenever an operation opens a grant of a client the fleet manages, issues more credit on it or lets its
  node have more rate than it held, the term of the grant is the client's current one, active, with no other pending and not expired.\<close>

theorem authority_follows_term:
  assumes "fleet_run L s" and "db_step L now_ms (fr_db s) e" and "fmlookup (f_grants e) g = Some y"
    and "fmlookup (f_clients (fr_db s)) (fg_ClientID y) = Some c"
    and "map_option fg_IssuedBytes (fmlookup (f_grants (fr_db s)) g) \<noteq> Some (fg_IssuedBytes y) \<or> \<not> rates_at_most (share_row g e) (share_row g (fr_db s))"
  shows "cl_CurrentTermID c = Some (fg_TermID y) \<and> cl_PendingTermID c = None
    \<and> (\<exists>t. fmlookup (f_terms (fr_db s)) (fg_TermID y) = Some t \<and> tm_ClientID t = fg_ClientID y \<and> tm_State t = ''active''
         \<and> (tm_ExpiresUnixMilli t = 0 \<or> now_ms < tm_ExpiresUnixMilli t))"
proof -
  let ?d = "fr_db s"
  have m: "grants_step now_ms ?d e" "shares_step now_ms ?d e" using run_step(1) [OF assms(1,2)] by (simp_all add: moves_def)
  have a: "authorized_now now_ms y ?d"
  proof (rule ccontr)
    assume no: "\<not> authorized_now now_ms y ?d"
    obtain z where z: "fmlookup (f_grants ?d) g = Some z" "fg_ClientID z = fg_ClientID y" "fg_TermID z = fg_TermID y" "fg_IssuedBytes z = fg_IssuedBytes y"
      using grants_stepD [OF m(1) assms(3) no] by blast
    then have more: "\<not> rates_at_most (share_row g e) (share_row g ?d)" and noz: "\<not> authorized_now now_ms z ?d" using assms(5) no by (simp_all add: authorized_now_def)
    obtain sh where sh: "fmlookup (f_rate_shares e) g = Some sh"
    proof (cases "fmlookup (f_rate_shares e) g")
      case None
      then have "fmlookup (f_rate_shares ?d) g = None" using m(2) by (auto simp: shares_step_def fmlookup_dom_iff intro: ccontr)
      then show ?thesis using more None by (simp add: share_row_def)
    qed (rule that)
    from shares_stepD(2) [OF m(2) sh z(1) noz] more sh show False by (simp add: share_row_def)
  qed
  then obtain t where t: "cl_CurrentTermID c = Some (fg_TermID y)" "fmlookup (f_terms ?d) (fg_TermID y) = Some t" "tm_ClientID t = fg_ClientID y" "tm_State t = ''active''"
      "tm_ExpiresUnixMilli t = 0 \<or> now_ms < tm_ExpiresUnixMilli t"
    using assms(4) by (auto simp: authorized_now_def)
  have "cl_PendingTermID c = None" using terms_okD(3) [OF run_facts(3) [OF assms(1)] t(2)] t assms(4) by (auto simp: term_state_def split: if_splits)
  then show ?thesis using t by blast
qed

section \<open>A run\<close>

text \<open>A panel client is bound, its first term is opened with ten bytes used, and a node gets credit and rate for it.\<close>

definition sample_fleet :: FleetDB where
  "sample_fleet = \<lparr>f_fence = Some False, f_nodes = fmupd ''n'' \<lparr>fn_InstallationID = ''i'', fn_Enabled = True\<rparr> fmempty,
     f_node_journals = fmupd ''n'' \<lparr>nj_InstallationID = ''i'', nj_StateJournalID = Some ''j'', nj_RecoveryRequired = False, nj_Reason = ''''\<rparr> fmempty,
     f_runtime_journals = fmupd (''n'', ''xray'') \<lparr>rj_InstallationID = ''i'', rj_CoreID = ''xray'', rj_StateJournalID = ''s'', rj_CreditJournalID = ''k''\<rparr> fmempty,
     f_credentials = fmempty, f_enrollments = fmempty, f_clients = fmempty, f_terms = fmempty, f_placements = fmempty, f_placement_inbounds = fmempty,
     f_budgets = fmempty, f_grants = fmempty, f_links = {||}, f_cursors = fmempty, f_meters = fmempty, f_term_usage = fmempty, f_term_days = fmempty,
     f_rate_budgets = fmempty, f_rate_shares = fmempty, f_grant_stops = fmempty, f_panel_clients = {|1|}, f_operations = fmempty, f_faults = []\<rparr>"

definition sample_digest :: bytes where
  "sample_digest = replicate 32 7"

definition sample_lib :: "string fleet_lib" where
  "sample_lib = \<lparr>lib_uuid = plain_uuid, lib_wire = sample_wire, lib_cert = \<lambda>_. None, lib_registration = \<lambda>_. Inr [], lib_reserve = \<lambda>_. [1], lib_credit = \<lambda>_. [2],
     lib_share = \<lambda>_. [3], lib_transition = \<lambda>_. [4], lib_complete = \<lambda>_. [5], lib_cancel = \<lambda>_. [6], lib_sha1 = \<lambda>s. ''l'' @ s\<rparr>"

definition sample_client :: FleetClient where
  "sample_client = \<lparr>cl_PanelClientID = Some 1, cl_Revision = 1, cl_CredentialGeneration = 1, cl_CredentialDigest = sample_digest,
     cl_CurrentTermID = None, cl_PendingTermID = None, cl_Owned = False\<rparr>"

definition sample_transition :: TransitionRequest where
  "sample_transition = \<lparr>tq_OperationID = ''o1'', tq_ClientID = ''c'', tq_ExpectedRevision = 1, tq_ExpectedCredentialGeneration = 1, tq_ExpectedTermID = '''',
     tq_SourcePolicyDigest = sample_digest, tq_Kind = Activation, tq_Spec = \<lparr>ts_QuotaBytes = 100, ts_Unlimited = False, ts_OpeningUsedBytes = 10, ts_OpeningUploaded = 10,
       ts_OpeningDownloaded = 0, ts_DurationMillis = 0, ts_ExpiresUnixMilli = 0, ts_Rates = sample_shared\<rparr>\<rparr>"

definition sample_term :: FleetTerm where
  "sample_term = \<lparr>tm_ClientID = ''c'', tm_Generation = 1, tm_PredecessorID = None, tm_Kind = Activation, tm_State = ''active'', tm_CredentialGeneration = 1,
     tm_SourcePolicyDigest = sample_digest, tm_BudgetID = ''t'', tm_DurationMillis = 0, tm_StartedUnixMilli = 5, tm_ExpiresUnixMilli = 0, tm_Rates = sample_shared,
     tm_OpeningUploaded = 10, tm_OpeningDownloaded = 0\<rparr>"

definition sample_reserve :: ReserveRequest where
  "sample_reserve = \<lparr>rq_OperationID = ''o2'', rq_GrantID = ''g'', rq_NodeID = ''n'', rq_InstallationID = ''i'', rq_RuntimeID = ''xray'', rq_ClientID = ''c'', rq_TermID = ''t'',
     rq_BudgetIDs = [''t''], rq_Bytes = 40, rq_Unlimited = False\<rparr>"

definition sample_grant_row :: FleetGrant where
  "sample_grant_row = \<lparr>fg_ID = ''g'', fg_PlacementID = None, fg_NodeID = ''n'', fg_InstallationID = ''i'', fg_RuntimeID = ''xray'', fg_ClientID = ''c'', fg_TermID = ''t'',
     fg_Unlimited = False, fg_IssuedBytes = 40, fg_ConsumedBytes = 0, fg_Revision = 1\<rparr>"

definition sample_rates :: Rates where
  "sample_rates = \<lparr>ra_Upload = sample_rate 5 50, ra_Download = sample_rate 5 50\<rparr>"

definition sample_share_request :: RateRequest where
  "sample_share_request = \<lparr>rr_OperationID = ''o3'', rr_GrantID = ''g'', rr_BudgetID = ''c'', rr_NodeID = ''n'', rr_InstallationID = ''i'', rr_RuntimeID = ''xray'', rr_Desired = sample_rates\<rparr>"

definition sample_share :: FleetRateShare where
  "sample_share = \<lparr>rs_ID = ''g'', rs_BudgetID = ''c'', rs_NodeID = ''n'', rs_InstallationID = ''i'', rs_RuntimeID = ''xray'', rs_Revision = 1, rs_AppliedRevision = 0,
     rs_Desired = sample_rates, rs_Outstanding = sample_rates\<rparr>"

text \<open>The tables after each step.\<close>

definition sample_bound :: FleetDB where
  "sample_bound = sample_fleet\<lparr>f_clients := fmupd ''c'' sample_client fmempty\<rparr>"

definition sample_served :: FleetDB where
  "sample_served = snd (Transition plain_uuid (lib_transition sample_lib) ''t'' 5 sample_transition sample_bound)"

definition sample_funded :: FleetDB where
  "sample_funded = snd (Reserve_cp plain_uuid (lib_reserve sample_lib) 6 sample_reserve sample_served)"

definition sample_shaped :: FleetDB where
  "sample_shaped = snd (RequestRateShare plain_uuid (lib_share sample_lib) 7 sample_share_request sample_funded)"

lemma entries_by_key_one: "entries_by_key (fmupd k v fmempty) = [(k, v)]" "entries_by_key fmempty = []"
  by (simp_all add: entries_by_key_def sorted_list_of_fset.rep_eq)

lemma sample_rates_valid: "validate_rates sample_shared = None" "validate_rates sample_rates = None"
  by code_simp+

lemma sample_bind: "snd (BindClient ''c'' 1 sample_digest sample_fleet) = sample_bound"
  by (simp add: BindClient_def on_fleet_def bind_tx_def lockAuthority_def panel_row_def sample_fleet_def entries_by_key_one sample_digest_def sample_bound_def sample_client_def Let_def)

lemma sample_activate:
  obtains us ops where "sample_served = sample_bound\<lparr>f_clients := fmupd ''c'' (sample_client\<lparr>cl_CurrentTermID := Some ''t'', cl_Revision := 2\<rparr>) fmempty,
    f_budgets := fmupd ''t'' \<lparr>b_LimitBytes = 100, b_Unlimited = False, b_UsedBytes = 10, b_ReservedBytes = 0\<rparr> fmempty, f_terms := fmupd ''t'' sample_term fmempty, f_term_usage := us,
    f_rate_budgets := fmupd ''c'' \<lparr>rb_ClientID = ''c'', rb_TermID = ''t'', rb_Revision = 1, rb_Desired = sample_shared\<rparr> fmempty, f_operations := ops\<rparr>"
    "fmlookup ops ''o2'' = None" "fmlookup ops ''o3'' = None"
proof -
  let ?d = "sample_bound\<lparr>f_operations := fmupd ''o1'' \<lparr>op_Digest = [4], op_Result = OpNone\<rparr> fmempty\<rparr>"
  let ?b = "\<lparr>b_LimitBytes = 100, b_Unlimited = False, b_UsedBytes = 10, b_ReservedBytes = 0\<rparr>"
  let ?us = "fmupd ''t'' \<lparr>tu_Uploaded = 0, tu_Downloaded = 0, tu_ObservedUnixMilli = 0, tu_ReceivedUnixMilli = 0\<rparr> fmempty"
  let ?c = "sample_client\<lparr>cl_CurrentTermID := Some ''t'', cl_Revision := 2\<rparr>"
  let ?d1 = "?d\<lparr>f_budgets := fmupd ''t'' ?b fmempty, f_terms := fmupd ''t'' sample_term fmempty, f_term_usage := ?us\<rparr>"
  let ?e = "?d1\<lparr>f_clients := fmupd ''c'' ?c fmempty,
      f_rate_budgets := fmupd ''c'' \<lparr>rb_ClientID = ''c'', rb_TermID = ''t'', rb_Revision = 1, rb_Desired = sample_shared\<rparr> fmempty\<rparr>"
  have fence: "lockAuthority sample_bound = None" by (simp add: lockAuthority_def sample_bound_def sample_fleet_def)
  have check: "transition_check plain_uuid sample_transition"
    by (simp add: transition_check_def sample_transition_def sample_digest_def validTermSpec_def exceeds_def sample_rates_valid maxInt64_def maxInt64u_def)
  let ?t = "sample_term\<lparr>tm_StartedUnixMilli := 0\<rparr>"
  have opn: "open_term sample_transition 5 ''t'' sample_client ?t ?d = Inr (sample_term, sample_client\<lparr>cl_CurrentTermID := Some ''t''\<rparr>, ?d)"
    by (simp add: open_term_def startTerm_def sample_transition_def sample_client_def sample_term_def maxInt64_def)
  have create: "create_term ''t'' sample_term (tq_Spec sample_transition) ?d = Inr ?d1"
    by (simp add: create_term_def sample_bound_def sample_fleet_def sample_transition_def)
  have pool: "activateRatePool plain_uuid ''c'' ''t'' sample_term (?d1\<lparr>f_clients := fmupd ''c'' ?c fmempty\<rparr>) = Inr ((), ?e)"
    by (simp add: activateRatePool_def set_rate_budget_tx_def decodeRates_def sample_rates_valid lockAuthority_def managedAuthority_def rate_insert_def
        sample_bound_def sample_fleet_def sample_client_def sample_term_def maxInt64_def maxInt64u_def)
  have "lockClient ''c'' ?d = Inr sample_client" by (simp add: lockClient_def First_def sample_bound_def sample_client_def)
  then have "\<exists>r. transition_run plain_uuid ''t'' 5 sample_transition ?d = Inr (r, ?e)"
    using opn create pool
    by (simp add: transition_run_def Let_def term_generation_def entries_by_key_one sample_transition_def sample_client_def sample_term_def maxInt64_def sample_bound_def sample_fleet_def)
  then obtain r where run: "transition_run plain_uuid ''t'' 5 sample_transition ?d = Inr (r, ?e)" by blast
  have "lifecycle_tx ''o1'' [4] (transition_run plain_uuid ''t'' 5 sample_transition) sample_bound
      = Inr (r, ?e\<lparr>f_operations := fmupd ''o1'' \<lparr>op_Digest = [4], op_Result = OpTransition r\<rparr> (f_operations ?e)\<rparr>)"
    unfolding lifecycle_tx_def fence using run by (simp add: sample_bound_def sample_fleet_def)
  then have "sample_served = ?e\<lparr>f_operations := fmupd ''o1'' \<lparr>op_Digest = [4], op_Result = OpTransition r\<rparr> (f_operations ?e)\<rparr>"
    using check by (simp add: sample_served_def Transition_def lifecycleOperation_def on_fleet_def sample_transition_def sample_lib_def)
      (simp add: sample_bound_def sample_fleet_def)
  then show ?thesis by (intro that [where us = ?us and ops = "fmupd ''o1'' \<lparr>op_Digest = [4], op_Result = OpTransition r\<rparr> (f_operations ?e)"]) (simp_all add: sample_bound_def sample_fleet_def)
qed

lemma sample_fund:
  obtains us ops where "sample_funded = sample_bound\<lparr>f_clients := fmupd ''c'' (sample_client\<lparr>cl_CurrentTermID := Some ''t'', cl_Revision := 2\<rparr>) fmempty,
    f_budgets := fmupd ''t'' \<lparr>b_LimitBytes = 100, b_Unlimited = False, b_UsedBytes = 10, b_ReservedBytes = 40\<rparr> fmempty, f_terms := fmupd ''t'' sample_term fmempty, f_term_usage := us,
    f_rate_budgets := fmupd ''c'' \<lparr>rb_ClientID = ''c'', rb_TermID = ''t'', rb_Revision = 1, rb_Desired = sample_shared\<rparr> fmempty,
    f_grants := fmupd ''g'' sample_grant_row fmempty, f_links := {|(''g'', ''t'')|}, f_operations := ops\<rparr>" "fmlookup ops ''o3'' = None"
proof -
  obtain us ops where s: "sample_served = sample_bound\<lparr>f_clients := fmupd ''c'' (sample_client\<lparr>cl_CurrentTermID := Some ''t'', cl_Revision := 2\<rparr>) fmempty,
      f_budgets := fmupd ''t'' \<lparr>b_LimitBytes = 100, b_Unlimited = False, b_UsedBytes = 10, b_ReservedBytes = 0\<rparr> fmempty, f_terms := fmupd ''t'' sample_term fmempty, f_term_usage := us,
      f_rate_budgets := fmupd ''c'' \<lparr>rb_ClientID = ''c'', rb_TermID = ''t'', rb_Revision = 1, rb_Desired = sample_shared\<rparr> fmempty, f_operations := ops\<rparr>"
      "fmlookup ops ''o2'' = None" "fmlookup ops ''o3'' = None" by (rule sample_activate)
  have n: "normalize_reserve plain_uuid sample_reserve = Inr sample_reserve" by code_simp
  have guards: "lockAuthority sample_served = None" "lockNode ''n'' ''i'' sample_served = None" "RequireRuntimeJournalTx ''n'' ''i'' ''xray'' sample_served = None"
      "guardManagedReservation 6 sample_reserve '''' sample_served = None"
      "reserve_grant sample_reserve '''' sample_served = Inr (sample_grant_row\<lparr>fg_IssuedBytes := 0\<rparr>)"
    by (simp_all add: s(1) lockAuthority_def lockNode_def First_def RequireRuntimeJournalTx_def requireNodeJournalTx_def guardManagedReservation_def managedAuthority_def
        reserve_grant_def sample_reserve_def sample_bound_def sample_fleet_def sample_client_def sample_term_def sample_grant_row_def)
  have "ffilter (\<lambda>x. x = ''t'') {|''t''|} = {|''t''|}" by auto
  then have locked: "\<exists>m. lockBudgets [''t''] sample_served = Inr m" by (simp add: s(1) lockBudgets_def Let_def fcard.rep_eq)
  have "\<exists>g ops'. reserve_tx (lib_reserve sample_lib) 6 sample_reserve '''' sample_served = Inr (g, sample_served\<lparr>
      f_budgets := fmupd ''t'' \<lparr>b_LimitBytes = 100, b_Unlimited = False, b_UsedBytes = 10, b_ReservedBytes = 40\<rparr> fmempty, f_grants := fmupd ''g'' sample_grant_row fmempty,
      f_links := {|(''g'', ''t'')|}, f_operations := fmupd ''o2'' ops' ops\<rparr>)"
    using guards locked s(2) unfolding reserve_tx_def
    by (auto simp: s(1) sample_reserve_def sample_grant_row_def sample_bound_def sample_fleet_def exceeds_def maxInt64_def Let_def)
  then obtain g op where "reserve_tx (lib_reserve sample_lib) 6 sample_reserve [] sample_served = Inr (g, sample_served\<lparr>
      f_budgets := fmupd ''t'' \<lparr>b_LimitBytes = 100, b_Unlimited = False, b_UsedBytes = 10, b_ReservedBytes = 40\<rparr> fmempty, f_grants := fmupd ''g'' sample_grant_row fmempty,
      f_links := {|(''g'', ''t'')|}, f_operations := fmupd ''o2'' op ops\<rparr>)" by blast
  then have "sample_funded = sample_served\<lparr>
      f_budgets := fmupd ''t'' \<lparr>b_LimitBytes = 100, b_Unlimited = False, b_UsedBytes = 10, b_ReservedBytes = 40\<rparr> fmempty, f_grants := fmupd ''g'' sample_grant_row fmempty,
      f_links := {|(''g'', ''t'')|}, f_operations := fmupd ''o2'' op ops\<rparr>"
    using n by (simp add: sample_funded_def Reserve_cp_def reserve_def on_fleet_def) (simp add: s(1) sample_bound_def sample_fleet_def)
  then show ?thesis using s(3) by (intro that [where us = us and ops = "fmupd ''o2'' op ops"]) (simp_all add: s(1) sample_bound_def sample_fleet_def)
qed

lemma sample_shape:
  obtains us ops where "sample_shaped = sample_bound\<lparr>f_clients := fmupd ''c'' (sample_client\<lparr>cl_CurrentTermID := Some ''t'', cl_Revision := 2\<rparr>) fmempty,
    f_budgets := fmupd ''t'' \<lparr>b_LimitBytes = 100, b_Unlimited = False, b_UsedBytes = 10, b_ReservedBytes = 40\<rparr> fmempty, f_terms := fmupd ''t'' sample_term fmempty, f_term_usage := us,
    f_rate_budgets := fmupd ''c'' \<lparr>rb_ClientID = ''c'', rb_TermID = ''t'', rb_Revision = 1, rb_Desired = sample_shared\<rparr> fmempty,
    f_grants := fmupd ''g'' sample_grant_row fmempty, f_links := {|(''g'', ''t'')|}, f_rate_shares := fmupd ''g'' sample_share fmempty, f_operations := ops\<rparr>"
proof -
  obtain us ops where s: "sample_funded = sample_bound\<lparr>f_clients := fmupd ''c'' (sample_client\<lparr>cl_CurrentTermID := Some ''t'', cl_Revision := 2\<rparr>) fmempty,
      f_budgets := fmupd ''t'' \<lparr>b_LimitBytes = 100, b_Unlimited = False, b_UsedBytes = 10, b_ReservedBytes = 40\<rparr> fmempty, f_terms := fmupd ''t'' sample_term fmempty, f_term_usage := us,
      f_rate_budgets := fmupd ''c'' \<lparr>rb_ClientID = ''c'', rb_TermID = ''t'', rb_Revision = 1, rb_Desired = sample_shared\<rparr> fmempty,
      f_grants := fmupd ''g'' sample_grant_row fmempty, f_links := {|(''g'', ''t'')|}, f_operations := ops\<rparr>" "fmlookup ops ''o3'' = None" by (rule sample_fund)
  have locks: "lockAuthority sample_funded = None" "lockNode ''n'' ''i'' sample_funded = None" "shares_of ''c'' sample_funded = []"
    "managedAuthority ''c'' ''t'' b sample_funded = Inr (Some sample_term)" for b
    by (simp_all add: s(1) lockAuthority_def lockNode_def First_def shares_of_def entries_by_key_one managedAuthority_def sample_bound_def sample_fleet_def sample_client_def sample_term_def)
  have rows: "f_operations sample_funded = ops" "fmlookup ops ''o3'' = None" "First (f_grants sample_funded) ''g'' = Inr sample_grant_row" "f_rate_shares sample_funded = fmempty"
    "First (f_rate_budgets sample_funded) ''c'' = Inr \<lparr>rb_ClientID = ''c'', rb_TermID = ''t'', rb_Revision = 1, rb_Desired = sample_shared\<rparr>"
    "fg_ClientID sample_grant_row = ''c''" "fg_TermID sample_grant_row = ''t''"
    by (simp_all add: s First_def sample_bound_def sample_fleet_def sample_grant_row_def)
  have req: "rr_OperationID sample_share_request = ''o3''" "rr_GrantID sample_share_request = ''g''" "rr_BudgetID sample_share_request = ''c''" "rr_NodeID sample_share_request = ''n''"
    "rr_InstallationID sample_share_request = ''i''" "rr_RuntimeID sample_share_request = ''xray''" "rr_Desired sample_share_request = sample_rates"
    by (simp_all add: sample_share_request_def)
  have out: "\<lparr>ra_Upload = envelope (ra_Upload no_rates) (ra_Upload sample_rates), ra_Download = envelope (ra_Download no_rates) (ra_Download sample_rates)\<rparr> = sample_rates"
    "rates_fit sample_shared [sample_rates]" by code_simp+
  have guard: "share_guard 7 sample_share_request sample_grant_row (Some sample_term) \<lparr>rb_ClientID = ''c'', rb_TermID = ''t'', rb_Revision = 1, rb_Desired = sample_shared\<rparr>
      no_rates [] sample_funded = Inr sample_rates"
    using out locks(4) by (simp add: share_guard_def sample_share_request_def sample_grant_row_def sample_term_def decodeRates_def sample_rates_valid)
  have "share_tx (lib_share sample_lib) 7 sample_share_request sample_funded = Inr (sample_share, sample_funded\<lparr>f_rate_shares := fmupd ''g'' sample_share fmempty,
      f_operations := fmupd ''o3'' \<lparr>op_Digest = lib_share sample_lib sample_share_request, op_Result = OpShare sample_share\<rparr> ops\<rparr>)"
    unfolding share_tx_def by (simp add: locks guard rows req) (simp add: rows(1-5) req sample_grant_row_def sample_share_def maxInt64_def Let_def)
  moreover have "runtimeName ''xray''" by code_simp
  ultimately have "sample_shaped = sample_funded\<lparr>f_rate_shares := fmupd ''g'' sample_share fmempty,
      f_operations := fmupd ''o3'' \<lparr>op_Digest = lib_share sample_lib sample_share_request, op_Result = OpShare sample_share\<rparr> ops\<rparr>"
    unfolding sample_shaped_def RequestRateShare_def by (simp add: on_fleet_def sample_rates_valid req) (simp add: s(1) sample_bound_def sample_fleet_def)
  then show ?thesis by (intro that [where us = us and ops = "fmupd ''o3'' \<lparr>op_Digest = lib_share sample_lib sample_share_request, op_Result = OpShare sample_share\<rparr> ops"]) (simp add: s(1))
qed

end
