(* ===== verification/Spec2Isabelle.thy ===== *)
theory Spec2Isabelle
  imports Policy Counter TrustedTime NodeLimits Authority Governor NodeState UsageQueue NodeAuthority
    Fleet Accounting Rates Lifecycle FleetRuns
begin

text \<open>
  Placeholder header.
\<close>

end
